(* ===== verification/GoPrelude.thy ===== *)
theory GoPrelude
  imports
    Main
    "HOL-Library.AList"
    "HOL-Library.Multiset"
    "HOL-Library.Word"
    "HOL-Library.List_Lexorder"
    "HOL-Library.Char_ord"
begin

section \<open>What the program uses of Go: strings, maps, decimal numbers\<close>

text \<open>
  The vocabulary every component shares.

  A Go string is a sequence of bytes, and so is an Isabelle \<open>string\<close> (a list of 8-bit
  characters), so lengths and slices agree. \<open>strings.TrimSpace\<close> removes Unicode white space; it is
  modelled on the UTF-8 byte sequences of the white space runes, so it is exact on every byte
  string. \<open>strings.ToLower\<close> is modelled on the ASCII letters; the program only compares its
  results with, or searches them for, ASCII words.

  A Go map whose contents are ranged over is an association list with distinct keys (\<open>gm_ok\<close>),
  because the iteration order is observable; a map that is only looked up is a function to
  \<open>option\<close>. The order in which Go ranges over a map is not specified: where it matters, the
  definitions take a reordering function and the theorems hold for every one that permutes its
  argument (\<open>range_perm\<close>).
\<close>

named_theorems go_simps \<open>equations of the string and map operations\<close>
named_theorems go_plain \<open>facts about strings of visible ASCII characters\<close>

type_synonym u16 = "16 word"
type_synonym byte = "8 word"
type_synonym ('k, 'v) gomap = "('k \<times> 'v) list"

subsection \<open>Prefixes, cuts and splits\<close>

definition has_prefix :: "string \<Rightarrow> string \<Rightarrow> bool" where
  "has_prefix s p \<longleftrightarrow> take (length p) s = p"

definition trim_prefix :: "string \<Rightarrow> string \<Rightarrow> string" where
  "trim_prefix s p = (if has_prefix s p then drop (length p) s else s)"

text \<open>\<open>strings.CutPrefix\<close>: \<open>Some\<close> of the rest when the prefix is there.\<close>

definition cut_prefix :: "string \<Rightarrow> string \<Rightarrow> string option" where
  "cut_prefix s p = (if has_prefix s p then Some (drop (length p) s) else None)"

text \<open>\<open>strings.Cut\<close> with a one-byte separator: before, after, found.\<close>

fun cut_at :: "char \<Rightarrow> string \<Rightarrow> string \<times> string \<times> bool" where
  "cut_at c [] = ([], [], False)"
| "cut_at c (x # xs) =
     (if x = c then ([], xs, True)
      else (case cut_at c xs of (b, a, f) \<Rightarrow> (x # b, a, f)))"

text \<open>\<open>strings.Split\<close> with a one-byte separator.\<close>

fun split_at_char :: "char \<Rightarrow> string \<Rightarrow> string list" where
  "split_at_char c [] = [[]]"
| "split_at_char c (x # xs) =
     (if x = c then [] # split_at_char c xs
      else (case split_at_char c xs of [] \<Rightarrow> [[x]] | p # ps \<Rightarrow> (x # p) # ps))"

fun join_with :: "char \<Rightarrow> string list \<Rightarrow> string" where
  "join_with c [] = []"
| "join_with c [p] = p"
| "join_with c (p # q # ps) = p @ c # join_with c (q # ps)"

text \<open>\<open>strings.Contains\<close>.\<close>

fun contains_str :: "string \<Rightarrow> string \<Rightarrow> bool" where
  "contains_str [] sub = (sub = [])"
| "contains_str (x # xs) sub = (has_prefix (x # xs) sub \<or> contains_str xs sub)"

lemma has_prefix_append [simp]: "has_prefix (p @ s) p"
  by (simp add: has_prefix_def)

lemma has_prefix_iff: "has_prefix s p \<longleftrightarrow> (\<exists>r. s = p @ r)"
  unfolding has_prefix_def by (metis append_eq_conv_conj append_take_drop_id)

lemma trim_prefix_append [simp]: "trim_prefix (p @ s) p = s"
  by (simp add: trim_prefix_def)

lemma cut_prefix_append [simp]: "cut_prefix (p @ s) p = Some s"
  by (simp add: cut_prefix_def)

lemma cut_prefix_Some_iff: "cut_prefix s p = Some r \<longleftrightarrow> s = p @ r"
  by (auto simp: cut_prefix_def has_prefix_iff)

lemma cut_prefix_None_iff: "cut_prefix s p = None \<longleftrightarrow> \<not> has_prefix s p"
  by (simp add: cut_prefix_def)

lemma contains_str_iff: "contains_str s sub \<longleftrightarrow> (\<exists>a b. s = a @ sub @ b)"
proof (induction s)
  case Nil
  then show ?case by simp
next
  case (Cons x xs)
  have "(\<exists>a b. x # xs = a @ sub @ b) \<longleftrightarrow> has_prefix (x # xs) sub \<or> (\<exists>a b. xs = a @ sub @ b)"
    unfolding has_prefix_iff by (metis append_Cons append_Nil list.exhaust list.sel(3))
  with Cons.IH show ?case by simp
qed

lemma cut_at_notin: "c \<notin> set s \<Longrightarrow> cut_at c s = (s, [], False)"
  by (induction s) auto

lemma cut_at_append: "c \<notin> set a \<Longrightarrow> cut_at c (a @ c # b) = (a, b, True)"
  by (induction a) auto

lemma cut_at_found: "cut_at c s = (b, a, True) \<Longrightarrow> s = b @ c # a \<and> c \<notin> set b"
  by (induction s arbitrary: b a) (auto split: if_splits prod.splits)

lemma cut_at_not_found: "cut_at c s = (b, a, False) \<Longrightarrow> b = s \<and> a = [] \<and> c \<notin> set s"
  by (induction s arbitrary: b a) (auto split: if_splits prod.splits)

lemma split_at_char_nonempty [simp]: "split_at_char c s \<noteq> []"
  by (induction s) (auto split: list.splits)

lemma split_at_char_notin: "c \<notin> set s \<Longrightarrow> split_at_char c s = [s]"
  by (induction s) auto

lemma split_at_char_append:
  "c \<notin> set a \<Longrightarrow> split_at_char c (a @ c # b) = a # split_at_char c b"
  by (induction a) auto

lemma split_join:
  "ps \<noteq> [] \<Longrightarrow> list_all (\<lambda>p. c \<notin> set p) ps \<Longrightarrow> split_at_char c (join_with c ps) = ps"
  by (induction c ps rule: join_with.induct) (auto simp: split_at_char_notin split_at_char_append)

subsection \<open>White space\<close>

text \<open>
  The UTF-8 encodings of the runes for which \<open>unicode.IsSpace\<close> holds: tab, newline, vertical tab,
  form feed, carriage return, space, U+0085, U+00A0, U+1680, U+2000 to U+200A, U+2028, U+2029,
  U+202F, U+205F and U+3000. Each starts with a byte that starts a rune, so a leading (trailing)
  rune is white space exactly if the string starts (ends) with one of these sequences.
\<close>

definition space_seqs :: "string list" where
  "space_seqs =
     [[CHR 0x09], [CHR 0x0A], [CHR 0x0B], [CHR 0x0C], [CHR 0x0D], [CHR 0x20],
      [CHR 0xC2, CHR 0x85], [CHR 0xC2, CHR 0xA0], [CHR 0xE1, CHR 0x9A, CHR 0x80],
      [CHR 0xE2, CHR 0x80, CHR 0x80], [CHR 0xE2, CHR 0x80, CHR 0x81], [CHR 0xE2, CHR 0x80, CHR 0x82],
      [CHR 0xE2, CHR 0x80, CHR 0x83], [CHR 0xE2, CHR 0x80, CHR 0x84], [CHR 0xE2, CHR 0x80, CHR 0x85],
      [CHR 0xE2, CHR 0x80, CHR 0x86], [CHR 0xE2, CHR 0x80, CHR 0x87], [CHR 0xE2, CHR 0x80, CHR 0x88],
      [CHR 0xE2, CHR 0x80, CHR 0x89], [CHR 0xE2, CHR 0x80, CHR 0x8A], [CHR 0xE2, CHR 0x80, CHR 0xA8],
      [CHR 0xE2, CHR 0x80, CHR 0xA9], [CHR 0xE2, CHR 0x80, CHR 0xAF], [CHR 0xE2, CHR 0x81, CHR 0x9F],
      [CHR 0xE3, CHR 0x80, CHR 0x80]]"

function trim_seqs :: "string list \<Rightarrow> string \<Rightarrow> string" where
  "trim_seqs seqs s =
     (case find (\<lambda>p. p \<noteq> [] \<and> has_prefix s p) seqs of
        None \<Rightarrow> s
      | Some p \<Rightarrow> trim_seqs seqs (drop (length p) s))"
  by pat_completeness auto

lemma find_prefix_shorter:
  "find (\<lambda>p. p \<noteq> [] \<and> has_prefix s p) seqs = Some p \<Longrightarrow> length s - length p < length s"
  by (auto simp: find_Some_iff has_prefix_iff)

termination trim_seqs
  by (relation "measure (\<lambda>(seqs, s). length s)") (auto dest: find_prefix_shorter)

declare trim_seqs.simps [simp del]

definition trim_space :: "string \<Rightarrow> string" where
  "trim_space s = rev (trim_seqs (map rev space_seqs) (rev (trim_seqs space_seqs s)))"

text \<open>A visible ASCII character is neither the first nor the last byte of a white space rune.\<close>

definition plain_char :: "char \<Rightarrow> bool" where
  "plain_char c \<longleftrightarrow> 33 \<le> (of_char c :: nat) \<and> (of_char c :: nat) < 127"

lemma trim_seqs_stop:
  assumes "s = [] \<or> (\<forall>p \<in> set seqs. p \<noteq> [] \<longrightarrow> hd p \<noteq> hd s)"
  shows "trim_seqs seqs s = s"
proof -
  have "find (\<lambda>p. p \<noteq> [] \<and> has_prefix s p) seqs = None"
    using assms by (auto simp: find_None_iff has_prefix_iff)
  then show ?thesis by (simp add: trim_seqs.simps [of seqs s])
qed

lemma plain_not_space_start:
  "plain_char c \<Longrightarrow> \<forall>p \<in> set space_seqs. p \<noteq> [] \<longrightarrow> hd p \<noteq> c"
  by (auto simp: space_seqs_def plain_char_def)

lemma plain_not_space_end:
  "plain_char c \<Longrightarrow> \<forall>p \<in> set (map rev space_seqs). p \<noteq> [] \<longrightarrow> hd p \<noteq> c"
  by (auto simp: space_seqs_def plain_char_def)

lemma trim_space_plain [go_plain]:
  assumes "list_all plain_char s"
  shows "trim_space s = s"
proof (cases "s = []")
  case True
  then show ?thesis by (simp add: trim_space_def trim_seqs_stop)
next
  case False
  with assms have ends: "plain_char (hd s)" "plain_char (hd (rev s))"
    by (auto simp: list_all_iff hd_rev)
  have "trim_seqs space_seqs s = s"
    by (rule trim_seqs_stop) (use ends(1) plain_not_space_start in blast)
  moreover have "trim_seqs (map rev space_seqs) (rev s) = rev s"
    by (rule trim_seqs_stop) (use ends(2) plain_not_space_end in blast)
  ultimately show ?thesis by (simp add: trim_space_def)
qed

lemma trim_seqs_suffix: "\<exists>a. s = a @ trim_seqs seqs s"
proof (induction seqs s rule: trim_seqs.induct)
  case (1 seqs s)
  show ?case
  proof (cases "find (\<lambda>p. p \<noteq> [] \<and> has_prefix s p) seqs")
    case None
    then show ?thesis by (simp add: trim_seqs.simps [of seqs s])
  next
    case (Some p)
    define rest where "rest = drop (length p) s"
    have unfold: "trim_seqs seqs s = trim_seqs seqs rest"
      using Some by (simp add: trim_seqs.simps [of seqs s] rest_def)
    obtain a where "rest = a @ trim_seqs seqs rest"
      using "1.IH" Some unfolding rest_def by blast
    moreover have "s = take (length p) s @ rest"
      by (simp add: rest_def)
    ultimately have "s = (take (length p) s @ a) @ trim_seqs seqs s"
      unfolding unfold by (metis append.assoc)
    then show ?thesis by blast
  qed
qed

lemma trim_space_Nil [simp]: "trim_space [] = []"
  by (simp add: trim_space_def trim_seqs_stop)

lemma set_trim_space: "set (trim_space s) \<subseteq> set s"
proof -
  obtain a where a: "s = a @ trim_seqs space_seqs s"
    using trim_seqs_suffix by blast
  obtain b where b: "rev (trim_seqs space_seqs s)
      = b @ trim_seqs (map rev space_seqs) (rev (trim_seqs space_seqs s))"
    using trim_seqs_suffix by blast
  have "set (trim_space s) \<subseteq> set (trim_seqs space_seqs s)"
    using arg_cong [OF b, of set] by (auto simp: trim_space_def)
  moreover have "set (trim_seqs space_seqs s) \<subseteq> set s"
    using arg_cong [OF a, of set] by auto
  ultimately show ?thesis by blast
qed

subsection \<open>Case folding\<close>

text \<open>Of the letters A to Z only: \<open>strings.ToLower\<close> and \<open>strings.EqualFold\<close> also fold letters beyond ASCII, which is not
  modelled.\<close>

definition lower_char :: "char \<Rightarrow> char" where
  "lower_char c = (let n = of_char c :: nat in if 65 \<le> n \<and> n \<le> 90 then char_of (n + 32) else c)"

definition to_lower :: "string \<Rightarrow> string" where
  "to_lower = map lower_char"

definition equal_fold :: "string \<Rightarrow> string \<Rightarrow> bool" where
  "equal_fold a b \<longleftrightarrow> to_lower a = to_lower b"

lemma lower_char_idem [simp]: "lower_char (lower_char c) = lower_char c"
  by (auto simp: lower_char_def Let_def)

lemma to_lower_idem [simp]: "to_lower (to_lower s) = to_lower s"
  by (simp add: to_lower_def)

lemma to_lower_append [simp]: "to_lower (a @ b) = to_lower a @ to_lower b"
  by (simp add: to_lower_def)

subsection \<open>Decimal numbers\<close>

definition is_digit :: "char \<Rightarrow> bool" where
  "is_digit c \<longleftrightarrow> 48 \<le> (of_char c :: nat) \<and> (of_char c :: nat) \<le> 57"

definition digit_val :: "char \<Rightarrow> nat" where
  "digit_val c = of_char c - 48"

definition digit_char :: "nat \<Rightarrow> char" where
  "digit_char n = char_of (n + 48)"

definition dec_val :: "string \<Rightarrow> nat" where
  "dec_val s = foldl (\<lambda>a c. 10 * a + digit_val c) 0 s"

fun show_nat :: "nat \<Rightarrow> string" where
  "show_nat n = (if n < 10 then [digit_char n] else show_nat (n div 10) @ [digit_char (n mod 10)])"

declare show_nat.simps [simp del]

lemma of_char_digit_char: "n < 10 \<Longrightarrow> (of_char (digit_char n) :: nat) = n + 48"
  by (simp add: digit_char_def)

lemma digit_char_facts [simp]:
  assumes "n < 10"
  shows "is_digit (digit_char n)" "digit_val (digit_char n) = n" "plain_char (digit_char n)"
  using assms by (simp_all add: is_digit_def digit_val_def plain_char_def of_char_digit_char)

lemma show_nat_digits: "list_all is_digit (show_nat n)"
  by (induction n rule: show_nat.induct) (simp add: show_nat.simps)

lemma show_nat_nonempty [simp]: "show_nat n \<noteq> []"
  by (simp add: show_nat.simps [of n])

lemma dec_val_snoc: "dec_val (s @ [c]) = 10 * dec_val s + digit_val c"
  by (simp add: dec_val_def)

lemma dec_val_show_nat [simp]: "dec_val (show_nat n) = n"
proof (induction n rule: show_nat.induct)
  case (1 n)
  show ?case
  proof (cases "n < 10")
    case True
    then show ?thesis by (simp add: show_nat.simps [of n] dec_val_def)
  next
    case False
    with "1.IH" show ?thesis by (simp add: show_nat.simps [of n] dec_val_snoc)
  qed
qed

lemma digit_plain: "is_digit c \<Longrightarrow> plain_char c"
  by (simp add: is_digit_def plain_char_def)

lemma digits_plain [go_plain]: "list_all is_digit s \<Longrightarrow> list_all plain_char s"
  by (auto simp: list_all_iff digit_plain)

lemma show_nat_plain [go_plain]: "list_all plain_char (show_nat n)"
  by (rule digits_plain [OF show_nat_digits])

lemma is_digit_neq:
  "is_digit c \<Longrightarrow> c \<noteq> CHR '',''" "is_digit c \<Longrightarrow> c \<noteq> CHR '':''"
  "is_digit c \<Longrightarrow> c \<noteq> CHR ''/''" "is_digit c \<Longrightarrow> c \<noteq> CHR ''.''"
  by (auto simp: is_digit_def)

lemma show_nat_notin:
  "CHR '','' \<notin> set (show_nat n)" "CHR '':'' \<notin> set (show_nat n)"
  "CHR ''/'' \<notin> set (show_nat n)" "CHR ''.'' \<notin> set (show_nat n)"
  using show_nat_digits [of n] by (auto simp: list_all_iff dest: is_digit_neq)

subsection \<open>Maps\<close>

text \<open>\<open>m[k]\<close> with the zero value for a missing key, on maps of strings.\<close>

definition str_index :: "('k \<rightharpoonup> string) \<Rightarrow> 'k \<Rightarrow> string" where
  "str_index m k = (case m k of None \<Rightarrow> [] | Some v \<Rightarrow> v)"

definition gm_put :: "'k \<Rightarrow> 'v \<Rightarrow> ('k, 'v) gomap \<Rightarrow> ('k, 'v) gomap" where
  "gm_put k v m = AList.update k v m"

definition gm_ok :: "('k, 'v) gomap \<Rightarrow> bool" where
  "gm_ok m \<longleftrightarrow> distinct (map fst m)"

definition range_perm :: "('a list \<Rightarrow> 'a list) \<Rightarrow> bool" where
  "range_perm rng \<longleftrightarrow> (\<forall>xs. mset (rng xs) = mset xs)"

lemma gm_ok_Nil [simp]: "gm_ok []"
  by (simp add: gm_ok_def)

lemma gm_ok_put [simp]: "gm_ok m \<Longrightarrow> gm_ok (gm_put k v m)"
  by (simp add: gm_ok_def gm_put_def distinct_update)

lemma map_of_gm_put [simp]: "map_of (gm_put k v m) = (map_of m)(k \<mapsto> v)"
  by (simp add: gm_put_def update_conv')

lemma keys_gm_put [simp]: "fst ` set (gm_put k v m) = insert k (fst ` set m)"
  by (simp add: gm_put_def update_conv' flip: dom_map_of_conv_image_fst)

lemma gm_in_set: "gm_ok m \<Longrightarrow> (k, v) \<in> set m \<longleftrightarrow> map_of m k = Some v"
  by (simp add: gm_ok_def map_of_eq_Some_iff)

lemma range_perm_set [simp]: "range_perm rng \<Longrightarrow> set (rng xs) = set xs"
  unfolding range_perm_def by (metis set_mset_mset)

lemma range_perm_length [simp]: "range_perm rng \<Longrightarrow> length (rng xs) = length xs"
  unfolding range_perm_def by (metis size_mset)

lemma range_perm_ok [simp]: "range_perm rng \<Longrightarrow> gm_ok (rng m) \<longleftrightarrow> gm_ok m"
  unfolding range_perm_def gm_ok_def by (intro mset_eq_imp_distinct_iff) simp

lemma range_perm_map_of [simp]:
  assumes "range_perm rng" "gm_ok m"
  shows "map_of (rng m) = map_of m"
proof -
  have "gm_ok (rng m)" "set (rng m) = set m" using assms by simp_all
  then show ?thesis using assms(2) by (simp add: gm_ok_def map_of_inject_set)
qed

lemma range_perm_id [simp]: "range_perm (\<lambda>xs. xs)"
  by (simp add: range_perm_def)

lemma range_perm_rev [simp]: "range_perm rev"
  by (simp add: range_perm_def)

end
