(* ===== verification/Labels.thy ===== *)
theory Labels
  imports GoPrelude
begin

section \<open>Package labels: the exposure labels of a container\<close>

text \<open>
  \<open>src/internal/labels/labels.go\<close>. The operations are the code's: \<open>parsePort\<close>,
  \<open>parseRule\<close> and \<open>Parse\<close>, with the loop over the comma-separated entries as
  \<open>parse_entries\<close>. Errors are values of one datatype per function; each constructor is one
  \<open>fmt.Errorf\<close> of the source and carries what the message quotes.

  Shown: every rule of an accepted specification is well formed; \<open>Parse\<close> accepts exactly the
  label sets whose non-blank entries all parse; the first bad entry is the one reported; printing a
  well-formed specification and parsing it gives it back.
\<close>

subsection \<open>The code\<close>

definition LabelExpose :: string where
  "LabelExpose = ''anchord.expose''"

definition LabelExposeV6 :: string where
  "LabelExposeV6 = ''anchord.expose.v6''"

record rule =
  Proto :: string
  Port :: u16
  BackendPort :: u16

definition Translates :: "rule \<Rightarrow> bool" where
  "Translates r \<longleftrightarrow> Port r \<noteq> BackendPort r"

datatype v6mode = V6Auto | V6Off

record spec =
  Rules :: "rule list"
  SpecV6 :: v6mode

datatype port_error = EmptyPort | Not16Bit | PortZero

datatype rule_error =
    NoSlash
  | UnsupportedProto string
  | InvalidDmzPort string port_error
  | InvalidBackendPort string port_error

datatype label_error = BadEntry string rule_error | SetButEmpty | BadV6Mode

text \<open>\<open>strconv.ParseUint(s, 10, 16)\<close>: decimal digits only, and in range.\<close>

definition parse_uint16 :: "string \<Rightarrow> u16 option" where
  "parse_uint16 s =
     (if s \<noteq> [] \<and> list_all is_digit s \<and> dec_val s < 65536 then Some (of_nat (dec_val s)) else None)"

definition parsePort :: "string \<Rightarrow> port_error + u16" where
  "parsePort s =
     (let trimmed = trim_space s in
      if trimmed = [] then Inl EmptyPort
      else (case parse_uint16 trimmed of
          None \<Rightarrow> Inl Not16Bit
        | Some port \<Rightarrow> if port = 0 then Inl PortZero else Inr port))"

definition parseRule :: "string \<Rightarrow> rule_error + rule" where
  "parseRule s =
     (case cut_at (CHR ''/'') s of (proto0, rest, ok) \<Rightarrow>
      if \<not> ok then Inl NoSlash
      else let proto = to_lower (trim_space proto0) in
      if proto \<noteq> ''tcp'' \<and> proto \<noteq> ''udp'' then Inl (UnsupportedProto proto)
      else (case cut_at (CHR '':'') rest of (dmzStr, backendStr, hasBackend) \<Rightarrow>
       (case parsePort dmzStr of
          Inl e \<Rightarrow> Inl (InvalidDmzPort dmzStr e)
        | Inr dmzPort \<Rightarrow>
            if hasBackend then
              (case parsePort backendStr of
                 Inl e \<Rightarrow> Inl (InvalidBackendPort backendStr e)
               | Inr bp \<Rightarrow> Inr \<lparr>Proto = proto, Port = dmzPort, BackendPort = bp\<rparr>)
            else Inr \<lparr>Proto = proto, Port = dmzPort, BackendPort = dmzPort\<rparr>)))"

text \<open>The loop of \<open>Parse\<close> over the entries; the accumulator is \<open>spec.Rules\<close>.\<close>

fun parse_entries :: "string list \<Rightarrow> rule list \<Rightarrow> label_error + rule list" where
  "parse_entries [] rules = Inr rules"
| "parse_entries (p # ps) rules =
     (let part = trim_space p in
      if part = [] then parse_entries ps rules
      else (case parseRule part of
          Inl e \<Rightarrow> Inl (BadEntry part e)
        | Inr r \<Rightarrow> parse_entries ps (rules @ [r])))"

definition parse_v6mode :: "string \<Rightarrow> v6mode option" where
  "parse_v6mode s =
     (let v = to_lower (trim_space s) in
      if v = [] \<or> v = ''auto'' then Some V6Auto
      else if v = ''off'' \<or> v = ''false'' \<or> v = ''no'' \<or> v = ''0'' then Some V6Off
      else None)"

definition Parse :: "(string \<rightharpoonup> string) \<Rightarrow> label_error + spec option" where
  "Parse lbl =
     (case lbl LabelExpose of
        None \<Rightarrow> Inr None
      | Some raw \<Rightarrow>
          if trim_space raw = [] then Inr None
          else (case parse_entries (split_at_char (CHR '','') raw) [] of
              Inl e \<Rightarrow> Inl e
            | Inr rules \<Rightarrow>
                if rules = [] then Inl SetButEmpty
                else (case parse_v6mode (str_index lbl LabelExposeV6) of
                    None \<Rightarrow> Inl BadV6Mode
                  | Some m \<Rightarrow> Inr (Some \<lparr>Rules = rules, SpecV6 = m\<rparr>))))"

subsection \<open>Ports and rules\<close>

definition wf_rule :: "rule \<Rightarrow> bool" where
  "wf_rule r \<longleftrightarrow> (Proto r = ''tcp'' \<or> Proto r = ''udp'') \<and> Port r \<noteq> 0 \<and> BackendPort r \<noteq> 0"

lemma parse_uint16_Some_iff:
  "parse_uint16 s = Some p \<longleftrightarrow> s \<noteq> [] \<and> list_all is_digit s \<and> dec_val s = unat p"
proof -
  have "unat p < 65536" using unsigned_less [of p, where ?'a = nat] by simp
  moreover have "unat (of_nat n :: u16) = n" if "n < 65536" for n
    using that by (simp add: unat_of_nat)
  ultimately show ?thesis
    by (auto simp: parse_uint16_def)
qed

lemma parsePort_Inr_iff:
  "parsePort s = Inr p \<longleftrightarrow>
     trim_space s \<noteq> [] \<and> list_all is_digit (trim_space s) \<and> dec_val (trim_space s) = unat p \<and> p \<noteq> 0"
  using parse_uint16_Some_iff [of "trim_space s" p]
  by (cases "parse_uint16 (trim_space s)") (auto simp: parsePort_def Let_def)

lemma parsePort_nonzero [simp]: "parsePort s \<noteq> Inr 0"
  by (simp add: parsePort_Inr_iff)

lemma parsePort_show [simp]: "p \<noteq> 0 \<Longrightarrow> parsePort (show_nat (unat p)) = Inr p"
  by (simp add: parsePort_Inr_iff show_nat_digits go_plain)

lemma parseRule_wf: "parseRule s = Inr r \<Longrightarrow> wf_rule r"
  by (auto simp: parseRule_def wf_rule_def Let_def split: prod.splits sum.splits if_splits)

lemma parse_entries_acc:
  "parse_entries ps (rs @ rs') = (case parse_entries ps rs' of Inl e \<Rightarrow> Inl e | Inr q \<Rightarrow> Inr (rs @ q))"
  by (induction ps arbitrary: rs') (auto simp: Let_def split: sum.splits)

text \<open>The entries the loop looks at: trimmed, blank ones skipped.\<close>

definition entries_of :: "string list \<Rightarrow> string list" where
  "entries_of ps = filter (\<lambda>p. p \<noteq> []) (map trim_space ps)"

lemma parse_entries_Inr_iff:
  "parse_entries ps rs = Inr q \<longleftrightarrow> (\<exists>q'. q = rs @ q' \<and> map parseRule (entries_of ps) = map Inr q')"
proof (induction ps arbitrary: rs)
  case Nil
  then show ?case by (auto simp: entries_of_def)
next
  case (Cons p ps)
  show ?case
  proof (cases "trim_space p = []")
    case True
    then show ?thesis using Cons.IH by (simp add: entries_of_def)
  next
    case False
    then show ?thesis
      using Cons.IH by (cases "parseRule (trim_space p)") (auto simp: entries_of_def Cons_eq_map_conv)
  qed
qed

text \<open>An entry that is bad while every one before it is good.\<close>

definition first_bad :: "('a \<Rightarrow> 'e + 'b) \<Rightarrow> 'a list \<Rightarrow> 'a \<Rightarrow> 'e \<Rightarrow> bool" where
  "first_bad f xs x e \<longleftrightarrow>
     (\<exists>pre post. xs = pre @ x # post \<and> list_all (\<lambda>y. \<exists>r. f y = Inr r) pre \<and> f x = Inl e)"

lemma first_bad_Nil [simp]: "\<not> first_bad f [] x e"
  by (simp add: first_bad_def)

lemma first_bad_Inl: "f y = Inl e' \<Longrightarrow> first_bad f (y # ys) x e \<longleftrightarrow> x = y \<and> e = e'"
  unfolding first_bad_def
  by (rule iffI, clarsimp simp: Cons_eq_append_conv, force, rule exI [of _ "[]"], simp)

lemma first_bad_Inr: "f y = Inr r \<Longrightarrow> first_bad f (y # ys) x e \<longleftrightarrow> first_bad f ys x e"
proof
  assume r: "f y = Inr r" and "first_bad f (y # ys) x e"
  then show "first_bad f ys x e" by (auto simp: first_bad_def Cons_eq_append_conv)
next
  assume r: "f y = Inr r" and "first_bad f ys x e"
  then obtain pre post where "ys = pre @ x # post" "list_all (\<lambda>y. \<exists>r. f y = Inr r) pre" "f x = Inl e"
    by (auto simp: first_bad_def)
  with r show "first_bad f (y # ys) x e"
    unfolding first_bad_def by (intro exI [of _ "y # pre"] exI [of _ post]) simp
qed

lemma parse_entries_Inl_iff:
  "parse_entries ps rs = Inl e \<longleftrightarrow>
     (\<exists>part re. e = BadEntry part re \<and> first_bad parseRule (entries_of ps) part re)"
proof (induction ps arbitrary: rs)
  case Nil
  then show ?case by (simp add: entries_of_def)
next
  case (Cons p ps)
  show ?case
  proof (cases "trim_space p = []")
    case True
    then show ?thesis using Cons.IH by (simp add: entries_of_def)
  next
    case False
    then have en: "entries_of (p # ps) = trim_space p # entries_of ps"
      by (simp add: entries_of_def)
    show ?thesis
      using False Cons.IH
      by (cases "parseRule (trim_space p)") (auto simp: en first_bad_Inl first_bad_Inr)
  qed
qed

lemmas parse_entries_cases = parse_entries_Inr_iff parse_entries_Inl_iff

subsection \<open>Printing\<close>

definition show_rule :: "rule \<Rightarrow> string" where
  "show_rule r =
     Proto r @ ''/'' @ show_nat (unat (Port r))
       @ (if Translates r then '':'' @ show_nat (unat (BackendPort r)) else [])"

definition show_v6mode :: "v6mode \<Rightarrow> string" where
  "show_v6mode m = (case m of V6Auto \<Rightarrow> ''auto'' | V6Off \<Rightarrow> ''off'')"

definition spec_labels :: "spec \<Rightarrow> (string \<rightharpoonup> string)" where
  "spec_labels sp =
     [LabelExpose \<mapsto> join_with (CHR '','') (map show_rule (Rules sp)),
      LabelExposeV6 \<mapsto> show_v6mode (SpecV6 sp)]"

lemma tcp_udp_plain [go_plain]:
  "trim_space ''tcp'' = ''tcp''" "trim_space ''udp'' = ''udp''"
  "trim_space ''auto'' = ''auto''" "trim_space ''off'' = ''off''"
  by (rule trim_space_plain, simp add: plain_char_def)+

lemma tcp_udp_lower [simp]:
  "to_lower ''tcp'' = ''tcp''" "to_lower ''udp'' = ''udp''"
  "to_lower ''auto'' = ''auto''" "to_lower ''off'' = ''off''"
  by (simp_all add: to_lower_def lower_char_def)

lemma show_rule_plain [go_plain]: "wf_rule r \<Longrightarrow> list_all plain_char (show_rule r)"
  using show_nat_plain by (auto simp: show_rule_def wf_rule_def plain_char_def)

lemma show_rule_no_comma: "wf_rule r \<Longrightarrow> CHR '','' \<notin> set (show_rule r)"
  by (auto simp: show_rule_def wf_rule_def show_nat_notin)

lemma show_rule_nonempty [simp]: "show_rule r \<noteq> []"
  by (simp add: show_rule_def)

lemma parseRule_show:
  assumes "wf_rule r"
  shows "parseRule (show_rule r) = Inr r"
proof -
  let ?rest = "show_nat (unat (Port r))
      @ (if Translates r then '':'' @ show_nat (unat (BackendPort r)) else [])"
  have "cut_at (CHR ''/'') (show_rule r) = (Proto r, ?rest, True)"
    using assms by (auto simp: show_rule_def wf_rule_def cut_at_append)
  moreover have "cut_at (CHR '':'') ?rest
      = (show_nat (unat (Port r)),
         if Translates r then show_nat (unat (BackendPort r)) else [], Translates r)"
    by (auto simp: cut_at_append cut_at_notin show_nat_notin)
  ultimately show ?thesis
    using assms by (cases r) (auto simp: parseRule_def wf_rule_def Translates_def go_plain)
qed

lemma parse_v6mode_show [simp]: "parse_v6mode (show_v6mode m) = Some m"
  by (cases m) (simp_all add: parse_v6mode_def show_v6mode_def go_plain)

lemma join_plain:
  "list_all (list_all plain_char) ps \<Longrightarrow> plain_char c \<Longrightarrow> list_all plain_char (join_with c ps)"
  by (induction c ps rule: join_with.induct) auto

lemma join_nonempty: "ps \<noteq> [] \<Longrightarrow> [] \<notin> set ps \<Longrightarrow> join_with c ps \<noteq> []"
  by (induction c ps rule: join_with.induct) auto

lemma entries_of_shown:
  "list_all wf_rule rs \<Longrightarrow> entries_of (map show_rule rs) = map show_rule rs"
  by (induction rs) (auto simp: entries_of_def trim_space_plain show_rule_plain)

lemma map_parseRule_show:
  "list_all wf_rule rs \<Longrightarrow> map parseRule (map show_rule rs) = map Inr rs"
  by (induction rs) (auto simp: parseRule_show)

text \<open>Evaluation on concrete labels of visible characters.\<close>

lemmas labels_eval = Parse_def parseRule_def parsePort_def parse_uint16_def parse_v6mode_def
  trim_space_plain plain_char_def to_lower_def lower_char_def char_of_def bit_Suc_0_iff is_digit_def Let_def dec_val_def digit_val_def
  LabelExpose_def LabelExposeV6_def str_index_def

lemma Parse_rules_wf:
  assumes "Parse lbl = Inr (Some sp)"
  shows "list_all wf_rule (Rules sp)"
proof -
  obtain ps where "parse_entries ps [] = Inr (Rules sp)"
    using assms by (auto simp: Parse_def split: option.splits sum.splits if_splits)
  then have "map parseRule (entries_of ps) = map Inr (Rules sp)"
    by (simp add: parse_entries_Inr_iff)
  then have "\<exists>s. parseRule s = Inr r" if "r \<in> set (Rules sp)" for r
    using that by (metis (no_types, lifting) ex_map_conv list.set_map image_eqI)
  then show ?thesis by (auto simp: list_all_iff dest: parseRule_wf)
qed

subsection \<open>Properties\<close>

text \<open>
  C21. Every specification \<open>Parse\<close> returns has at least one rule, and each of its rules has
  protocol tcp or udp, a DMZ port and a backend port between 1 and 65535 (a 16-bit word that is not
  0): the reconciler and the NAT manager never see port 0 or another protocol.
\<close>

theorem Parse_wf:
  assumes "Parse lbl = Inr (Some sp)"
  shows "Rules sp \<noteq> [] \<and> list_all wf_rule (Rules sp)"
  using assms Parse_rules_wf [OF assms]
  by (auto simp: Parse_def split: option.splits sum.splits if_splits)

theorem Parse_wf_witness:
  "Parse [LabelExpose \<mapsto> ''TCP/636:6636,,udp/53'']
     = Inr (Some \<lparr>Rules = [\<lparr>Proto = ''tcp'', Port = 636, BackendPort = 6636\<rparr>,
                            \<lparr>Proto = ''udp'', Port = 53, BackendPort = 53\<rparr>], SpecV6 = V6Auto\<rparr>)
   \<and> list_all wf_rule [\<lparr>Proto = ''tcp'', Port = 636, BackendPort = 6636\<rparr>,
                        \<lparr>Proto = ''udp'', Port = 53, BackendPort = 53\<rparr>]"
proof -
  have p: "Parse [LabelExpose \<mapsto> ''TCP/636:6636,,udp/53'']
     = Inr (Some \<lparr>Rules = [\<lparr>Proto = ''tcp'', Port = 636, BackendPort = 6636\<rparr>,
                            \<lparr>Proto = ''udp'', Port = 53, BackendPort = 53\<rparr>], SpecV6 = V6Auto\<rparr>)"
    by (simp add: labels_eval)
  from Parse_wf [OF p] p show ?thesis by simp
qed

text \<open>
  C22. Printing and parsing: for every non-empty list of well-formed rules and either IPv6 mode,
  the labels that state them parse to exactly that specification, in the same order.
\<close>

theorem Parse_spec_labels:
  assumes "Rules sp \<noteq> []" and "list_all wf_rule (Rules sp)"
  shows "Parse (spec_labels sp) = Inr (Some sp)"
proof -
  let ?ps = "map show_rule (Rules sp)"
  let ?raw = "join_with (CHR '','') ?ps"
  have split: "split_at_char (CHR '','') ?raw = ?ps"
    by (rule split_join) (use assms show_rule_no_comma in \<open>auto simp: list_all_iff\<close>)
  have "list_all plain_char ?raw"
    by (rule join_plain) (use assms(2) show_rule_plain in \<open>auto simp: list_all_iff plain_char_def\<close>)
  then have "trim_space ?raw = ?raw" by (rule trim_space_plain)
  moreover have "?raw \<noteq> []" by (rule join_nonempty) (use assms(1) show_rule_nonempty in \<open>auto dest: sym\<close>)
  ultimately have "trim_space ?raw \<noteq> []" by simp
  moreover have "parse_entries ?ps [] = Inr (Rules sp)"
    using assms(2) by (simp add: parse_entries_Inr_iff entries_of_shown map_parseRule_show
        del: map_map)
  ultimately show ?thesis
    using assms(1) split
    by (simp add: Parse_def spec_labels_def LabelExpose_def LabelExposeV6_def str_index_def)
qed

theorem Parse_spec_labels_witness:
  "Parse (spec_labels \<lparr>Rules = [\<lparr>Proto = ''tcp'', Port = 636, BackendPort = 6636\<rparr>], SpecV6 = V6Off\<rparr>)
     = Inr (Some \<lparr>Rules = [\<lparr>Proto = ''tcp'', Port = 636, BackendPort = 6636\<rparr>], SpecV6 = V6Off\<rparr>)"
  by (rule Parse_spec_labels) (simp_all add: wf_rule_def)

text \<open>
  \<open>Parse\<close> fails with an entry error exactly when some entry is bad, and it reports the
  first bad one: every non-blank entry before it parses. (Blank entries are skipped, and an absent
  or blank label is not an error.)
\<close>

theorem Parse_first_bad_entry:
  assumes "lbl LabelExpose = Some raw" and "trim_space raw \<noteq> []"
  shows "Parse lbl = Inl (BadEntry part re) \<longleftrightarrow>
    first_bad parseRule (entries_of (split_at_char (CHR '','') raw)) part re"
proof -
  let ?ps = "split_at_char (CHR '','') raw"
  have "Parse lbl = Inl (BadEntry part re) \<longleftrightarrow> parse_entries ?ps [] = Inl (BadEntry part re)"
    using assms by (auto simp: Parse_def split: option.splits sum.splits)
  then show ?thesis by (simp add: parse_entries_Inl_iff)
qed

theorem Parse_first_bad_entry_witness:
  "Parse [LabelExpose \<mapsto> ''tcp/25,sctp/9''] = Inl (BadEntry ''sctp/9'' (UnsupportedProto ''sctp''))"
proof -
  have t: "trim_space ''tcp/25,sctp/9'' \<noteq> []"
    by (simp add: labels_eval)
  have "entries_of (split_at_char (CHR '','') ''tcp/25,sctp/9'') = [''tcp/25'', ''sctp/9'']"
    by (simp add: labels_eval entries_of_def)
  moreover have "parseRule ''tcp/25'' = Inr \<lparr>Proto = ''tcp'', Port = 25, BackendPort = 25\<rparr>"
    by (simp add: labels_eval)
  moreover have "parseRule ''sctp/9'' = Inl (UnsupportedProto ''sctp'')"
    by (simp add: labels_eval)
  ultimately show ?thesis
    by (subst Parse_first_bad_entry [OF _ t]) (simp_all add: first_bad_Inr first_bad_Inl)
qed

end
