(* ===== verification/GoNet.thy ===== *)
theory GoNet
  imports GoPrelude
begin

section \<open>What the program uses of Go's net package: IP addresses\<close>

text \<open>
  A \<open>net.IP\<close> is a byte slice: empty (the nil address), 4 bytes, or 16 bytes. An IPv4 address
  occurs in both lengths; \<open>to4\<close>, \<open>to16\<close> and \<open>ip_equal\<close> identify the two forms as the
  library does. \<open>parse_ip\<close> is \<open>net.ParseIP\<close> (always 16 bytes, or nil), \<open>ip_string\<close> is
  \<open>net.IP.String\<close>.
\<close>

type_synonym net_ip = "byte list"

definition v4in6_prefix :: net_ip where
  "v4in6_prefix = replicate 10 0 @ [255, 255]"

definition to4 :: "net_ip \<Rightarrow> net_ip" where
  "to4 ip =
     (if length ip = 4 then ip
      else if length ip = 16 \<and> take 12 ip = v4in6_prefix then drop 12 ip
      else [])"

definition to16 :: "net_ip \<Rightarrow> net_ip" where
  "to16 ip =
     (if length ip = 4 then v4in6_prefix @ ip
      else if length ip = 16 then ip
      else [])"

definition ip_equal :: "net_ip \<Rightarrow> net_ip \<Rightarrow> bool" where
  "ip_equal a b =
     (if length a = length b then a = b
      else if length a = 4 \<and> length b = 16 then take 12 b = v4in6_prefix \<and> a = drop 12 b
      else if length a = 16 \<and> length b = 4 then take 12 a = v4in6_prefix \<and> drop 12 a = b
      else False)"

text \<open>The lengths the program's addresses have.\<close>

definition ip_ok :: "net_ip \<Rightarrow> bool" where
  "ip_ok ip \<longleftrightarrow> length ip = 0 \<or> length ip = 4 \<or> length ip = 16"

lemma length_v4in6_prefix [simp]: "length v4in6_prefix = 12"
  by (simp add: v4in6_prefix_def)

lemma to4_Nil [simp]: "to4 [] = []"
  by (simp add: to4_def)

lemma to16_Nil [simp]: "to16 [] = []"
  by (simp add: to16_def)

lemma length_to4: "length (to4 ip) = 0 \<or> length (to4 ip) = 4"
  by (simp add: to4_def)

lemma to4_nonempty_length: "to4 ip \<noteq> [] \<Longrightarrow> length (to4 ip) = 4"
  using length_to4 by auto

lemma to4_idem [simp]: "to4 (to4 ip) = to4 ip"
  by (simp add: to4_def)

lemma length_to16: "length (to16 ip) = 0 \<or> length (to16 ip) = 16"
  by (simp add: to16_def)

lemma to16_nonempty_length: "to16 ip \<noteq> [] \<Longrightarrow> length (to16 ip) = 16"
  using length_to16 by auto

lemma ip_equal_refl [simp]: "ip_equal a a"
  by (simp add: ip_equal_def)

lemma ip_equal_sym: "ip_equal a b \<longleftrightarrow> ip_equal b a"
  by (auto simp: ip_equal_def)

lemma ip_equal_Nil [simp]: "ip_equal [] b \<longleftrightarrow> b = []"
  by (simp add: ip_equal_def)

lemma ip_equal_Nil2 [simp]: "ip_equal b [] \<longleftrightarrow> b = []"
  by (simp add: ip_equal_def)

text \<open>On addresses the program handles, \<open>Equal\<close> compares the 16-byte forms.\<close>

lemma ip_equal_iff_to16:
  assumes "ip_ok a" "ip_ok b"
  shows "ip_equal a b \<longleftrightarrow> to16 a = to16 b"
proof -
  have split16: "take 12 x = v4in6_prefix \<and> y = drop 12 x \<longleftrightarrow> v4in6_prefix @ y = x"
    if "length x = 16" for x y :: net_ip
    using that by (metis append_eq_conv_conj length_v4in6_prefix append_take_drop_id)
  show ?thesis
    using assms split16 [of a b] split16 [of b a]
    by (auto simp: ip_equal_def to16_def ip_ok_def)
qed

lemma ip_equal_trans:
  "ip_ok a \<Longrightarrow> ip_ok b \<Longrightarrow> ip_ok c \<Longrightarrow> ip_equal a b \<Longrightarrow> ip_equal b c \<Longrightarrow> ip_equal a c"
  by (simp add: ip_equal_iff_to16)

lemma ip_equal_to4: "to4 ip \<noteq> [] \<Longrightarrow> ip_equal (to4 ip) ip"
  by (auto simp: to4_def ip_equal_def split: if_splits)

subsection \<open>net.ParseIP\<close>

definition parse_octet :: "string \<Rightarrow> byte option" where
  "parse_octet s =
     (if s \<noteq> [] \<and> list_all is_digit s \<and> (length s = 1 \<or> hd s \<noteq> CHR ''0'') \<and> dec_val s \<le> 255
      then Some (of_nat (dec_val s)) else None)"

definition parse_v4 :: "string \<Rightarrow> net_ip option" where
  "parse_v4 s =
     (case map parse_octet (split_at_char (CHR ''.'') s) of
        [Some a, Some b, Some c, Some d] \<Rightarrow> Some [a, b, c, d]
      | _ \<Rightarrow> None)"

definition hex_val :: "char \<Rightarrow> nat option" where
  "hex_val c =
     (let n = of_char c :: nat in
      if 48 \<le> n \<and> n \<le> 57 then Some (n - 48)
      else if 97 \<le> n \<and> n \<le> 102 then Some (n - 87)
      else if 65 \<le> n \<and> n \<le> 70 then Some (n - 55)
      else None)"

definition hex_group :: "string \<Rightarrow> nat" where
  "hex_group s = foldl (\<lambda>a c. 16 * a + (case hex_val c of None \<Rightarrow> 0 | Some v \<Rightarrow> v)) 0 s"

definition group_bytes :: "nat \<Rightarrow> net_ip" where
  "group_bytes n = [of_nat (n div 256), of_nat (n mod 256)]"

text \<open>
  The group loop of the IPv6 parser: at most \<open>k\<close> more groups, the rest of the string, the bytes
  read so far and the position of the ellipsis.
\<close>

fun v6_loop :: "nat \<Rightarrow> string \<Rightarrow> net_ip \<Rightarrow> nat option \<Rightarrow> (string \<times> net_ip \<times> nat option) option" where
  "v6_loop 0 s ip ell = Some (s, ip, ell)"
| "v6_loop (Suc k) s ip ell =
     (let h = takeWhile (\<lambda>c. hex_val c \<noteq> None) s;
          rest = drop (length h) s;
          ip' = ip @ group_bytes (hex_group h) in
      if h = [] \<or> 4 < length h then None
      else (case rest of
          [] \<Rightarrow> Some ([], ip', ell)
        | c # r \<Rightarrow>
            if c = CHR ''.'' then
              (if (ell = None \<and> length ip \<noteq> 12) \<or> 16 < length ip + 4 then None
               else (case parse_v4 s of None \<Rightarrow> None | Some q \<Rightarrow> Some ([], ip @ q, ell)))
            else if c \<noteq> CHR '':'' \<or> r = [] then None
            else if hd r = CHR '':'' then
              (if ell \<noteq> None then None
               else if tl r = [] then Some ([], ip', Some (length ip'))
               else v6_loop k (tl r) ip' (Some (length ip')))
            else v6_loop k r ip' ell))"

definition parse_v6 :: "string \<Rightarrow> net_ip" where
  "parse_v6 s =
     (let lead = has_prefix s ''::'';
          s' = (if lead then drop 2 s else s);
          ell0 = (if lead then Some 0 else None) in
      if CHR ''%'' \<in> set s then []
      else if lead \<and> s' = [] then replicate 16 0
      else (case v6_loop 8 s' [] ell0 of
          None \<Rightarrow> []
        | Some (rest, ip, ell) \<Rightarrow>
            if rest \<noteq> [] then []
            else if length ip < 16 then
              (case ell of None \<Rightarrow> []
               | Some e \<Rightarrow> take e ip @ replicate (16 - length ip) 0 @ drop e ip)
            else if ell \<noteq> None then [] else ip))"

definition parse_ip :: "string \<Rightarrow> net_ip" where
  "parse_ip s =
     (case find (\<lambda>c. c = CHR ''.'' \<or> c = CHR '':'' \<or> c = CHR ''%'') s of
        Some c \<Rightarrow>
          (if c = CHR ''.'' then (case parse_v4 s of None \<Rightarrow> [] | Some q \<Rightarrow> v4in6_prefix @ q)
           else if c = CHR '':'' then parse_v6 s
           else [])
      | None \<Rightarrow> [])"

lemma parse_v4_length: "parse_v4 s = Some q \<Longrightarrow> length q = 4"
  by (auto simp: parse_v4_def split: list.splits option.splits)

lemma v6_loop_length:
  "v6_loop k s ip ell = Some (r, ip', ell') \<Longrightarrow> length ip + 2 * k \<le> 16 \<Longrightarrow> length ip' \<le> 16"
proof (induction k arbitrary: s ip ell)
  case 0
  then show ?case by simp
next
  case (Suc k)
  define h where "h = takeWhile (\<lambda>c. hex_val c \<noteq> None) s"
  define rest where "rest = drop (length h) s"
  define ip1 where "ip1 = ip @ group_bytes (hex_group h)"
  have len1: "length ip1 = length ip + 2"
    by (simp add: ip1_def group_bytes_def)
  note step = Suc.prems(1) [unfolded v6_loop.simps Let_def, folded h_def, folded rest_def ip1_def]
  show ?case
  proof (cases rest)
    case Nil
    with step len1 Suc.prems(2) show ?thesis by (simp split: if_splits)
  next
    case (Cons c rs)
    have rec: "length ip' \<le> 16" if "v6_loop k s' ip1 e = Some (r, ip', ell')" for s' e
      using Suc.IH [OF that] len1 Suc.prems(2) by simp
    have len16: "length ip1 \<le> 16" using len1 Suc.prems(2) by simp
    from step Cons len16 show ?thesis
      by (auto dest: rec parse_v4_length split: if_splits option.splits)
  qed
qed

lemma parse_v6_length: "length (parse_v6 s) = 0 \<or> length (parse_v6 s) = 16"
proof -
  define lead where "lead = has_prefix s ''::''"
  define s' where "s' = (if lead then drop 2 s else s)"
  define ell0 where "ell0 = (if lead then Some (0::nat) else None)"
  note def = parse_v6_def [of s, unfolded Let_def, folded lead_def, folded s'_def ell0_def]
  show ?thesis
  proof (cases "v6_loop 8 s' [] ell0")
    case None
    then show ?thesis by (simp add: def)
  next
    case (Some p)
    obtain rest ip ell where p: "p = (rest, ip, ell)" by (cases p)
    have "length ip \<le> 16"
      using v6_loop_length [OF Some [unfolded p]] by simp
    with Some p show ?thesis by (cases ell) (auto simp: def)
  qed
qed

lemma parse_ip_length: "length (parse_ip s) = 0 \<or> length (parse_ip s) = 16"
  using parse_v6_length [of s]
  by (auto simp: parse_ip_def dest: parse_v4_length split: option.splits)

lemma parse_ip_ok [simp]: "ip_ok (parse_ip s)"
  using parse_ip_length [of s] by (auto simp: ip_ok_def)

subsection \<open>net.IP.String\<close>

definition hex_digit :: "nat \<Rightarrow> char" where
  "hex_digit n = (if n < 10 then char_of (n + 48) else char_of (n + 87))"

fun show_hex :: "nat \<Rightarrow> string" where
  "show_hex n = (if n < 16 then [hex_digit n] else show_hex (n div 16) @ [hex_digit (n mod 16)])"

declare show_hex.simps [simp del]

definition v4_string :: "net_ip \<Rightarrow> string" where
  "v4_string ip = join_with (CHR ''.'') (map (\<lambda>b. show_nat (unat b)) ip)"

fun ip_groups :: "net_ip \<Rightarrow> nat list" where
  "ip_groups (a # b # r) = (256 * unat a + unat b) # ip_groups r"
| "ip_groups _ = []"

text \<open>The first longest run of at least two zero groups: start and length.\<close>

fun zero_run :: "nat list \<Rightarrow> nat \<Rightarrow> nat \<times> nat \<Rightarrow> nat \<times> nat" where
  "zero_run [] i best = best"
| "zero_run (g # gs) i (s, l) =
     (let n = length (takeWhile (\<lambda>x. x = 0) (g # gs)) in
      zero_run gs (Suc i) (if 2 \<le> n \<and> l < n then (i, n) else (s, l)))"

definition v6_string :: "net_ip \<Rightarrow> string" where
  "v6_string ip =
     (let gs = ip_groups ip; (z, l) = zero_run gs 0 (0, 0) in
      if l = 0 then join_with (CHR '':'') (map show_hex gs)
      else join_with (CHR '':'') (map show_hex (take z gs)) @ ''::''
         @ join_with (CHR '':'') (map show_hex (drop (z + l) gs)))"

definition hex_bytes :: "net_ip \<Rightarrow> string" where
  "hex_bytes ip = concat (map (\<lambda>b. [hex_digit (unat b div 16), hex_digit (unat b mod 16)]) ip)"

definition ip_string :: "net_ip \<Rightarrow> string" where
  "ip_string ip =
     (if ip = [] then ''<nil>''
      else if length ip \<noteq> 4 \<and> length ip \<noteq> 16 then ''?'' @ hex_bytes ip
      else if to4 ip \<noteq> [] then v4_string (to4 ip)
      else v6_string ip)"

text \<open>Printing and parsing an IPv4 address.\<close>

lemma parse_octet_show: "parse_octet (show_nat (unat (b :: byte))) = Some b"
proof -
  have lt: "unat b < 256" using unsigned_less [of b, where ?'a = nat] by simp
  have "length (show_nat n) = 1 \<or> hd (show_nat n) \<noteq> CHR ''0''" for n
  proof (induction n rule: show_nat.induct)
    case (1 n)
    have "digit_char m \<noteq> CHR ''0''" if "0 < m" "m < 10" for m
      using that digit_char_facts(2) [of m] by (auto simp: digit_val_def)
    with 1 show ?case
      by (cases "n < 10"; cases "n div 10 < 10") (auto simp: show_nat.simps [of n]
          show_nat.simps [of "n div 10"])
  qed
  with lt show ?thesis
    by (simp add: parse_octet_def show_nat_digits)
qed

lemma parse_v4_string: "length ip = 4 \<Longrightarrow> parse_v4 (v4_string ip) = Some ip"
proof -
  assume "length ip = 4"
  then obtain a b c d where ip: "ip = [a, b, c, d]"
    by (auto simp: numeral_eq_Suc length_Suc_conv)
  have "split_at_char (CHR ''.'') (v4_string ip) = map (\<lambda>b. show_nat (unat b)) ip"
    unfolding v4_string_def by (rule split_join) (auto simp: ip show_nat_notin)
  then show ?thesis
    by (simp add: parse_v4_def ip parse_octet_show)
qed

lemma parse_ip_v4_string:
  assumes "length ip = 4"
  shows "parse_ip (v4_string ip) = v4in6_prefix @ ip"
proof -
  obtain a b c d where ip: "ip = [a, b, c, d]"
    using assms by (auto simp: numeral_eq_Suc length_Suc_conv)
  let ?P = "\<lambda>c. c = CHR ''.'' \<or> c = CHR '':'' \<or> c = CHR ''%''"
  have dig: "\<not> ?P x" if "x \<in> set (show_nat n)" for x n
    using that show_nat_digits [of n] by (auto simp: list_all_iff is_digit_def)
  have *: "find ?P (xs @ y # ys) = Some y" if "\<forall>x \<in> set xs. \<not> ?P x" "?P y" for xs y ys
    using that by (induction xs) auto
  have "find ?P (v4_string ip) = Some (CHR ''.'')"
    unfolding v4_string_def ip by (simp, rule *) (use dig in blast, simp)
  with assms show ?thesis
    by (simp add: parse_ip_def parse_v4_string)
qed

lemma parse_ip_string_v4:
  assumes "to4 ip \<noteq> []"
  shows "parse_ip (ip_string ip) = v4in6_prefix @ to4 ip"
proof -
  have "ip \<noteq> []" "length ip = 4 \<or> length ip = 16"
    using assms by (auto simp: to4_def split: if_splits)
  then show ?thesis
    using assms to4_nonempty_length [OF assms] by (auto simp: ip_string_def parse_ip_v4_string)
qed

end
