(* ===== verification/Sharednet.thy ===== *)
theory Sharednet
  imports GoPrelude "HOL-Library.Char_ord" "HOL-Library.List_Lexorder"
begin

section \<open>Package sharednet: the network backend addresses are read from\<close>

text \<open>
  \<open>src/internal/sharednet/sharednet.go\<close>. \<open>Pick\<close> is the code's function with the picker threaded
  through; the loop over the candidates is \<open>pick_loop\<close>, its three local variables the arguments.
  A string list is sorted bytewise, as Go compares strings.

  Shown: the heuristic returns the best candidate (co-attachment count, then the transit
  preference, then the alphabet); a choice made once a backend has been seen is never changed;
  every choice is a network the anchor is attached to.
\<close>

subsection \<open>The code\<close>

record picker =
  candidates :: "string list"
  pinned :: string
  chosen :: string
  settled :: bool

type_synonym net_counts = "string \<rightharpoonup> int"

text \<open>Indexing a Go map of integers: a missing key reads as zero.\<close>

definition int_index :: "('k \<rightharpoonup> int) \<Rightarrow> 'k \<Rightarrow> int" where
  "int_index m k = (case m k of None \<Rightarrow> 0 | Some n \<Rightarrow> n)"

datatype picker_error = PinnedNotOnSelf string "string list"

definition sharednet_New :: "string list \<Rightarrow> string \<Rightarrow> string \<Rightarrow> picker_error + picker" where
  "sharednet_New selfNetworks extNetwork pin =
     (let cands = sort (filter (\<lambda>n. n \<noteq> extNetwork) selfNetworks) in
      if pin \<noteq> [] \<and> pin \<notin> set selfNetworks then Inl (PinnedNotOnSelf pin selfNetworks)
      else Inr \<lparr>candidates = cands, pinned = pin, chosen = [], settled = False\<rparr>)"

definition containsFold :: "string \<Rightarrow> string \<Rightarrow> bool" where
  "containsFold s substr = contains_str (to_lower s) (to_lower substr)"

definition has_transit :: "string \<Rightarrow> bool" where
  "has_transit c = containsFold c ''transit''"

fun pick_loop :: "net_counts \<Rightarrow> string list \<Rightarrow> int \<Rightarrow> string \<Rightarrow> bool \<Rightarrow> int \<times> string" where
  "pick_loop counts [] bestCount best bestHasTransit = (bestCount, best)"
| "pick_loop counts (c # cs) bestCount best bestHasTransit =
     (let count = int_index counts c; hasTransit = containsFold c ''transit'' in
      if count > bestCount then pick_loop counts cs count c hasTransit
      else if count = bestCount \<and> hasTransit \<and> \<not> bestHasTransit then pick_loop counts cs bestCount c True
      else pick_loop counts cs bestCount best bestHasTransit)"

definition Pick :: "net_counts \<Rightarrow> picker \<Rightarrow> string \<times> picker" where
  "Pick backendNetworks p =
     (if pinned p \<noteq> [] then (pinned p, p\<lparr>chosen := pinned p, settled := True\<rparr>)
      else if candidates p = [] then ([], p)
      else if settled p then (chosen p, p)
      else let (bestCount, best) = pick_loop backendNetworks (candidates p) (-1) [] False in
      if bestCount > 0 then (best, p\<lparr>chosen := best, settled := True\<rparr>)
      else (case find (\<lambda>c. containsFold c ''transit'') (candidates p) of
              Some c \<Rightarrow> (c, p\<lparr>chosen := c\<rparr>)
            | None \<Rightarrow> (candidates p ! 0, p\<lparr>chosen := candidates p ! 0\<rparr>)))"

definition count_net :: "string \<Rightarrow> net_counts \<Rightarrow> net_counts" where
  "count_net n out = out(n \<mapsto> int_index out n + 1)"

definition CountBackendsPerNetwork :: "string list list \<Rightarrow> net_counts" where
  "CountBackendsPerNetwork backendNetworks =
     foldl (\<lambda>out nets. foldl (\<lambda>out n. count_net n out) out nets) Map.empty backendNetworks"

subsection \<open>The interface of a network resolver\<close>

text \<open>
  What the discovery relies on (\<open>discovery.SharedNetworkResolver\<close>): \<open>Chosen\<close> reports the last
  \<open>Pick\<close>, and a settled resolver answers every later \<open>Pick\<close> with its choice.
\<close>

locale network_resolver =
  fixes pick :: "net_counts \<Rightarrow> 'p \<Rightarrow> string \<times> 'p"
    and chosen_net :: "'p \<Rightarrow> string"
    and is_settled :: "'p \<Rightarrow> bool"
    and resolver_inv :: "'p \<Rightarrow> bool"
  assumes pick_inv: "resolver_inv p \<Longrightarrow> resolver_inv (snd (pick m p))"
    and pick_chosen: "resolver_inv p \<Longrightarrow> chosen_net (snd (pick m p)) = fst (pick m p)"
    and pick_settled: "resolver_inv p \<Longrightarrow> is_settled p
      \<Longrightarrow> fst (pick m p) = chosen_net p \<and> is_settled (snd (pick m p))"
begin

definition after :: "net_counts list \<Rightarrow> 'p \<Rightarrow> 'p" where
  "after ms p = foldl (\<lambda>p m. snd (pick m p)) p ms"

lemma after_simps [simp]:
  "after [] p = p" "after (m # ms) p = after ms (snd (pick m p))"
  by (simp_all add: after_def)

lemma after_append [simp]: "after (ms @ ns) p = after ns (after ms p)"
  by (simp add: after_def)

lemma after_inv: "resolver_inv p \<Longrightarrow> resolver_inv (after ms p)"
  by (induction ms arbitrary: p) (simp_all add: pick_inv)

lemma after_settled:
  "resolver_inv p \<Longrightarrow> is_settled p \<Longrightarrow> is_settled (after ms p) \<and> chosen_net (after ms p) = chosen_net p"
  by (induction ms arbitrary: p) (simp_all add: pick_inv pick_chosen pick_settled)

lemma settled_forever:
  assumes "resolver_inv p" "is_settled p"
  shows "fst (pick m (after ms p)) = chosen_net p"
  using pick_settled [OF after_inv [OF assms(1)]] after_settled [OF assms] by simp

end

definition picker_inv :: "picker \<Rightarrow> bool" where
  "picker_inv p \<longleftrightarrow> sorted (candidates p)
     \<and> (pinned p \<noteq> [] \<longrightarrow> settled p \<longrightarrow> chosen p = pinned p)
     \<and> (pinned p = [] \<longrightarrow> candidates p = [] \<longrightarrow> chosen p = [])
     \<and> (pinned p = [] \<longrightarrow> settled p \<longrightarrow> chosen p \<in> set (candidates p))"

lemma pick_loop_mem: "pick_loop m cs n b t = (n', r) \<Longrightarrow> r \<in> set cs \<or> n' = n \<and> r = b"
  by (induction m cs n b t rule: pick_loop.induct) (auto simp: Let_def split: if_splits)

lemma Pick_mem:
  assumes "picker_inv p" "pinned p = []" "candidates p \<noteq> []"
  shows "fst (Pick m p) \<in> set (candidates p)"
  using assms pick_loop_mem [of m "candidates p" "-1" "[]" False]
  by (fastforce simp: Pick_def picker_inv_def find_Some_iff split: prod.splits option.splits)

interpretation picker: network_resolver Pick chosen settled picker_inv
proof
  fix p :: picker and m
  assume "picker_inv p"
  then show "picker_inv (snd (Pick m p))" "chosen (snd (Pick m p)) = fst (Pick m p)"
    using Pick_mem [of p m]
    by (auto simp: Pick_def picker_inv_def split: prod.splits option.splits)
next
  fix p :: picker and m
  assume "picker_inv p" "settled p"
  then show "fst (Pick m p) = chosen p \<and> settled (snd (Pick m p))"
    by (auto simp: Pick_def picker_inv_def)
qed

lemma New_inv: "sharednet_New self ext pin = Inr p \<Longrightarrow> picker_inv p"
  by (auto simp: sharednet_New_def Let_def picker_inv_def split: if_splits)

lemma Pick_fields [simp]:
  "candidates (snd (Pick m p)) = candidates p" "pinned (snd (Pick m p)) = pinned p"
  by (auto simp: Pick_def split: prod.splits option.splits)

lemma after_fields [simp]:
  "candidates (picker.after ms p) = candidates p" "pinned (picker.after ms p) = pinned p"
  by (induction ms arbitrary: p) simp_all

subsection \<open>The heuristic\<close>

text \<open>\<open>a\<close> is preferred to \<open>b\<close>: a higher count, then transit, then the alphabet.\<close>

definition prefers :: "net_counts \<Rightarrow> string \<Rightarrow> string \<Rightarrow> bool" where
  "prefers counts a b \<longleftrightarrow>
     int_index counts a > int_index counts b
     \<or> int_index counts a = int_index counts b
       \<and> (has_transit a \<and> \<not> has_transit b \<or> has_transit a = has_transit b \<and> a \<le> b)"

lemma prefers_trans: "prefers m a b \<Longrightarrow> prefers m b c \<Longrightarrow> prefers m a c"
  by (auto simp: prefers_def)

lemma prefers_refl [simp]: "prefers m a a"
  by (simp add: prefers_def)

lemma pick_loop_best:
  assumes "sorted (b # cs)" "int_index m b = n" "has_transit b = t"
    and "pick_loop m cs n b t = (n', r)"
  shows "r \<in> set (b # cs) \<and> n' = int_index m r \<and> (\<forall>c \<in> set (b # cs). prefers m r c)"
  using assms
proof (induction cs arbitrary: n b t)
  case Nil
  then show ?case by simp
next
  case (Cons c cs)
  have le: "b \<le> c" and sc: "sorted (c # cs)" and sb: "sorted (b # cs)"
    using Cons.prems(1) by simp_all
  consider (better) "int_index m c > n" | (transit) "int_index m c = n" "has_transit c" "\<not> t"
    | (keep) "\<not> int_index m c > n" "\<not> (int_index m c = n \<and> has_transit c \<and> \<not> t)" by blast
  then show ?case
  proof cases
    case better
    then have "pick_loop m cs (int_index m c) c (has_transit c) = (n', r)"
      using Cons.prems(4) by (simp add: Let_def has_transit_def)
    from Cons.IH [OF sc refl refl this] better show ?thesis
      using Cons.prems(2) by (auto simp: prefers_def)
  next
    case transit
    then have "pick_loop m cs n c True = (n', r)"
      using Cons.prems(4) by (simp add: Let_def has_transit_def)
    with Cons.IH [OF sc _ _ this] transit have "r \<in> set (c # cs) \<and> n' = int_index m r
        \<and> (\<forall>x \<in> set (c # cs). prefers m r x)" by simp
    moreover have "prefers m c b"
      using transit Cons.prems(2,3) by (auto simp: prefers_def)
    ultimately show ?thesis using prefers_trans [of m r c b] by auto
  next
    case keep
    then have "pick_loop m cs n b t = (n', r)"
      using Cons.prems(4) by (auto simp: Let_def has_transit_def split: if_splits)
    with Cons.IH [OF sb Cons.prems(2,3)] have "r \<in> set (b # cs) \<and> n' = int_index m r
        \<and> (\<forall>x \<in> set (b # cs). prefers m r x)" by simp
    moreover have "prefers m b c"
      using keep le Cons.prems(2,3) by (auto simp: prefers_def)
    ultimately show ?thesis using prefers_trans [of m r b c] by auto
  qed
qed

lemma pick_loop_heuristic:
  assumes "sorted cs" "cs \<noteq> []" "\<And>c. 0 \<le> int_index m c" "pick_loop m cs (-1) [] False = (n, r)"
  shows "r \<in> set cs \<and> n = int_index m r \<and> (\<forall>c \<in> set cs. prefers m r c)"
proof -
  obtain b bs where cs: "cs = b # bs" using assms(2) by (cases cs) auto
  have "int_index m b > -1" using assms(3) [of b] by simp
  then have "pick_loop m bs (int_index m b) b (has_transit b) = (n, r)"
    using assms(4) by (simp add: cs Let_def has_transit_def)
  from pick_loop_best [OF _ refl refl this] assms(1) show ?thesis unfolding cs by blast
qed

text \<open>The unsettled, unpinned \<open>Pick\<close>: the loop, then the fallback for lists without a backend.\<close>

lemma Pick_heuristic:
  assumes "picker_inv p" "pinned p = []" "\<not> settled p" "candidates p \<noteq> []"
    and "\<And>c. 0 \<le> int_index m c"
  shows "fst (Pick m p) \<in> set (candidates p)
    \<and> (\<forall>c \<in> set (candidates p). prefers m (fst (Pick m p)) c)
    \<and> settled (snd (Pick m p)) = (0 < int_index m (fst (Pick m p)))"
proof -
  obtain n r where loop: "pick_loop m (candidates p) (-1) [] False = (n, r)" (is "?e = _")
    by (cases ?e)
  have sorted: "sorted (candidates p)" using assms(1) by (simp add: picker_inv_def)
  have best: "r \<in> set (candidates p)" "n = int_index m r" "\<forall>c \<in> set (candidates p). prefers m r c"
    using pick_loop_heuristic [OF sorted assms(4,5) loop] by auto
  show ?thesis
  proof (cases "n > 0")
    case True
    then show ?thesis using assms best by (simp add: Pick_def loop)
  next
    case False
    have zero: "int_index m c = 0" if "c \<in> set (candidates p)" for c
      using best False that assms(5) [of c] by (fastforce simp: prefers_def)
    show ?thesis
    proof (cases "find (\<lambda>c. containsFold c ''transit'') (candidates p)")
      case None
      then have none: "\<not> has_transit c" if "c \<in> set (candidates p)" for c
        using that by (auto simp: find_None_iff has_transit_def)
      have first: "candidates p ! 0 \<in> set (candidates p)" using assms(4) by simp
      have "candidates p ! 0 \<le> c" if "c \<in> set (candidates p)" for c
        using that sorted by (metis sorted_nth_mono in_set_conv_nth le0)
      then show ?thesis
        using assms False None first zero none by (auto simp: Pick_def loop prefers_def)
    next
      case (Some c)
      then obtain i where i: "i < length (candidates p)" "c = candidates p ! i" "has_transit c"
        "\<And>j. j < i \<Longrightarrow> \<not> has_transit (candidates p ! j)"
        unfolding find_Some_iff has_transit_def by blast
      have "c \<le> d" if "d \<in> set (candidates p)" "has_transit d" for d
        using that i sorted by (metis in_set_conv_nth not_le_imp_less sorted_nth_mono)
      then show ?thesis
        using assms False Some i zero by (auto simp: Pick_def loop prefers_def)
    qed
  qed
qed

text \<open>
  The network that a picker has to answer: the pinned one, else the one it has settled on, else the best candidate.
  There is one such network, and \<open>Pick\<close> answers it.
\<close>

definition right_network :: "picker \<Rightarrow> net_counts \<Rightarrow> string \<Rightarrow> bool" where
  "right_network p counts net \<longleftrightarrow>
     (if pinned p \<noteq> [] then net = pinned p
      else if settled p then net = chosen p
      else net \<in> set (candidates p) \<and> (\<forall>c \<in> set (candidates p). prefers counts net c))"

lemma prefers_antisym: "prefers m a b \<Longrightarrow> prefers m b a \<Longrightarrow> a = b"
  by (auto simp: prefers_def)

lemma right_network_Pick:
  assumes "picker_inv p" "pinned p \<noteq> [] \<or> candidates p \<noteq> []" "\<And>c. 0 \<le> int_index m c"
  shows "right_network p m net \<longleftrightarrow> net = fst (Pick m p)"
proof (cases "pinned p = [] \<and> \<not> settled p")
  case True
  with Pick_heuristic [OF assms(1) _ _ _ assms(3)] assms(2)
  have "fst (Pick m p) \<in> set (candidates p)" "\<forall>c \<in> set (candidates p). prefers m (fst (Pick m p)) c"
    by simp_all
  with True show ?thesis by (auto simp: right_network_def intro: prefers_antisym)
next
  case False
  then show ?thesis using assms(2) by (auto simp: right_network_def Pick_def)
qed

subsection \<open>Properties of the component\<close>

text \<open>C20. While no choice is settled and nothing is pinned, \<open>Pick\<close> returns a candidate that every
  other candidate is at most as good as: none has more backends attached, none with as many has
  \<open>transit\<close> in its name where the chosen one has not, and among equals it is the first in the
  alphabet. It settles exactly when a backend is attached to the chosen network.\<close>

theorem Pick_best:
  assumes "picker_inv p" "pinned p = []" "\<not> settled p" "candidates p \<noteq> []"
    and "\<And>c. 0 \<le> int_index m c"
  shows "fst (Pick m p) \<in> set (candidates p)
    \<and> (\<forall>c \<in> set (candidates p). prefers m (fst (Pick m p)) c)
    \<and> settled (snd (Pick m p)) = (0 < int_index m (fst (Pick m p)))"
  by (rule Pick_heuristic [OF assms])

definition demo_picker :: picker where
  "demo_picker = \<lparr>candidates = [''app'', ''app_transit'', ''db''], pinned = [], chosen = [], settled = False\<rparr>"

lemma demo_picker_inv: "picker_inv demo_picker"
  by (simp add: demo_picker_def picker_inv_def)

lemma Pick_best_witness:
  "fst (Pick [''app'' \<mapsto> 2, ''app_transit'' \<mapsto> 2, ''db'' \<mapsto> 1] demo_picker) = ''app_transit''
   \<and> prefers [''app'' \<mapsto> 2, ''app_transit'' \<mapsto> 2, ''db'' \<mapsto> 1] ''app_transit'' ''app''"
proof -
  let ?m = "[''app'' \<mapsto> 2, ''app_transit'' \<mapsto> 2, ''db'' \<mapsto> 1] :: net_counts"
  have r: "fst (Pick ?m demo_picker) = ''app_transit''"
    by (simp add: Pick_def demo_picker_def int_index_def containsFold_def to_lower_def lower_char_def has_prefix_def)
  have "0 \<le> int_index ?m c" for c by (simp add: int_index_def)
  from Pick_best [OF demo_picker_inv _ _ _ this] r show ?thesis by (simp add: demo_picker_def)
qed

text \<open>A settled choice is final: once \<open>Pick\<close> has seen a backend on the network it chose, every
  later call, with any counts and after any number of other calls, returns the same network.\<close>

theorem Pick_settled_forever:
  assumes "picker_inv p" "\<And>c. 0 \<le> int_index m c" "0 < int_index m (fst (Pick m p))"
    and "pinned p = []"
  shows "fst (Pick m' (picker.after ms (snd (Pick m p)))) = fst (Pick m p)"
proof (cases "candidates p = []")
  case True
  then show ?thesis using assms(4) by (simp add: Pick_def)
next
  case False
  have inv: "picker_inv (snd (Pick m p))" by (rule picker.pick_inv [OF assms(1)])
  have "settled (snd (Pick m p))"
  proof (cases "settled p")
    case True
    then show ?thesis using picker.pick_settled [OF assms(1)] by blast
  next
    case unsettled: False
    obtain n r where loop: "pick_loop m (candidates p) (-1) [] False = (n, r)" (is "?e = _")
      by (cases ?e)
    have best: "n = int_index m r" "\<forall>c \<in> set (candidates p). prefers m r c"
      using pick_loop_heuristic [OF _ False assms(2) loop] assms(1) by (auto simp: picker_inv_def)
    show ?thesis
    proof (rule ccontr)
      assume unset: "\<not> settled (snd (Pick m p))"
      then have n: "\<not> n > 0"
        using assms(4) False unsettled by (auto simp: Pick_def loop)
      have "fst (Pick m p) \<in> set (candidates p)"
        using assms(4) False unsettled n
        by (auto simp: Pick_def loop find_Some_iff split: option.splits)
      then show False using best n assms(3) by (auto simp: prefers_def)
    qed
  qed
  from picker.settled_forever [OF inv this] show ?thesis
    using picker.pick_chosen [OF assms(1)] by simp
qed

lemma Pick_settled_forever_witness:
  "fst (Pick [''db'' \<mapsto> 9] (snd (Pick [''app'' \<mapsto> 1] demo_picker))) = ''app''"
proof -
  let ?m = "[''app'' \<mapsto> 1] :: net_counts"
  have r: "fst (Pick ?m demo_picker) = ''app''"
    by (simp add: Pick_def demo_picker_def int_index_def containsFold_def to_lower_def lower_char_def has_prefix_def)
  have "0 \<le> int_index ?m c" for c by (simp add: int_index_def)
  from Pick_settled_forever [OF demo_picker_inv this, of "[''db'' \<mapsto> 9]" "[]"] r show ?thesis
    by (simp add: demo_picker_def int_index_def)
qed

text \<open>A picker made for a container never leaves the container's networks: with a pinned name
  every answer is that name, which is one of the container's networks; without, every answer is
  one of the container's networks and not the external one, as long as there is such a network.\<close>

theorem Pick_on_self:
  assumes "sharednet_New self ext pin = Inr p"
  shows "if pin \<noteq> [] then fst (Pick m (picker.after ms p)) = pin \<and> pin \<in> set self
    else if \<exists>n \<in> set self. n \<noteq> ext
      then fst (Pick m (picker.after ms p)) \<in> set self \<and> fst (Pick m (picker.after ms p)) \<noteq> ext
    else fst (Pick m (picker.after ms p)) = []"
proof -
  let ?q = "picker.after ms p"
  have inv: "picker_inv ?q" by (rule picker.after_inv [OF New_inv [OF assms]])
  have p: "pinned p = pin" "set (candidates p) = {n \<in> set self. n \<noteq> ext}" "pin = [] \<or> pin \<in> set self"
    using assms by (auto simp: sharednet_New_def Let_def split: if_splits)
  show ?thesis
  proof (cases "pin = [] \<and> candidates p \<noteq> []")
    case True
    then have "fst (Pick m ?q) \<in> set (candidates p)"
      using Pick_mem [OF inv] p(1) by simp
    then show ?thesis using True p(2) by auto
  next
    case False
    show ?thesis
    proof (cases "pin = []")
      case True
      with False have none: "candidates p = []" by simp
      then have "fst (Pick m ?q) = []" using True p(1) by (simp add: Pick_def)
      moreover have "\<not> (\<exists>n \<in> set self. n \<noteq> ext)" using p(2) none by auto
      ultimately show ?thesis using True by simp
    next
      case False
      then have "fst (Pick m ?q) = pin" using p(1) by (simp add: Pick_def)
      then show ?thesis using False p(3) by simp
    qed
  qed
qed

lemma Pick_on_self_witness:
  "fst (Pick Map.empty (picker.after [[''b'' \<mapsto> 1]] \<lparr>candidates = [''a'', ''b''], pinned = [], chosen = [], settled = False\<rparr>))
     \<in> {''b'', ''lan'', ''a''}"
proof -
  have "sharednet_New [''b'', ''lan'', ''a''] ''lan'' []
      = Inr \<lparr>candidates = [''a'', ''b''], pinned = [], chosen = [], settled = False\<rparr>"
    by (simp add: sharednet_New_def Let_def)
  from Pick_on_self [OF this, of Map.empty "[[''b'' \<mapsto> 1]]"] show ?thesis
    by (auto split: if_splits)
qed

end
