(* ===== verification/Discovery.thy ===== *)
theory Discovery
  imports Labels GoNet Sharednet
begin

section \<open>Package discovery: snapshots of the backends\<close>

text \<open>
  \<open>src/internal/discovery/discovery.go\<close>. The Docker daemon is a parameter: the result of the
  container list for a filter, and the inspect of a reference. A snapshot is a function of these
  and of the network resolver; the event stream is the sequence of what its \<open>select\<close> receives.

  Shown: a snapshot reports exactly the listed containers with valid exposure labels and an address
  on the shared network, with the addresses read from that network; the event loop takes one
  snapshot per message and opens a new stream only when the old one has ended.
\<close>

subsection \<open>The data\<close>

record backend =
  bk_ID :: string
  bk_Name :: string
  bk_IPv4 :: net_ip
  bk_IPv6 :: net_ip
  bk_Spec :: spec

type_synonym disc_state = "(string, backend) gomap"

record endpoint =
  IPAddress :: string
  GlobalIPv6Address :: string

type_synonym net_settings = "(string, endpoint option) gomap"

text \<open>\<open>container.Summary\<close>: the fields the package reads. A nil pointer is \<open>None\<close>.\<close>

record summary =
  sm_ID :: string
  sm_Names :: "string list"
  sm_Labels :: "string \<rightharpoonup> string"
  sm_NetworkSettings :: "net_settings option"
  sm_NetworkMode :: string

type_synonym filter_args = "(string \<times> string) list"

subsection \<open>Comparing states\<close>

text \<open>
  \<open>sort.Slice\<close> is a parameter: any function that returns a permutation without inversions.
\<close>

type_synonym 'a sort_slice = "('a \<Rightarrow> 'a \<Rightarrow> bool) \<Rightarrow> 'a list \<Rightarrow> 'a list"

definition ruleLess :: "rule \<Rightarrow> rule \<Rightarrow> bool" where
  "ruleLess a b = (if Proto a \<noteq> Proto b then Proto a < Proto b else Port a < Port b)"

definition backendEqual :: "rule sort_slice \<Rightarrow> backend \<Rightarrow> backend \<Rightarrow> bool" where
  "backendEqual srt a b =
     (if \<not> ip_equal (bk_IPv4 a) (bk_IPv4 b) \<or> \<not> ip_equal (bk_IPv6 a) (bk_IPv6 b) then False
      else if SpecV6 (bk_Spec a) \<noteq> SpecV6 (bk_Spec b)
        \<or> length (Rules (bk_Spec a)) \<noteq> length (Rules (bk_Spec b)) then False
      else let ar = srt ruleLess (Rules (bk_Spec a)); br = srt ruleLess (Rules (bk_Spec b)) in
      list_all (\<lambda>i. ar ! i = br ! i) [0..<length ar])"

definition State_Equal :: "rule sort_slice \<Rightarrow> disc_state \<Rightarrow> disc_state \<Rightarrow> bool" where
  "State_Equal srt s o' =
     (if length s \<noteq> length o' then False
      else list_all (\<lambda>(i, a). case map_of o' i of None \<Rightarrow> False | Some b \<Rightarrow> backendEqual srt a b) s)"

subsection \<open>Reading the addresses\<close>

definition parseIP :: "string \<Rightarrow> net_ip" where
  "parseIP s = (if s = [] then [] else parse_ip s)"

definition trimName :: "string list \<Rightarrow> string" where
  "trimName names = (case names of [] \<Rightarrow> [] | n # _ \<Rightarrow> trim_prefix n ''/'')"

text \<open>The loop over the networks when there is no shared network.\<close>

fun first_ips :: "net_settings \<Rightarrow> net_ip \<times> net_ip" where
  "first_ips [] = ([], [])"
| "first_ips ((k, None) # ns) = first_ips ns"
| "first_ips ((k, Some n) # ns) =
     (let v4 = parseIP (IPAddress n) in
      if v4 \<noteq> [] then (v4, parseIP (GlobalIPv6Address n)) else first_ips ns)"

definition pickIPsFromSettings :: "(net_settings \<Rightarrow> net_settings) \<Rightarrow> net_settings option \<Rightarrow> string
    \<Rightarrow> net_ip \<times> net_ip" where
  "pickIPsFromSettings rng ns sharedNetwork =
     (case ns of None \<Rightarrow> ([], [])
      | Some nets \<Rightarrow>
          if sharedNetwork \<noteq> [] then
            (case map_of nets sharedNetwork of
               Some (Some n) \<Rightarrow> (parseIP (IPAddress n), parseIP (GlobalIPv6Address n))
             | _ \<Rightarrow> ([], []))
          else first_ips (rng nets))"

definition pickIPs :: "(net_settings \<Rightarrow> net_settings) \<Rightarrow> summary \<Rightarrow> string \<Rightarrow> net_ip \<times> net_ip" where
  "pickIPs rng c sharedNetwork = pickIPsFromSettings rng (sm_NetworkSettings c) sharedNetwork"

definition resolveSharedNetIPs :: "(net_settings \<Rightarrow> net_settings) \<Rightarrow> summary \<Rightarrow> string
    \<Rightarrow> (string \<Rightarrow> net_settings option) option \<Rightarrow> net_ip \<times> net_ip" where
  "resolveSharedNetIPs rng c sharedNetwork inspectNS =
     (let (v4, v6) = pickIPsFromSettings rng (sm_NetworkSettings c) sharedNetwork in
      if v4 \<noteq> [] \<or> v6 \<noteq> [] then (v4, v6)
      else (case inspectNS of None \<Rightarrow> ([], [])
        | Some inspect \<Rightarrow>
            (case cut_prefix (sm_NetworkMode c) ''container:'' of
               None \<Rightarrow> ([], [])
             | Some ref \<Rightarrow> pickIPsFromSettings rng (inspect (trim_space ref)) sharedNetwork)))"

text \<open>
  \<open>inspect\<close> is the daemon: no answer is an error, an answer may have no network settings.
\<close>

definition inspectNetworkSettings :: "(string \<Rightarrow> net_settings option option) \<Rightarrow> string \<Rightarrow> net_settings option" where
  "inspectNetworkSettings inspect ref =
     (if ref = [] then None
      else (case inspect ref of None \<Rightarrow> None | Some None \<Rightarrow> None | Some (Some nets) \<Rightarrow> Some nets))"

fun count_endpoints :: "net_settings \<Rightarrow> net_counts \<Rightarrow> net_counts" where
  "count_endpoints [] out = out"
| "count_endpoints ((name, n) # ns) out =
     (if n = None then count_endpoints ns out else count_endpoints ns (count_net name out))"

definition countBackendsPerNetwork :: "summary list \<Rightarrow> net_counts" where
  "countBackendsPerNetwork list =
     foldl (\<lambda>out c. case sm_NetworkSettings c of None \<Rightarrow> out | Some ns \<Rightarrow> count_endpoints ns out)
       Map.empty list"

subsection \<open>Snapshots\<close>

definition buildSnapshotFilter :: "string list \<Rightarrow> filter_args" where
  "buildSnapshotFilter discriminator =
     map (\<lambda>predicate. (''label'', predicate)) discriminator @ [(''label'', LabelExpose)]"

definition buildEventFilter :: "string list \<Rightarrow> filter_args" where
  "buildEventFilter discriminator =
     (''type'', ''container'') # map (\<lambda>predicate. (''label'', predicate)) discriminator"

text \<open>One container of the list: the backend it contributes, if any.\<close>

definition snapshot_entry :: "(net_settings \<Rightarrow> net_settings) \<Rightarrow> string
    \<Rightarrow> (string \<Rightarrow> net_settings option) \<Rightarrow> summary \<Rightarrow> backend option" where
  "snapshot_entry rng shared inspectNS c =
     (case Parse (sm_Labels c) of
        Inl e \<Rightarrow> None
      | Inr None \<Rightarrow> None
      | Inr (Some sp) \<Rightarrow>
          (case resolveSharedNetIPs rng c shared (Some inspectNS) of (ipv4, ipv6) \<Rightarrow>
             if ipv4 = [] \<and> ipv6 = [] then None
             else Some \<lparr>bk_ID = sm_ID c, bk_Name = trimName (sm_Names c), bk_IPv4 = ipv4,
                        bk_IPv6 = ipv6, bk_Spec = sp\<rparr>))"

definition snapshot_backends :: "(net_settings \<Rightarrow> net_settings) \<Rightarrow> string
    \<Rightarrow> (string \<Rightarrow> net_settings option) \<Rightarrow> summary list \<Rightarrow> disc_state" where
  "snapshot_backends rng shared inspectNS list =
     foldl (\<lambda>st c. case snapshot_entry rng shared inspectNS c of None \<Rightarrow> st
                    | Some b \<Rightarrow> gm_put (sm_ID c) b st) [] list"

text \<open>
  The whole snapshot: the error of the list, or the state that is sent; and the resolver afterwards. The
  resolver is an argument, as it is an interface in the code; with none configured (\<open>d.shared == nil\<close>) the shared network is
  the empty name, which is what \<open>no_resolver\<close> answers.
\<close>

definition no_resolver :: "net_counts \<Rightarrow> 'p \<Rightarrow> string \<times> 'p" where
  "no_resolver counts p = ([], p)"

definition snapshot :: "(net_counts \<Rightarrow> 'p \<Rightarrow> string \<times> 'p) \<Rightarrow> (net_settings \<Rightarrow> net_settings)
    \<Rightarrow> (filter_args \<Rightarrow> 'e + summary list) \<Rightarrow> (string \<Rightarrow> net_settings option option)
    \<Rightarrow> string list \<Rightarrow> 'p \<Rightarrow> ('e + disc_state) \<times> 'p" where
  "snapshot pick rng containerList inspect discriminator p =
     (case containerList (buildSnapshotFilter discriminator) of
        Inl e \<Rightarrow> (Inl e, p)
      | Inr list \<Rightarrow>
          (let counts = countBackendsPerNetwork list;
               (shared, p') = pick counts p
           in (Inr (snapshot_backends rng shared (inspectNetworkSettings inspect) list), p')))"

subsection \<open>The event stream\<close>

text \<open>
  What the \<open>select\<close> of \<open>consumeEventStream\<close> receives, in order. An error carries whether the
  context was already cancelled when it was read, and whether it is cancelled during the pause
  before the next attempt; a message carries the ID of its actor, of which the log line takes the
  first 12 bytes.
\<close>

datatype stream_item =
    CtxDone
  | StreamErr bool bool
  | Msg string
  | MsgsClosed

datatype stream_end = Retry | CtxCancelled | StillOpen | SlicePanic

fun consumeEventStream :: "stream_item list \<Rightarrow> stream_end \<times> nat" where
  "consumeEventStream [] = (StillOpen, 0)"
| "consumeEventStream (CtxDone # xs) = (CtxCancelled, 0)"
| "consumeEventStream (StreamErr before during # xs) =
     (if before then (CtxCancelled, 0) else if during then (CtxCancelled, 0) else (Retry, 0))"
| "consumeEventStream (MsgsClosed # xs) = (Retry, 0)"
| "consumeEventStream (Msg actor # xs) =
     (if length actor < 12 then (SlicePanic, 0)
      else let (r, n) = consumeEventStream xs in (r, Suc n))"

text \<open>
  The loop around it, over the streams the daemon hands out: how it ends, how many streams it has
  opened, and how many snapshots it has taken.
\<close>

fun runEventLoop :: "stream_item list list \<Rightarrow> stream_end \<times> nat \<times> nat" where
  "runEventLoop [] = (StillOpen, 0, 0)"
| "runEventLoop (s # ss) =
     (case consumeEventStream s of
        (Retry, n) \<Rightarrow> (case runEventLoop ss of (r, opened, snaps) \<Rightarrow> (r, Suc opened, n + snaps))
      | (r, n) \<Rightarrow> (r, 1, n))"

subsection \<open>Counting\<close>

lemma int_index_count_net [simp]:
  "int_index (count_net n m) k = int_index m k + (if k = n then 1 else 0)"
  by (simp add: count_net_def int_index_def)

lemma int_index_empty [simp]: "int_index Map.empty k = 0"
  by (simp add: int_index_def)

definition attached :: "string \<Rightarrow> net_settings option \<Rightarrow> int" where
  "attached k ns = (case ns of None \<Rightarrow> 0
     | Some nets \<Rightarrow> int (length (filter (\<lambda>(name, n). name = k \<and> n \<noteq> None) nets)))"

lemma count_endpoints_eq:
  "int_index (count_endpoints ns out) k = int_index out k + attached k (Some ns)"
  by (induction ns out rule: count_endpoints.induct) (auto simp: attached_def)

lemma countBackends_eq:
  "int_index (countBackendsPerNetwork cs) k = (\<Sum>c \<leftarrow> cs. attached k (sm_NetworkSettings c))"
proof -
  let ?f = "\<lambda>out c. case sm_NetworkSettings c of None \<Rightarrow> out | Some ns \<Rightarrow> count_endpoints ns out"
  have "int_index (foldl ?f out cs) k = int_index out k + (\<Sum>c \<leftarrow> cs. attached k (sm_NetworkSettings c))" for out
    by (induction cs arbitrary: out)
      (auto simp: count_endpoints_eq attached_def split: option.split)
  then show ?thesis by (simp add: countBackendsPerNetwork_def)
qed

lemma attached_nonneg [simp]: "0 \<le> attached k ns"
  by (simp add: attached_def split: option.split)

lemma countBackends_nonneg: "0 \<le> int_index (countBackendsPerNetwork cs) k"
  unfolding countBackends_eq by (rule sum_list_nonneg) auto

subsection \<open>Snapshots over a resolver\<close>

lemma put_all_lookup:
  assumes "distinct (map f cs)"
  shows "map_of (foldl (\<lambda>st c. case g c of None \<Rightarrow> st | Some b \<Rightarrow> gm_put (f c) b st) m cs) i
    = (case find (\<lambda>c. f c = i) cs of None \<Rightarrow> map_of m i
       | Some c \<Rightarrow> (case g c of None \<Rightarrow> map_of m i | Some b \<Rightarrow> Some b))"
  using assms
proof (induction cs arbitrary: m)
  case Nil
  then show ?case by simp
next
  case (Cons c cs)
  have none: "find (\<lambda>d. f d = f c) cs = None"
    using Cons.prems by (auto simp: find_None_iff) (metis image_eqI)
  show ?case
    using Cons by (cases "g c") (auto simp: none split: option.split)
qed

lemma find_distinct:
  assumes "distinct (map f cs)"
  shows "find (\<lambda>c. f c = i) cs = Some c \<longleftrightarrow> c \<in> set cs \<and> f c = i"
  using assms by (induction cs) (auto simp: image_iff)

lemma snapshot_backends_lookup:
  assumes "distinct (map sm_ID cs)"
  shows "map_of (snapshot_backends rng shared ins cs) i = Some b
    \<longleftrightarrow> (\<exists>c \<in> set cs. sm_ID c = i \<and> snapshot_entry rng shared ins c = Some b)"
proof (cases "find (\<lambda>c. sm_ID c = i) cs")
  case None
  then have "\<forall>c \<in> set cs. sm_ID c \<noteq> i" by (auto simp: find_None_iff)
  then show ?thesis
    unfolding snapshot_backends_def put_all_lookup [OF assms] by (auto simp: None)
next
  case (Some c)
  then have c: "c \<in> set cs" "sm_ID c = i"
    using find_distinct [OF assms, of i c] by simp_all
  have "c = d" if "d \<in> set cs" "sm_ID d = i" for d
    using Some that find_distinct [OF assms, of i d] by simp
  then have "(\<exists>d \<in> set cs. sm_ID d = i \<and> P d) \<longleftrightarrow> P c" for P
    using c by blast
  then show ?thesis
    unfolding snapshot_backends_def put_all_lookup [OF assms] by (simp add: Some split: option.split)
qed

lemma snapshot_backends_ok: "gm_ok (snapshot_backends rng shared ins cs)"
proof -
  have "gm_ok m \<Longrightarrow> gm_ok (foldl (\<lambda>st c. case snapshot_entry rng shared ins c of None \<Rightarrow> st
      | Some b \<Rightarrow> gm_put (sm_ID c) b st) m cs)" for m
    by (induction cs arbitrary: m) (auto split: option.split)
  then show ?thesis by (simp add: snapshot_backends_def)
qed

context network_resolver
begin

lemma snapshot_network:
  assumes "resolver_inv p" "snapshot pick rng containerList inspect disc p = (Inr st, p')"
  obtains cs where "containerList (buildSnapshotFilter disc) = Inr cs"
    and "p' = snd (pick (countBackendsPerNetwork cs) p)" "resolver_inv p'"
    and "st = snapshot_backends rng (chosen_net p') (inspectNetworkSettings inspect) cs"
proof -
  obtain cs where cs: "containerList (buildSnapshotFilter disc) = Inr cs"
    using assms(2) by (auto simp: snapshot_def split: sum.splits)
  then have p': "p' = snd (pick (countBackendsPerNetwork cs) p)"
    and st: "st = snapshot_backends rng (fst (pick (countBackendsPerNetwork cs) p)) (inspectNetworkSettings inspect) cs"
    using assms(2) by (simp_all add: snapshot_def Let_def split: prod.splits)
  show thesis
    by (rule that [OF cs p']) (simp_all add: p' st pick_inv [OF assms(1)] pick_chosen [OF assms(1)])
qed

lemma snapshot_settled:
  assumes "resolver_inv p" "is_settled p" "snapshot pick rng containerList inspect disc p = (r, p')"
  shows "is_settled p' \<and> chosen_net p' = chosen_net p"
proof (cases "containerList (buildSnapshotFilter disc)")
  case (Inl e)
  then show ?thesis using assms by (simp add: snapshot_def)
next
  case (Inr cs)
  then have "p' = snd (pick (countBackendsPerNetwork cs) p)"
    using assms(3) by (simp add: snapshot_def Let_def split: prod.splits)
  then show ?thesis
    using pick_settled [OF assms(1,2)] pick_chosen [OF assms(1)] by simp
qed

end

text \<open>The addresses of a container on a network, as its settings state them.\<close>

definition addrs_on :: "string \<Rightarrow> net_settings option \<Rightarrow> net_ip \<times> net_ip" where
  "addrs_on net ns =
     (case ns of None \<Rightarrow> ([], [])
      | Some nets \<Rightarrow> (case map_of nets net of
          Some (Some n) \<Rightarrow> (parseIP (IPAddress n), parseIP (GlobalIPv6Address n)) | _ \<Rightarrow> ([], [])))"

text \<open>
  The settings that count for a container: its own, or those of the container whose network
  namespace it shares when its own have no address on the network.
\<close>

definition shared_addrs :: "(string \<Rightarrow> net_settings option) \<Rightarrow> string \<Rightarrow> summary \<Rightarrow> net_ip \<times> net_ip" where
  "shared_addrs ins net c =
     (if addrs_on net (sm_NetworkSettings c) \<noteq> ([], []) then addrs_on net (sm_NetworkSettings c)
      else if has_prefix (sm_NetworkMode c) ''container:''
        then addrs_on net (ins (trim_space (trim_prefix (sm_NetworkMode c) ''container:'')))
      else ([], []))"

lemma resolve_addrs:
  "shared \<noteq> [] \<Longrightarrow> resolveSharedNetIPs rng c shared (Some ins) = shared_addrs ins shared c"
  by (auto simp: resolveSharedNetIPs_def pickIPsFromSettings_def shared_addrs_def addrs_on_def
      cut_prefix_def trim_prefix_def has_prefix_def Let_def split: option.splits)

lemma snapshot_entry_iff:
  assumes "shared \<noteq> []"
  shows "snapshot_entry rng shared ins c = Some b \<longleftrightarrow>
    bk_ID b = sm_ID c \<and> bk_Name b = trimName (sm_Names c) \<and> Parse (sm_Labels c) = Inr (Some (bk_Spec b))
    \<and> (bk_IPv4 b, bk_IPv6 b) = shared_addrs ins shared c \<and> shared_addrs ins shared c \<noteq> ([], [])"
  unfolding snapshot_entry_def resolve_addrs [OF assms]
  by (cases b) (auto split: sum.splits option.splits prod.splits)

text \<open>The state a snapshot sends, and the network it has been read from.\<close>

lemma snapshot_state:
  assumes "picker_inv p" "pinned p = []" "candidates p \<noteq> []" "[] \<notin> set (candidates p)"
    and "snapshot Pick rng containerList inspect disc p = (Inr st, p')"
    and "containerList (buildSnapshotFilter disc) = Inr cs"
  shows "st = snapshot_backends rng (chosen p') (inspectNetworkSettings inspect) cs"
    and "chosen p' \<in> set (candidates p)" "chosen p' \<noteq> []"
proof -
  obtain "p' = snd (Pick (countBackendsPerNetwork cs) p)"
    and st: "st = snapshot_backends rng (chosen p') (inspectNetworkSettings inspect) cs"
    using picker.snapshot_network [OF assms(1,5)] assms(6) by (metis sum.inject(2))
  then show "st = snapshot_backends rng (chosen p') (inspectNetworkSettings inspect) cs"
    and mem: "chosen p' \<in> set (candidates p)"
    using picker.pick_chosen [OF assms(1)] Pick_mem [OF assms(1-3)] by simp_all
  with assms(4) show "chosen p' \<noteq> []" by auto
qed

text \<open>C19. A snapshot reports exactly the backends there are: with the network the resolver has
  settled on or fallen back to, which is one of the anchor's candidates, a container of the list
  is in the state if and only if its exposure labels parse to a specification and it, or the
  container whose network namespace it shares, has an address on that network; the reported
  addresses and specification are those.\<close>

theorem snapshot_exact:
  assumes "picker_inv p" "pinned p = []" "candidates p \<noteq> []" "[] \<notin> set (candidates p)"
    and "snapshot Pick rng containerList inspect disc p = (Inr st, p')"
    and "containerList (buildSnapshotFilter disc) = Inr cs" "distinct (map sm_ID cs)"
  shows "chosen p' \<in> set (candidates p) \<and> gm_ok st
    \<and> (map_of st i = Some b \<longleftrightarrow> (\<exists>c \<in> set cs. sm_ID c = i
        \<and> bk_ID b = sm_ID c \<and> bk_Name b = trimName (sm_Names c)
        \<and> Parse (sm_Labels c) = Inr (Some (bk_Spec b))
        \<and> (bk_IPv4 b, bk_IPv6 b) = shared_addrs (inspectNetworkSettings inspect) (chosen p') c
        \<and> shared_addrs (inspectNetworkSettings inspect) (chosen p') c \<noteq> ([], [])))"
proof -
  note st = snapshot_state [OF assms(1-6)]
  show ?thesis
    using st(2) snapshot_backends_lookup [OF assms(7)] snapshot_backends_ok snapshot_entry_iff [OF st(3)]
    unfolding st(1) by blast
qed

definition demo_web :: summary where
  "demo_web = \<lparr>sm_ID = ''web1'', sm_Names = [''/web''], sm_Labels = [LabelExpose \<mapsto> ''tcp/443''],
     sm_NetworkSettings = Some [(''db'', Some \<lparr>IPAddress = ''172.19.0.2'', GlobalIPv6Address = []\<rparr>),
       (''app'', Some \<lparr>IPAddress = ''172.18.0.5'', GlobalIPv6Address = []\<rparr>)],
     sm_NetworkMode = ''app''\<rparr>"

lemma demo_ip: "parse_ip ''172.18.0.5'' \<noteq> []" "parseIP ''172.18.0.5'' = parse_ip ''172.18.0.5''"
  using parse_ip_v4_string [of "[172, 18, 0, 5]"]
  by (simp_all add: parseIP_def v4_string_def show_nat.simps digit_char_def char_of_def bit_Suc_0_iff v4in6_prefix_def)

lemma snapshot_exact_witness:
  "\<exists>st p'. snapshot Pick (\<lambda>ns. ns) (\<lambda>_. Inr [demo_web] :: string + summary list) (\<lambda>_. None) [] demo_picker
       = (Inr st, p')
     \<and> chosen p' = ''app''
     \<and> map_of st ''web1'' = Some \<lparr>bk_ID = ''web1'', bk_Name = ''web'', bk_IPv4 = parse_ip ''172.18.0.5'',
         bk_IPv6 = [], bk_Spec = \<lparr>Rules = [\<lparr>Proto = ''tcp'', Port = 443, BackendPort = 443\<rparr>], SpecV6 = V6Auto\<rparr>\<rparr>"
proof -
  let ?s = "snapshot Pick (\<lambda>ns. ns) (\<lambda>_. Inr [demo_web] :: string + summary list) (\<lambda>_. None) [] demo_picker"
  obtain st p' where s: "?s = (Inr st, p')"
    by (cases ?s) (auto simp: snapshot_def Let_def split: prod.splits)
  have "p' = snd (Pick (countBackendsPerNetwork [demo_web]) demo_picker)"
    using s by (simp add: snapshot_def Let_def split: prod.splits)
  then have chosen: "chosen p' = ''app''"
    by (simp add: Pick_def demo_picker_def countBackends_eq attached_def demo_web_def
        containsFold_def to_lower_def lower_char_def has_prefix_def)
  have parse: "Parse [LabelExpose \<mapsto> ''tcp/443'']
      = Inr (Some \<lparr>Rules = [\<lparr>Proto = ''tcp'', Port = 443, BackendPort = 443\<rparr>], SpecV6 = V6Auto\<rparr>)"
    by (simp add: labels_eval)
  show ?thesis
    using s chosen
      snapshot_exact [OF demo_picker_inv _ _ _ s, where cs = "[demo_web]" and i = "''web1''" and
        b = "\<lparr>bk_ID = ''web1'', bk_Name = ''web'', bk_IPv4 = parse_ip ''172.18.0.5'', bk_IPv6 = [],
          bk_Spec = \<lparr>Rules = [\<lparr>Proto = ''tcp'', Port = 443, BackendPort = 443\<rparr>], SpecV6 = V6Auto\<rparr>\<rparr>"]
    by (simp add: demo_picker_def demo_web_def parse trimName_def trim_prefix_def has_prefix_def
        shared_addrs_def addrs_on_def demo_ip) (simp add: parseIP_def)
qed

subsection \<open>The event loop\<close>

definition is_msg :: "stream_item \<Rightarrow> bool" where
  "is_msg x = (case x of Msg _ \<Rightarrow> True | _ \<Rightarrow> False)"

definition long_ids :: "stream_item list \<Rightarrow> bool" where
  "long_ids s = list_all (\<lambda>x. case x of Msg a \<Rightarrow> 12 \<le> length a | _ \<Rightarrow> True) s"

text \<open>A stream ends for good with a cancelled context, and for a retry with an error or a close.\<close>

definition stream_result :: "stream_item list \<Rightarrow> stream_end" where
  "stream_result s = (case dropWhile is_msg s of [] \<Rightarrow> StillOpen
     | x # _ \<Rightarrow> (case x of StreamErr before during \<Rightarrow> if before \<or> during then CtxCancelled else Retry
                 | MsgsClosed \<Rightarrow> Retry | _ \<Rightarrow> CtxCancelled))"

lemma consume_eq:
  "long_ids s \<Longrightarrow> consumeEventStream s = (stream_result s, length (takeWhile is_msg s))"
  by (induction s rule: consumeEventStream.induct)
    (auto simp: long_ids_def stream_result_def is_msg_def)

text \<open>The event loop opens one stream per disconnect, never one per message, and takes exactly
  one snapshot per message: over streams that all end, but for the last, in an error or a close,
  it opens every one of them once and takes as many snapshots as there are messages before the
  ends; it stops for good only when the context is cancelled.\<close>

theorem runEventLoop_one_stream_per_disconnect:
  assumes "list_all long_ids (ss @ [s])" "list_all (\<lambda>s. stream_result s = Retry) ss"
    and "stream_result s \<noteq> Retry"
  shows "runEventLoop (ss @ s # rest)
    = (stream_result s, length ss + 1, (\<Sum>x \<leftarrow> ss @ [s]. length (takeWhile is_msg x)))"
  using assms
proof (induction ss)
  case Nil
  then show ?case
    by (cases "stream_result s") (auto simp: consume_eq)
next
  case (Cons x ss)
  then show ?case by (simp add: consume_eq)
qed

lemma runEventLoop_one_stream_per_disconnect_witness:
  "runEventLoop [[Msg ''0123456789ab'', Msg ''0123456789ab'', StreamErr False False],
                 [Msg ''0123456789ab'', CtxDone]] = (CtxCancelled, 2, 3)"
  using runEventLoop_one_stream_per_disconnect
    [of "[[Msg ''0123456789ab'', Msg ''0123456789ab'', StreamErr False False]]"
        "[Msg ''0123456789ab'', CtxDone]" "[]"]
  by (simp add: long_ids_def stream_result_def is_msg_def)

end
