(* ===== verification/NftKernel.thy ===== *)
theory NftKernel
  imports GoNet
begin

section \<open>The environment of the NAT manager: nftables\<close>

text \<open>
  The kernel and the netlink library are not part of the repository. This theory states the
  documented behaviour of the few nftables requests and rule expressions the NAT manager uses, as
  an executable model: a batch of requests is a transaction (all of it takes effect, or none, and
  deleting a table that does not exist fails the transaction), a rule is a list of expressions over
  registers that stops at the first one that does not match, a chain is searched in order, a jump
  comes back when the sub-chain has no verdict.

  Whether the kernel accepts a batch for any other reason (a missing module, no memory) is open: it
  is the parameter \<open>accept\<close> of \<open>nft_flush\<close>, and the theorems about the NAT manager hold for every
  one.
\<close>

subsection \<open>Expressions and requests\<close>

datatype nfproto = NFPROTO_IPV4 | NFPROTO_IPV6

type_synonym table_id = "nfproto \<times> string"

datatype meta_key = MetaIIFNAME | MetaOIFNAME | MetaL4PROTO

datatype cmp_op = CmpOpEq | CmpOpNeq

datatype nft_expr =
    Meta meta_key nat
  | Cmp cmp_op nat "byte list"
  | FibDaddrType nat
  | PayloadTransport nat nat nat
  | Lookup nat nat string
  | Immediate nat "byte list"
  | CtStatus nat
  | Bitwise nat nat "byte list" "byte list"
  | DestNAT nfproto nat "nat option"
  | Masq
  | Jump string
  | Accept

type_synonym nft_rule = "nft_expr list"

datatype nft_hook = HookPrerouting | HookPostrouting

datatype nft_op =
    DelTable table_id
  | AddTable table_id
  | AddSet table_id string
  | AddChain table_id string "nft_hook option"
  | AddRule table_id string nft_rule
  | FlushSet table_id string
  | FlushChain table_id string
  | SetAddElements table_id string "(byte list \<times> byte list) list"

record nft_chain =
  ch_hook :: "nft_hook option"
  ch_rules :: "nft_rule list"

record nft_table =
  tb_sets :: "string \<rightharpoonup> (byte list \<rightharpoonup> byte list)"
  tb_chains :: "string \<rightharpoonup> nft_chain"

type_synonym nft_kernel = "table_id \<rightharpoonup> nft_table"

definition empty_table :: nft_table where
  "empty_table = \<lparr>tb_sets = Map.empty, tb_chains = Map.empty\<rparr>"

subsection \<open>Transactions\<close>

definition upd_table :: "table_id \<Rightarrow> (nft_table \<Rightarrow> nft_table option) \<Rightarrow> nft_kernel \<Rightarrow> nft_kernel option" where
  "upd_table t f k =
     (case k t of None \<Rightarrow> None
      | Some tb \<Rightarrow> (case f tb of None \<Rightarrow> None | Some tb' \<Rightarrow> Some (k(t \<mapsto> tb'))))"

fun add_elems :: "(byte list \<times> byte list) list \<Rightarrow> (byte list \<rightharpoonup> byte list) \<Rightarrow> (byte list \<rightharpoonup> byte list) option" where
  "add_elems [] s = Some s"
| "add_elems ((key, v) # es) s =
     (if s key \<noteq> None \<and> s key \<noteq> Some v then None else add_elems es (s(key \<mapsto> v)))"

fun apply_op :: "nft_op \<Rightarrow> nft_kernel \<Rightarrow> nft_kernel option" where
  "apply_op (DelTable t) k = (if k t = None then None else Some (k(t := None)))"
| "apply_op (AddTable t) k = (if k t = None then Some (k(t \<mapsto> empty_table)) else Some k)"
| "apply_op (AddSet t n) k =
     upd_table t (\<lambda>tb. if tb_sets tb n = None then Some (tb\<lparr>tb_sets := (tb_sets tb)(n \<mapsto> Map.empty)\<rparr>)
                       else Some tb) k"
| "apply_op (AddChain t n h) k =
     upd_table t (\<lambda>tb. if tb_chains tb n = None
                       then Some (tb\<lparr>tb_chains := (tb_chains tb)(n \<mapsto> \<lparr>ch_hook = h, ch_rules = []\<rparr>)\<rparr>)
                       else Some tb) k"
| "apply_op (AddRule t n r) k =
     upd_table t (\<lambda>tb. case tb_chains tb n of None \<Rightarrow> None
        | Some c \<Rightarrow> Some (tb\<lparr>tb_chains := (tb_chains tb)(n \<mapsto> c\<lparr>ch_rules := ch_rules c @ [r]\<rparr>)\<rparr>)) k"
| "apply_op (FlushSet t n) k =
     upd_table t (\<lambda>tb. if tb_sets tb n = None then None
                       else Some (tb\<lparr>tb_sets := (tb_sets tb)(n \<mapsto> Map.empty)\<rparr>)) k"
| "apply_op (FlushChain t n) k =
     upd_table t (\<lambda>tb. case tb_chains tb n of None \<Rightarrow> None
        | Some c \<Rightarrow> Some (tb\<lparr>tb_chains := (tb_chains tb)(n \<mapsto> c\<lparr>ch_rules := []\<rparr>)\<rparr>)) k"
| "apply_op (SetAddElements t n es) k =
     upd_table t (\<lambda>tb. case tb_sets tb n of None \<Rightarrow> None
        | Some s \<Rightarrow> (case add_elems es s of None \<Rightarrow> None
            | Some s' \<Rightarrow> Some (tb\<lparr>tb_sets := (tb_sets tb)(n \<mapsto> s')\<rparr>))) k"

fun apply_ops :: "nft_op list \<Rightarrow> nft_kernel \<Rightarrow> nft_kernel option" where
  "apply_ops [] k = Some k"
| "apply_ops (x # xs) k = (case apply_op x k of None \<Rightarrow> None | Some k' \<Rightarrow> apply_ops xs k')"

definition nft_flush :: "(nft_op list \<Rightarrow> nft_kernel \<Rightarrow> bool) \<Rightarrow> nft_op list \<Rightarrow> nft_kernel \<Rightarrow> nft_kernel option" where
  "nft_flush accept ops k = (if accept ops k then apply_ops ops k else None)"

lemma apply_ops_append:
  "apply_ops (xs @ ys) k = (case apply_ops xs k of None \<Rightarrow> None | Some k' \<Rightarrow> apply_ops ys k')"
  by (induction xs arbitrary: k) (auto split: option.splits)

lemma add_elems_distinct:
  "distinct (map fst es) \<Longrightarrow> (\<forall>key \<in> set (map fst es). s key = None) \<Longrightarrow> add_elems es s = Some (s ++ map_of es)"
proof (induction es arbitrary: s)
  case Nil
  then show ?case by simp
next
  case (Cons e es)
  obtain key v where e: "e = (key, v)" by (cases e)
  have "add_elems es (s(key \<mapsto> v)) = Some (s(key \<mapsto> v) ++ map_of es)"
    by (rule Cons.IH) (use Cons.prems e in auto)
  moreover have "s(key \<mapsto> v) ++ map_of es = s ++ map_of (e # es)"
    using Cons.prems(1) e by (simp add: map_add_upd_left dom_map_of_conv_image_fst)
  moreover have "add_elems (e # es) s = add_elems es (s(key \<mapsto> v))"
    using Cons.prems(2) by (simp add: e)
  ultimately show ?case by (simp only:)
qed

text \<open>The table a request is about; the others stay as they are.\<close>

fun op_table :: "nft_op \<Rightarrow> table_id" where
  "op_table (DelTable t) = t"
| "op_table (AddTable t) = t"
| "op_table (AddSet t n) = t"
| "op_table (AddChain t n h) = t"
| "op_table (AddRule t n r) = t"
| "op_table (FlushSet t n) = t"
| "op_table (FlushChain t n) = t"
| "op_table (SetAddElements t n es) = t"

lemma apply_op_other: "apply_op x k = Some k' \<Longrightarrow> op_table x \<noteq> t \<Longrightarrow> k' t = k t"
  by (cases x) (auto simp: upd_table_def split: option.splits if_splits)

lemma apply_ops_other:
  "apply_ops xs k = Some k' \<Longrightarrow> \<forall>x \<in> set xs. op_table x \<noteq> t \<Longrightarrow> k' t = k t"
  by (induction xs arbitrary: k) (auto split: option.splits dest: apply_op_other)

subsection \<open>Evaluating a packet\<close>

record packet =
  pk_iif :: "byte list"      \<comment> \<open>name of the input interface, as the kernel loads it (16 bytes)\<close>
  pk_oif :: "byte list"
  pk_l4proto :: byte
  pk_th :: "byte list"       \<comment> \<open>the transport header\<close>
  pk_dst_local :: bool       \<comment> \<open>the destination is one of the host's own addresses\<close>
  pk_ct_status :: "32 word"

text \<open>\<open>RTN_LOCAL\<close> and \<open>RTN_UNICAST\<close>, and a 32-bit value in (little-endian) host order.\<close>

definition native32 :: "nat \<Rightarrow> byte list" where
  "native32 n = [of_nat n, of_nat (n div 256), of_nat (n div 65536), of_nat (n div 16777216)]"

definition rtn_local :: nat where "rtn_local = 2"

definition rtn_unicast :: nat where "rtn_unicast = 1"

type_synonym regs = "nat \<Rightarrow> byte list"

datatype verdict = Dnat "byte list" "byte list option" | Masquerade | Accepted

datatype rule_out = NoMatch | EndOfRule | Jumps string | Decided verdict

definition addr_len :: "nfproto \<Rightarrow> nat" where
  "addr_len f = (case f of NFPROTO_IPV4 \<Rightarrow> 4 | NFPROTO_IPV6 \<Rightarrow> 16)"

definition meta_load :: "packet \<Rightarrow> meta_key \<Rightarrow> byte list" where
  "meta_load p key = (case key of MetaIIFNAME \<Rightarrow> pk_iif p | MetaOIFNAME \<Rightarrow> pk_oif p
                                | MetaL4PROTO \<Rightarrow> [pk_l4proto p])"

definition cmp_holds :: "cmp_op \<Rightarrow> byte list \<Rightarrow> byte list \<Rightarrow> bool" where
  "cmp_holds c a d = (case c of CmpOpEq \<Rightarrow> take (length d) a = d | CmpOpNeq \<Rightarrow> take (length d) a \<noteq> d)"

fun run_exprs :: "nft_table \<Rightarrow> packet \<Rightarrow> regs \<Rightarrow> nft_expr list \<Rightarrow> rule_out" where
  "run_exprs tb p rg [] = EndOfRule"
| "run_exprs tb p rg (Meta key r # es) = run_exprs tb p (rg(r := meta_load p key)) es"
| "run_exprs tb p rg (Cmp c r d # es) = (if cmp_holds c (rg r) d then run_exprs tb p rg es else NoMatch)"
| "run_exprs tb p rg (FibDaddrType r # es) =
     run_exprs tb p (rg(r := native32 (if pk_dst_local p then rtn_local else rtn_unicast))) es"
| "run_exprs tb p rg (PayloadTransport r off len # es) =
     (if length (pk_th p) < off + len then NoMatch
      else run_exprs tb p (rg(r := take len (drop off (pk_th p)))) es)"
| "run_exprs tb p rg (Lookup src dst n # es) =
     (case tb_sets tb n of None \<Rightarrow> NoMatch
      | Some s \<Rightarrow> (case s (rg src) of None \<Rightarrow> NoMatch | Some v \<Rightarrow> run_exprs tb p (rg(dst := v)) es))"
| "run_exprs tb p rg (Immediate r d # es) = run_exprs tb p (rg(r := d)) es"
| "run_exprs tb p rg (CtStatus r # es) = run_exprs tb p (rg(r := native32 (unat (pk_ct_status p)))) es"
| "run_exprs tb p rg (Bitwise src dst m x # es) =
     run_exprs tb p (rg(dst := map2 xor (map2 and (rg src) m) x)) es"
| "run_exprs tb p rg (DestNAT f ra rp # es) =
     Decided (Dnat (take (addr_len f) (rg ra)) (map_option (\<lambda>r. take 2 (rg r)) rp))"
| "run_exprs tb p rg (Masq # es) = Decided Masquerade"
| "run_exprs tb p rg (Jump c # es) = Jumps c"
| "run_exprs tb p rg (Accept # es) = Decided Accepted"

text \<open>
  A chain with at most \<open>n\<close> nested jumps. The program's chains nest one jump, so \<open>n = 1\<close> is enough.
\<close>

fun run_chain :: "nat \<Rightarrow> nft_table \<Rightarrow> packet \<Rightarrow> nft_rule list \<Rightarrow> verdict option" where
  "run_chain n tb p [] = None"
| "run_chain n tb p (r # rs) =
     (case run_exprs tb p (\<lambda>_. []) r of
        Decided v \<Rightarrow> Some v
      | Jumps c \<Rightarrow>
          (case n of 0 \<Rightarrow> run_chain n tb p rs
           | Suc m \<Rightarrow>
             (case tb_chains tb c of None \<Rightarrow> run_chain n tb p rs
              | Some ch \<Rightarrow>
                 (case run_chain m tb p (ch_rules ch) of
                    Some v \<Rightarrow> Some v
                  | None \<Rightarrow> run_chain n tb p rs)))
      | _ \<Rightarrow> run_chain n tb p rs)"

lemma run_chain_append:
  "run_chain n tb p (xs @ ys) = (case run_chain n tb p xs of Some v \<Rightarrow> Some v | None \<Rightarrow> run_chain n tb p ys)"
  by (induction xs) (auto split: rule_out.splits nat.splits option.splits)

lemma native32_inject: "n < 256 \<Longrightarrow> m < 256 \<Longrightarrow> native32 n = native32 m \<longleftrightarrow> n = m"
  by (auto simp: native32_def word_of_nat_eq_iff take_bit_nat_eq_self)

lemma fib_local_cmp [simp]:
  "cmp_holds CmpOpEq (native32 rtn_local) (native32 rtn_local)"
  "\<not> cmp_holds CmpOpEq (native32 rtn_unicast) (native32 rtn_local)"
  by (simp_all add: cmp_holds_def native32_def rtn_local_def rtn_unicast_def)

end
