(* ===== verification/NatManager.thy ===== *)
theory NatManager
  imports NftKernel
begin

section \<open>Package nat: DNAT and masquerade tables\<close>

text \<open>
  \<open>src/internal/nat/nat.go\<close>. The manager's operations build batches of nftables requests; the
  parameter \<open>flush\<close> is the transaction that commits a batch to the kernel. The theorems use
  \<open>nft_flush accept\<close> of theory NftKernel for it, with any \<open>accept\<close>.

  Shown: \<open>Setup\<close> on a fresh network namespace establishes the tables; \<open>SetMap\<close> replaces exactly
  one (family, protocol) map or changes nothing; a packet that passes the prerouting guard is sent
  to the entry of its destination port, translated or not; postrouting masquerades exactly the
  hairpin and the outbound traffic.
\<close>

subsection \<open>The data\<close>

datatype family = V4 | V6

record target =
  TIP :: net_ip
  TPort :: u16

type_synonym nft_ref = "table_id \<times> string"

type_synonym dnat_entries = "(u16, target) gomap"

record manager =
  extIface :: string
  v6FibSupported :: bool
  tableV4 :: "table_id option"
  tableV6 :: "table_id option"
  mapV4TCP :: "nft_ref option"
  mapV4UDP :: "nft_ref option"
  mapV6TCP :: "nft_ref option"
  mapV6UDP :: "nft_ref option"
  xlatV4TCP :: "nft_ref option"
  xlatV4UDP :: "nft_ref option"
  xlatV6TCP :: "nft_ref option"
  xlatV6UDP :: "nft_ref option"

datatype nat_error =
    NoSuchMap family string
  | TargetPortZero u16
  | IPv4InV6Family u16 net_ip
  | IPDoesNotFit u16 net_ip family
  | SetupFlushFailed
  | MapFlushFailed

type_synonym flush = "nft_op list \<Rightarrow> nft_kernel \<Rightarrow> nft_kernel option"

definition nat_New :: "string \<Rightarrow> manager" where
  "nat_New iface =
     \<lparr>extIface = iface, v6FibSupported = False, tableV4 = None, tableV6 = None,
      mapV4TCP = None, mapV4UDP = None, mapV6TCP = None, mapV6UDP = None,
      xlatV4TCP = None, xlatV4UDP = None, xlatV6TCP = None, xlatV6UDP = None\<rparr>"

definition addressFamily :: "family \<Rightarrow> nfproto" where
  "addressFamily f = (case f of V6 \<Rightarrow> NFPROTO_IPV6 | V4 \<Rightarrow> NFPROTO_IPV4)"

definition ipproto_tcp :: byte where "ipproto_tcp = 6"

definition ipproto_udp :: byte where "ipproto_udp = 17"

text \<open>Port numbers in network byte order, and interface names padded to 16 bytes.\<close>

definition be16 :: "u16 \<Rightarrow> byte list" where
  "be16 p = [of_nat (unat p div 256), of_nat (unat p mod 256)]"

definition ifaceBytes :: "string \<Rightarrow> byte list" where
  "ifaceBytes name = (let n = take 16 (map of_char name) in n @ replicate (16 - length n) 0)"

subsection \<open>The rules\<close>

definition preroutingGuardExprs :: "string \<Rightarrow> family \<Rightarrow> bool \<Rightarrow> nft_expr list" where
  "preroutingGuardExprs iface fam v6fib =
     (let useFib = (fam = V4 \<or> v6fib) in
      if \<not> useFib then [Meta MetaIIFNAME 1, Cmp CmpOpEq 1 (ifaceBytes iface)]
      else [FibDaddrType 1, Cmp CmpOpEq 1 (native32 rtn_local)])"

definition addXlatJump :: "string \<Rightarrow> family \<Rightarrow> bool \<Rightarrow> byte \<Rightarrow> nft_ref \<Rightarrow> nft_rule" where
  "addXlatJump iface fam v6fib proto to =
     preroutingGuardExprs iface fam v6fib @
     [Meta MetaL4PROTO 1, Cmp CmpOpEq 1 [proto], Jump (snd to)]"

definition addDNATRule :: "string \<Rightarrow> family \<Rightarrow> bool \<Rightarrow> byte \<Rightarrow> nft_ref \<Rightarrow> nft_rule" where
  "addDNATRule iface fam v6fib proto s =
     preroutingGuardExprs iface fam v6fib @
     [Meta MetaL4PROTO 1, Cmp CmpOpEq 1 [proto],
      PayloadTransport 1 2 2,
      Lookup 1 2 (snd s),
      DestNAT (addressFamily fam) 2 None]"

definition addHairpinSnatRule :: "string \<Rightarrow> nft_rule" where
  "addHairpinSnatRule iface =
     [Meta MetaIIFNAME 1, Cmp CmpOpNeq 1 (ifaceBytes iface),
      CtStatus 1,
      Bitwise 1 1 (native32 (2 ^ 5)) (native32 0),
      Cmp CmpOpNeq 1 (native32 0),
      Masq]"

definition addMasqueradeRule :: "string \<Rightarrow> nft_rule" where
  "addMasqueradeRule iface = [Meta MetaOIFNAME 1, Cmp CmpOpEq 1 (ifaceBytes iface), Masq]"

definition xlatRuleExprs :: "family \<Rightarrow> u16 \<Rightarrow> byte list \<Rightarrow> u16 \<Rightarrow> nft_rule" where
  "xlatRuleExprs fam dmzPort ipBytes backendPort =
     [PayloadTransport 1 2 2,
      Cmp CmpOpEq 1 (be16 dmzPort),
      Immediate 2 ipBytes,
      Immediate 3 (be16 backendPort),
      DestNAT (addressFamily fam) 2 (Some 3)]"

subsection \<open>Setup\<close>

definition mapForFamProto :: "manager \<Rightarrow> family \<Rightarrow> string \<Rightarrow> nft_ref option" where
  "mapForFamProto m fam proto =
     (if fam = V4 \<and> proto = ''tcp'' then mapV4TCP m
      else if fam = V4 \<and> proto = ''udp'' then mapV4UDP m
      else if fam = V6 \<and> proto = ''tcp'' then mapV6TCP m
      else if fam = V6 \<and> proto = ''udp'' then mapV6UDP m
      else None)"

definition xlatChainForFamProto :: "manager \<Rightarrow> family \<Rightarrow> string \<Rightarrow> nft_ref option" where
  "xlatChainForFamProto m fam proto =
     (if fam = V4 \<and> proto = ''tcp'' then xlatV4TCP m
      else if fam = V4 \<and> proto = ''udp'' then xlatV4UDP m
      else if fam = V6 \<and> proto = ''tcp'' then xlatV6TCP m
      else if fam = V6 \<and> proto = ''udp'' then xlatV6UDP m
      else None)"

text \<open>The two base chains of a family with their rules. \<open>Setup\<close> has filled in the references.\<close>

definition prerouting_rules :: "manager \<Rightarrow> family \<Rightarrow> nft_rule list" where
  "prerouting_rules m fam =
     (let i = extIface m; fib = v6FibSupported m in
      [addXlatJump i fam fib ipproto_tcp (the (xlatChainForFamProto m fam ''tcp'')),
       addDNATRule i fam fib ipproto_tcp (the (mapForFamProto m fam ''tcp'')),
       addXlatJump i fam fib ipproto_udp (the (xlatChainForFamProto m fam ''udp'')),
       addDNATRule i fam fib ipproto_udp (the (mapForFamProto m fam ''udp''))])"

definition postrouting_rules :: "manager \<Rightarrow> nft_rule list" where
  "postrouting_rules m = [addHairpinSnatRule (extIface m), addMasqueradeRule (extIface m)]"

definition installChains :: "manager \<Rightarrow> table_id \<Rightarrow> family \<Rightarrow> nft_op list" where
  "installChains m t fam =
     [AddChain t ''prerouting'' (Some HookPrerouting),
      AddChain t ''postrouting'' (Some HookPostrouting)]
     @ map (AddRule t ''prerouting'') (prerouting_rules m fam)
     @ map (AddRule t ''postrouting'') (postrouting_rules m)"

definition probe_table :: table_id where
  "probe_table = (NFPROTO_IPV6, ''anchord_v6fib_probe'')"

text \<open>A flush whose error the code ignores.\<close>

definition try_flush :: "flush \<Rightarrow> nft_op list \<Rightarrow> nft_kernel \<Rightarrow> bool \<times> nft_kernel" where
  "try_flush flush ops k = (case flush ops k of None \<Rightarrow> (False, k) | Some k' \<Rightarrow> (True, k'))"

definition probeV6FibSupported :: "flush \<Rightarrow> nft_kernel \<Rightarrow> bool \<times> nft_kernel" where
  "probeV6FibSupported flush k =
     (let (supported, k1) = try_flush flush
            [AddTable probe_table, AddChain probe_table ''pre'' (Some HookPrerouting),
             AddRule probe_table ''pre'' [FibDaddrType 1, Accept]] k;
          (_, k2) = try_flush flush [DelTable probe_table] k1
      in (supported, k2))"

definition wipe_ops :: "nft_op list" where
  "wipe_ops = concat (map (\<lambda>name. [DelTable (NFPROTO_IPV4, name), DelTable (NFPROTO_IPV6, name)])
                        [''anchord_v4'', ''anchord_v6''])"

definition setup_refs :: "manager \<Rightarrow> manager" where
  "setup_refs m =
     (let t4 = (NFPROTO_IPV4, ''anchord_v4''); t6 = (NFPROTO_IPV6, ''anchord_v6'') in
      m\<lparr>tableV4 := Some t4, tableV6 := Some t6,
        mapV4TCP := Some (t4, ''dnat_tcp''), mapV4UDP := Some (t4, ''dnat_udp''),
        mapV6TCP := Some (t6, ''dnat_tcp''), mapV6UDP := Some (t6, ''dnat_udp''),
        xlatV4TCP := Some (t4, ''dnat_xlat_tcp''), xlatV4UDP := Some (t4, ''dnat_xlat_udp''),
        xlatV6TCP := Some (t6, ''dnat_xlat_tcp''), xlatV6UDP := Some (t6, ''dnat_xlat_udp'')\<rparr>)"

definition setup_ops :: "manager \<Rightarrow> nft_op list" where
  "setup_ops m =
     (let t4 = (NFPROTO_IPV4, ''anchord_v4''); t6 = (NFPROTO_IPV6, ''anchord_v6'') in
      [AddTable t4, AddTable t6,
       AddSet t4 ''dnat_tcp'', AddSet t4 ''dnat_udp'', AddSet t6 ''dnat_tcp'', AddSet t6 ''dnat_udp'',
       AddChain t4 ''dnat_xlat_tcp'' None, AddChain t4 ''dnat_xlat_udp'' None,
       AddChain t6 ''dnat_xlat_tcp'' None, AddChain t6 ''dnat_xlat_udp'' None]
      @ installChains m t4 V4 @ installChains m t6 V6)"

definition Setup :: "flush \<Rightarrow> manager \<Rightarrow> nft_kernel \<Rightarrow> nat_error option \<times> manager \<times> nft_kernel" where
  "Setup flush m k =
     (let (sup, k1) = probeV6FibSupported flush k;
          (_, k2) = try_flush flush wipe_ops k1;
          m' = setup_refs (m\<lparr>v6FibSupported := sup\<rparr>)
      in case flush (setup_ops m') k2 of
           None \<Rightarrow> (Some SetupFlushFailed, m', k2)
         | Some k3 \<Rightarrow> (None, m', k3))"

subsection \<open>SetMap and Teardown\<close>

text \<open>The loop over the entries, in the order Go ranges over the map: rules and map elements.\<close>

fun setmap_loop :: "nft_ref \<Rightarrow> family \<Rightarrow> dnat_entries \<Rightarrow> nft_op list \<Rightarrow> (byte list \<times> byte list) list
    \<Rightarrow> nat_error + nft_op list \<times> (byte list \<times> byte list) list" where
  "setmap_loop ch fam [] ops elems = Inr (ops, elems)"
| "setmap_loop ch fam ((port, t) # es) ops elems =
     (if TPort t = 0 then Inl (TargetPortZero port)
      else if fam = V6 \<and> to4 (TIP t) \<noteq> [] then Inl (IPv4InV6Family port (TIP t))
      else let ipBytes = (if fam = V6 then to16 (TIP t) else to4 (TIP t)) in
      if ipBytes = [] then Inl (IPDoesNotFit port (TIP t) fam)
      else if TPort t = port then setmap_loop ch fam es ops (elems @ [(be16 port, ipBytes)])
      else setmap_loop ch fam es
             (ops @ [AddRule (fst ch) (snd ch) (xlatRuleExprs fam port ipBytes (TPort t))]) elems)"

definition SetMap :: "flush \<Rightarrow> manager \<Rightarrow> family \<Rightarrow> string \<Rightarrow> dnat_entries \<Rightarrow> nft_kernel
    \<Rightarrow> nat_error option \<times> nft_kernel" where
  "SetMap flush m fam proto entries k =
     (case (mapForFamProto m fam proto, xlatChainForFamProto m fam proto) of
        (Some addrSet, Some xlatCh) \<Rightarrow>
          (case setmap_loop xlatCh fam entries
                  [FlushSet (fst addrSet) (snd addrSet), FlushChain (fst xlatCh) (snd xlatCh)] [] of
             Inl e \<Rightarrow> (Some e, k)
           | Inr (ops, elems) \<Rightarrow>
               (case flush (ops @ [SetAddElements (fst addrSet) (snd addrSet) elems]) k of
                  None \<Rightarrow> (Some MapFlushFailed, k)
                | Some k' \<Rightarrow> (None, k')))
      | _ \<Rightarrow> (Some (NoSuchMap fam proto), k))"

definition Teardown :: "flush \<Rightarrow> manager \<Rightarrow> nft_kernel \<Rightarrow> bool \<times> nft_kernel" where
  "Teardown flush m k =
     try_flush flush
       ((case tableV4 m of None \<Rightarrow> [] | Some t \<Rightarrow> [DelTable t])
        @ (case tableV6 m of None \<Rightarrow> [] | Some t \<Rightarrow> [DelTable t])) k"

subsection \<open>What the tables hold\<close>

definition table_of :: "family \<Rightarrow> table_id" where
  "table_of fam = (case fam of V4 \<Rightarrow> (NFPROTO_IPV4, ''anchord_v4'') | V6 \<Rightarrow> (NFPROTO_IPV6, ''anchord_v6''))"

definition l4_proto :: "string \<Rightarrow> bool" where
  "l4_proto proto \<longleftrightarrow> proto = ''tcp'' \<or> proto = ''udp''"

definition set_name :: "string \<Rightarrow> string" where
  "set_name proto = ''dnat_'' @ proto"

definition chain_name :: "string \<Rightarrow> string" where
  "chain_name proto = ''dnat_xlat_'' @ proto"

definition proto_byte :: "string \<Rightarrow> byte" where
  "proto_byte proto = (if proto = ''tcp'' then ipproto_tcp else ipproto_udp)"

text \<open>A manager after \<open>Setup\<close>: its references name the objects \<open>Setup\<close> creates.\<close>

definition mgr_ready :: "manager \<Rightarrow> bool" where
  "mgr_ready m \<longleftrightarrow> setup_refs m = m"

text \<open>The address an entry is stored with, and the entries \<open>SetMap\<close> accepts.\<close>

definition fam_addr :: "family \<Rightarrow> net_ip \<Rightarrow> net_ip" where
  "fam_addr fam ip = (case fam of V4 \<Rightarrow> to4 ip | V6 \<Rightarrow> if to4 ip \<noteq> [] then [] else to16 ip)"

definition valid_entry :: "family \<Rightarrow> u16 \<times> target \<Rightarrow> bool" where
  "valid_entry fam e \<longleftrightarrow> TPort (snd e) \<noteq> 0 \<and> fam_addr fam (TIP (snd e)) \<noteq> []"

text \<open>The map elements and the sub-chain rules that a list of entries is stored as.\<close>

fun map_elems :: "family \<Rightarrow> dnat_entries \<Rightarrow> (byte list \<times> byte list) list" where
  "map_elems fam [] = []"
| "map_elems fam ((port, t) # es) =
     (if TPort t = port then (be16 port, fam_addr fam (TIP t)) # map_elems fam es else map_elems fam es)"

fun xlat_rules :: "family \<Rightarrow> dnat_entries \<Rightarrow> nft_rule list" where
  "xlat_rules fam [] = []"
| "xlat_rules fam ((port, t) # es) =
     (if TPort t = port then xlat_rules fam es
      else xlatRuleExprs fam port (fam_addr fam (TIP t)) (TPort t) # xlat_rules fam es)"

definition tb_holds :: "nft_table \<Rightarrow> family \<Rightarrow> string \<Rightarrow> dnat_entries \<Rightarrow> bool" where
  "tb_holds tb fam proto es \<longleftrightarrow>
     gm_ok es \<and> list_all (valid_entry fam) es
     \<and> tb_sets tb (set_name proto) = Some (map_of (map_elems fam es))
     \<and> tb_chains tb (chain_name proto) = Some \<lparr>ch_hook = None, ch_rules = xlat_rules fam es\<rparr>"

definition tb_base :: "manager \<Rightarrow> family \<Rightarrow> nft_table \<Rightarrow> bool" where
  "tb_base m fam tb \<longleftrightarrow>
     tb_chains tb ''prerouting''
       = Some \<lparr>ch_hook = Some HookPrerouting, ch_rules = prerouting_rules m fam\<rparr>
     \<and> tb_chains tb ''postrouting''
       = Some \<lparr>ch_hook = Some HookPostrouting, ch_rules = postrouting_rules m\<rparr>"

text \<open>The kernel holds the entries \<open>es\<close> for a family and protocol.\<close>

definition nat_holds :: "nft_kernel \<Rightarrow> family \<Rightarrow> string \<Rightarrow> dnat_entries \<Rightarrow> bool" where
  "nat_holds k fam proto es \<longleftrightarrow> (\<exists>tb. k (table_of fam) = Some tb \<and> tb_holds tb fam proto es)"

definition nat_inv :: "manager \<Rightarrow> nft_kernel \<Rightarrow> bool" where
  "nat_inv m k \<longleftrightarrow> mgr_ready m
     \<and> (\<forall>fam. \<exists>tb. k (table_of fam) = Some tb \<and> tb_base m fam tb)
     \<and> (\<forall>fam proto. l4_proto proto \<longrightarrow> (\<exists>es. nat_holds k fam proto es))"

lemma l4_cases [consumes 1, case_names tcp udp]:
  "l4_proto proto \<Longrightarrow> (proto = ''tcp'' \<Longrightarrow> P) \<Longrightarrow> (proto = ''udp'' \<Longrightarrow> P) \<Longrightarrow> P"
  by (auto simp: l4_proto_def)

lemma set_name_inject [simp]: "set_name p = set_name q \<longleftrightarrow> p = q"
  by (simp add: set_name_def)

lemma chain_name_inject [simp]: "chain_name p = chain_name q \<longleftrightarrow> p = q"
  by (simp add: chain_name_def)

lemma chain_name_not_base [simp]:
  "chain_name p \<noteq> ''prerouting''" "chain_name p \<noteq> ''postrouting''"
  "''prerouting'' \<noteq> chain_name p" "''postrouting'' \<noteq> chain_name p"
  by (simp_all add: chain_name_def)

lemma table_of_inject [simp]: "table_of f = table_of g \<longleftrightarrow> f = g"
  by (simp add: table_of_def split: family.splits)

lemma ready_refs:
  assumes "mgr_ready m" "l4_proto proto"
  shows "mapForFamProto m fam proto = Some (table_of fam, set_name proto)"
    and "xlatChainForFamProto m fam proto = Some (table_of fam, chain_name proto)"
  by (subst assms(1) [unfolded mgr_ready_def, symmetric], use assms(2) in
      \<open>cases fam; auto simp: mapForFamProto_def xlatChainForFamProto_def setup_refs_def Let_def
        table_of_def set_name_def chain_name_def l4_proto_def\<close>)+

lemma no_refs:
  assumes "\<not> l4_proto proto"
  shows "mapForFamProto m fam proto = None" "xlatChainForFamProto m fam proto = None"
  using assms by (simp_all add: mapForFamProto_def xlatChainForFamProto_def l4_proto_def)

subsection \<open>Ports\<close>

definition be16_val :: "byte list \<Rightarrow> u16" where
  "be16_val bs = (case bs of a # b # _ \<Rightarrow> of_nat (256 * unat a + unat b) | _ \<Rightarrow> 0)"

lemma unat_u16_less: "unat (p :: u16) < 65536"
  using unsigned_less [of p, where ?'a = nat] by simp

lemma length_be16 [simp]: "length (be16 p) = 2"
  by (simp add: be16_def)

lemma be16_val_be16 [simp]: "be16_val (be16 p) = p"
proof -
  have "unat p div 256 < 256" "unat p mod 256 < 256"
    using unat_u16_less [of p] by simp_all
  then have "256 * unat (of_nat (unat p div 256) :: byte) + unat (of_nat (unat p mod 256) :: byte) = unat p"
    by (simp add: unat_of_nat take_bit_eq_mod)
  then have "be16_val (be16 p) = of_nat (unat p)"
    by (simp only: be16_val_def be16_def list.case)
  then show ?thesis by (simp only: of_nat_unat ucast_id)
qed

lemma be16_inject [simp]: "be16 p = be16 q \<longleftrightarrow> p = q"
  by (metis be16_val_be16)

subsection \<open>SetMap\<close>

lemma setmap_loop_Inr_iff:
  "setmap_loop ch fam es ops elems = Inr r \<longleftrightarrow>
     list_all (valid_entry fam) es
     \<and> r = (ops @ map (AddRule (fst ch) (snd ch)) (xlat_rules fam es), elems @ map_elems fam es)"
proof (induction es arbitrary: ops elems)
  case Nil
  then show ?case by auto
next
  case (Cons e es)
  obtain port t where e: "e = (port, t)" by (cases e)
  show ?case
    using Cons.IH by (cases fam) (auto simp: e Let_def valid_entry_def fam_addr_def)
qed

definition add_rules :: "string \<Rightarrow> nft_rule list \<Rightarrow> nft_table \<Rightarrow> nft_table" where
  "add_rules n rs tb = (case tb_chains tb n of None \<Rightarrow> tb
     | Some c \<Rightarrow> tb\<lparr>tb_chains := (tb_chains tb)(n \<mapsto> c\<lparr>ch_rules := ch_rules c @ rs\<rparr>)\<rparr>)"

lemma add_rules_step:
  assumes "k t = Some tb" "tb_chains tb n = Some c"
  shows "apply_op (AddRule t n r) k = Some (k(t \<mapsto> add_rules n [r] tb))"
  using assms by (simp add: upd_table_def add_rules_def)

lemma add_rules_eval:
  assumes "tb_chains tb n = Some c" "k t = Some tb"
  shows "apply_ops (map (AddRule t n) rs) k = Some (k(t \<mapsto> add_rules n rs tb))"
  using assms
proof (induction rs arbitrary: k tb c)
  case Nil
  then have "add_rules n [] tb = tb" by (cases tb) (simp add: add_rules_def fun_upd_idem)
  with Nil show ?case by (simp add: fun_upd_idem)
next
  case (Cons r rs)
  have "tb_chains (add_rules n [r] tb) n = Some (c\<lparr>ch_rules := ch_rules c @ [r]\<rparr>)"
    using Cons.prems by (simp add: add_rules_def)
  then have IH: "apply_ops (map (AddRule t n) rs) (k(t \<mapsto> add_rules n [r] tb))
      = Some (k(t \<mapsto> add_rules n [r] tb, t \<mapsto> add_rules n rs (add_rules n [r] tb)))"
    by (rule Cons.IH) simp
  have "apply_ops (map (AddRule t n) (r # rs)) k = apply_ops (map (AddRule t n) rs) (k(t \<mapsto> add_rules n [r] tb))"
    using add_rules_step [where k = k and t = t and n = n and r = r, OF Cons.prems(2,1)]
    by (simp del: apply_op.simps)
  then have "apply_ops (map (AddRule t n) (r # rs)) k
    = Some (k(t \<mapsto> add_rules n rs (add_rules n [r] tb)))"
    by (simp only: IH fun_upd_upd)
  moreover have "add_rules n rs (add_rules n [r] tb) = add_rules n (r # rs) tb"
    using Cons.prems by (simp add: add_rules_def)
  ultimately show ?case by (simp only:)
qed

lemma map_elems_keys: "fst ` set (map_elems fam es) \<subseteq> be16 ` fst ` set es"
  by (induction fam es rule: map_elems.induct) auto

lemma map_elems_distinct: "gm_ok es \<Longrightarrow> distinct (map fst (map_elems fam es))"
proof (induction fam es rule: map_elems.induct)
  case (1 fam)
  then show ?case by simp
next
  case (2 fam port t es)
  then have "be16 port \<notin> fst ` set (map_elems fam es)"
    using map_elems_keys [of fam es] by (force simp: gm_ok_def)
  with 2 show ?case by (simp add: gm_ok_def)
qed

definition setmap_table :: "family \<Rightarrow> string \<Rightarrow> dnat_entries \<Rightarrow> nft_table \<Rightarrow> nft_table" where
  "setmap_table fam proto es tb =
     tb\<lparr>tb_chains := (tb_chains tb)(chain_name proto
          \<mapsto> \<lparr>ch_hook = None, ch_rules = xlat_rules fam es\<rparr>),
        tb_sets := (tb_sets tb)(set_name proto \<mapsto> map_of (map_elems fam es))\<rparr>"

lemma setmap_ops_eval:
  assumes "k (table_of fam) = Some tb" "tb_holds tb fam proto old" "gm_ok es"
  shows "apply_ops (FlushSet (table_of fam) (set_name proto)
      # FlushChain (table_of fam) (chain_name proto)
      # map (AddRule (table_of fam) (chain_name proto)) (xlat_rules fam es)
      @ [SetAddElements (table_of fam) (set_name proto) (map_elems fam es)]) k
    = Some (k(table_of fam \<mapsto> setmap_table fam proto es tb))"
proof -
  have add: "add_elems (map_elems fam es) Map.empty = Some (map_of (map_elems fam es))"
    using add_elems_distinct [OF map_elems_distinct [OF assms(3), of fam], where s = Map.empty] by simp
  let ?tb = "tb\<lparr>tb_sets := (tb_sets tb)(set_name proto \<mapsto> Map.empty),
      tb_chains := (tb_chains tb)(chain_name proto \<mapsto> \<lparr>ch_hook = None, ch_rules = []\<rparr>)\<rparr>"
  let ?k = "k(table_of fam \<mapsto> ?tb)"
  have rules: "apply_ops (map (AddRule (table_of fam) (chain_name proto)) (xlat_rules fam es)) ?k
      = Some (?k(table_of fam \<mapsto> add_rules (chain_name proto) (xlat_rules fam es) ?tb))"
    by (rule add_rules_eval) simp_all
  show ?thesis
    using assms(1,2)
    by (simp add: upd_table_def tb_holds_def apply_ops_append rules add_rules_def add setmap_table_def)
qed

lemma setmap_table_holds:
  "gm_ok es \<Longrightarrow> list_all (valid_entry fam) es \<Longrightarrow> tb_holds (setmap_table fam proto es tb) fam proto es"
  by (simp add: tb_holds_def setmap_table_def)

lemma setmap_table_other:
  "proto' \<noteq> proto \<Longrightarrow> tb_holds tb fam proto' es' \<Longrightarrow> tb_holds (setmap_table fam proto es tb) fam proto' es'"
  by (simp add: tb_holds_def setmap_table_def)

lemma setmap_table_base: "tb_base m fam tb \<Longrightarrow> tb_base m fam (setmap_table fam' proto es tb)"
  by (simp add: tb_base_def setmap_table_def)

lemma SetMap_ready:
  assumes "nat_inv m k" "l4_proto proto" "gm_ok es"
  obtains tb where "k (table_of fam) = Some tb" "tb_base m fam tb"
    and "SetMap (nft_flush accept) m fam proto es k =
      (case setmap_loop (table_of fam, chain_name proto) fam es
          [FlushSet (table_of fam) (set_name proto), FlushChain (table_of fam) (chain_name proto)] [] of
         Inl e \<Rightarrow> (Some e, k)
       | Inr (ops, elems) \<Rightarrow>
           if accept (ops @ [SetAddElements (table_of fam) (set_name proto) elems]) k
           then (None, k(table_of fam \<mapsto> setmap_table fam proto es tb)) else (Some MapFlushFailed, k))"
proof -
  obtain tb where tb: "k (table_of fam) = Some tb" "tb_base m fam tb"
    using assms(1) unfolding nat_inv_def by blast
  obtain old where "tb_holds tb fam proto old"
    using assms(1,2) tb(1) unfolding nat_inv_def nat_holds_def by (metis option.inject)
  then have eval: "apply_ops (FlushSet (table_of fam) (set_name proto)
      # FlushChain (table_of fam) (chain_name proto)
      # map (AddRule (table_of fam) (chain_name proto)) (xlat_rules fam es)
      @ [SetAddElements (table_of fam) (set_name proto) (map_elems fam es)]) k
    = Some (k(table_of fam \<mapsto> setmap_table fam proto es tb))"
    using setmap_ops_eval tb(1) assms(3) by blast
  have refs: "mgr_ready m" using assms(1) by (simp add: nat_inv_def)
  show thesis
  proof (rule that [OF tb])
    show "SetMap (nft_flush accept) m fam proto es k =
      (case setmap_loop (table_of fam, chain_name proto) fam es
          [FlushSet (table_of fam) (set_name proto), FlushChain (table_of fam) (chain_name proto)] [] of
         Inl e \<Rightarrow> (Some e, k)
       | Inr (ops, elems) \<Rightarrow>
           if accept (ops @ [SetAddElements (table_of fam) (set_name proto) elems]) k
           then (None, k(table_of fam \<mapsto> setmap_table fam proto es tb)) else (Some MapFlushFailed, k))"
      (is "_ = ?rhs")
    proof (cases "setmap_loop (table_of fam, chain_name proto) fam es
        [FlushSet (table_of fam) (set_name proto), FlushChain (table_of fam) (chain_name proto)] []")
      case (Inl e)
      then show ?thesis by (simp add: SetMap_def ready_refs [OF refs assms(2)])
    next
      case (Inr r)
      note r = Inr [unfolded setmap_loop_Inr_iff, THEN conjunct2]
      have "SetMap (nft_flush accept) m fam proto es k
        = (case nft_flush accept (fst r @ [SetAddElements (table_of fam) (set_name proto) (snd r)]) k of
             None \<Rightarrow> (Some MapFlushFailed, k) | Some k' \<Rightarrow> (None, k'))"
        by (simp add: SetMap_def ready_refs [OF refs assms(2)] Inr split: prod.split)
      also have "\<dots> = ?rhs"
        unfolding Inr unfolding r by (simp add: nft_flush_def eval del: apply_op.simps apply_ops.simps)
      finally show ?thesis .
    qed
  qed
qed

lemma SetMap_failed: "SetMap flush m fam proto es k = (Some e, k') \<Longrightarrow> k' = k"
  by (auto simp: SetMap_def split: option.splits sum.splits)

lemma SetMap_ok_valid:
  assumes "SetMap flush m fam proto es k = (None, k')"
  shows "list_all (valid_entry fam) es" and "l4_proto proto"
  using assms no_refs [of proto m fam]
  by (auto simp: SetMap_def setmap_loop_Inr_iff split: option.splits sum.splits)

lemma SetMap_ok_kernel:
  assumes inv: "nat_inv m k" and ok: "gm_ok es"
    and run: "SetMap (nft_flush accept) m fam proto es k = (None, k')"
  shows "\<exists>tb. k (table_of fam) = Some tb \<and> tb_base m fam tb
    \<and> k' = k(table_of fam \<mapsto> setmap_table fam proto es tb)"
proof -
  obtain tb where tb: "k (table_of fam) = Some tb" "tb_base m fam tb"
    and eq: "SetMap (nft_flush accept) m fam proto es k =
      (case setmap_loop (table_of fam, chain_name proto) fam es
          [FlushSet (table_of fam) (set_name proto), FlushChain (table_of fam) (chain_name proto)] [] of
         Inl e \<Rightarrow> (Some e, k)
       | Inr (ops, elems) \<Rightarrow>
           if accept (ops @ [SetAddElements (table_of fam) (set_name proto) elems]) k
           then (None, k(table_of fam \<mapsto> setmap_table fam proto es tb)) else (Some MapFlushFailed, k))"
    using SetMap_ready [OF inv SetMap_ok_valid(2) [OF run] ok] by blast
  then show ?thesis
    using run by (auto split: sum.splits if_splits)
qed

lemma SetMap_holds:
  assumes "nat_inv m k" "gm_ok es" "SetMap (nft_flush accept) m fam proto es k = (None, k')"
  shows "nat_holds k' fam proto es"
  using SetMap_ok_kernel [OF assms] SetMap_ok_valid(1) [OF assms(3)] assms(2)
  by (auto simp: nat_holds_def setmap_table_holds)

lemma SetMap_others:
  assumes "nat_inv m k" "gm_ok es" "SetMap (nft_flush accept) m fam proto es k = (None, k')"
    and "(fam', proto') \<noteq> (fam, proto)" "nat_holds k fam' proto' es'"
  shows "nat_holds k' fam' proto' es'"
  using SetMap_ok_kernel [OF assms(1,2,3)] assms(4,5)
  by (cases "fam' = fam") (auto simp: nat_holds_def setmap_table_other)

lemma SetMap_inv:
  assumes inv: "nat_inv m k" and ok: "gm_ok es"
    and run: "SetMap (nft_flush accept) m fam proto es k = (None, k')"
  shows "nat_inv m k'"
proof -
  have "\<exists>es'. nat_holds k' fam' proto' es'" if l4: "l4_proto proto'" for fam' proto'
  proof (cases "(fam', proto') = (fam, proto)")
    case True
    then show ?thesis using SetMap_holds [OF assms] by blast
  next
    case False
    obtain es' where "nat_holds k fam' proto' es'"
      using inv l4 unfolding nat_inv_def by blast
    with False SetMap_others [OF assms] show ?thesis by blast
  qed
  moreover have "\<exists>tb. k' (table_of fam') = Some tb \<and> tb_base m fam' tb" for fam'
    using SetMap_ok_kernel [OF assms] inv
    by (cases "fam' = fam") (auto simp: nat_inv_def setmap_table_base)
  ultimately show ?thesis
    using inv by (simp add: nat_inv_def)
qed

subsection \<open>What happens to a packet\<close>

definition hook_verdict :: "string \<Rightarrow> nft_kernel \<Rightarrow> family \<Rightarrow> packet \<Rightarrow> verdict option" where
  "hook_verdict chain k fam p =
     (case k (table_of fam) of None \<Rightarrow> None
      | Some tb \<Rightarrow> (case tb_chains tb chain of None \<Rightarrow> None | Some c \<Rightarrow> run_chain 1 tb p (ch_rules c)))"

definition from_iface :: "string \<Rightarrow> byte list \<Rightarrow> bool" where
  "from_iface iface name \<longleftrightarrow> take 16 name = ifaceBytes iface"

text \<open>The packets the prerouting rules are about.\<close>

definition guard_ok :: "manager \<Rightarrow> family \<Rightarrow> packet \<Rightarrow> bool" where
  "guard_ok m fam p = (if fam = V4 \<or> v6FibSupported m then pk_dst_local p
                       else from_iface (extIface m) (pk_iif p))"

definition dst_port :: "packet \<Rightarrow> u16 option" where
  "dst_port p = (if length (pk_th p) < 4 then None else Some (be16_val (take 2 (drop 2 (pk_th p)))))"

text \<open>
  The verdict an entry asks for: the entry's address, and its port where it is not the packet's.
\<close>

definition dnat_verdict :: "family \<Rightarrow> dnat_entries \<Rightarrow> u16 \<Rightarrow> verdict option" where
  "dnat_verdict fam es q =
     map_option (\<lambda>t. Dnat (fam_addr fam (TIP t)) (if TPort t = q then None else Some (be16 (TPort t))))
       (map_of es q)"

lemma length_ifaceBytes [simp]: "length (ifaceBytes n) = 16"
  by (simp add: ifaceBytes_def Let_def)

lemma cmp_iface [simp]:
  "cmp_holds CmpOpEq a (ifaceBytes n) = from_iface n a"
  "cmp_holds CmpOpNeq a (ifaceBytes n) = (\<not> from_iface n a)"
  by (simp_all add: cmp_holds_def from_iface_def)

lemma run_guard:
  "run_exprs tb p rg (preroutingGuardExprs (extIface m) fam (v6FibSupported m) @ Meta key 1 # es)
   = (if guard_ok m fam p then run_exprs tb p (rg(1 := meta_load p key)) es else NoMatch)"
  by (auto simp: preroutingGuardExprs_def guard_ok_def Let_def meta_load_def)

lemma be16_be16_val: "length bs = 2 \<Longrightarrow> be16 (be16_val bs) = bs"
proof -
  assume "length bs = 2"
  then obtain a b where bs: "bs = [a, b]"
    by (auto simp: length_Suc_conv numeral_2_eq_2)
  have ab: "unat a < 256" "unat b < 256"
    using unsigned_less [of a, where ?'a = nat] unsigned_less [of b, where ?'a = nat] by simp_all
  then have "256 * unat a + unat b < 65536" by simp
  then have "unat (be16_val bs) = 256 * unat a + unat b"
    by (simp add: bs be16_val_def unat_of_nat take_bit_nat_eq_self del: of_nat_add of_nat_mult of_nat_unat)
  then show "be16 (be16_val bs) = bs"
    using ab by (simp add: be16_def bs)
qed

lemma dst_port_eq:
  "dst_port p = Some q \<longleftrightarrow> 4 \<le> length (pk_th p) \<and> take 2 (drop 2 (pk_th p)) = be16 q"
  using be16_be16_val [of "take 2 (drop 2 (pk_th p))"] by (auto simp: dst_port_def)

lemma fam_addr_length: "fam_addr fam ip \<noteq> [] \<Longrightarrow> length (fam_addr fam ip) = addr_len (addressFamily fam)"
  by (cases fam) (auto simp: fam_addr_def addr_len_def addressFamily_def to16_def to4_nonempty_length
      split: if_splits)

lemma run_xlat_rule:
  assumes "dst_port p = Some q" "valid_entry fam (port, t)"
  shows "run_exprs tb p rg (xlatRuleExprs fam port (fam_addr fam (TIP t)) (TPort t))
    = (if q = port then Decided (Dnat (fam_addr fam (TIP t)) (Some (be16 (TPort t)))) else NoMatch)"
  using assms fam_addr_length [of fam "TIP t"]
  by (auto simp: xlatRuleExprs_def dst_port_eq valid_entry_def cmp_holds_def)

lemma run_xlat_chain:
  assumes "dst_port p = Some q" "list_all (valid_entry fam) es" "gm_ok es"
  shows "run_chain n tb p (xlat_rules fam es)
    = (case map_of es q of None \<Rightarrow> None
       | Some t \<Rightarrow> if TPort t = q then None
                   else Some (Dnat (fam_addr fam (TIP t)) (Some (be16 (TPort t)))))"
  using assms(2,3)
proof (induction fam es rule: xlat_rules.induct)
  case (1 fam)
  then show ?case by simp
next
  case (2 fam port t es)
  have [simp]: "map_of es port = None"
    using 2(4) by (simp add: gm_ok_def map_of_eq_None_iff)
  from 2 show ?case
    by (auto simp: run_xlat_rule [OF assms(1)] gm_ok_def)
qed

lemma map_elems_lookup:
  assumes "gm_ok es"
  shows "map_of (map_elems fam es) (be16 q)
    = (case map_of es q of None \<Rightarrow> None
       | Some t \<Rightarrow> if TPort t = q then Some (fam_addr fam (TIP t)) else None)"
  using assms
proof (induction fam es rule: map_elems.induct)
  case (1 fam)
  then show ?case by simp
next
  case (2 fam port t es)
  have [simp]: "map_of es port = None"
    using 2(3) by (simp add: gm_ok_def map_of_eq_None_iff)
  from 2 show ?case
    by (auto simp: gm_ok_def)
qed

lemma run_dnat_rules:
  assumes "tb_holds tb fam proto es" "dst_port p = Some q"
  shows "run_chain 1 tb p (addXlatJump (extIface m) fam (v6FibSupported m) b (t, chain_name proto)
            # addDNATRule (extIface m) fam (v6FibSupported m) b (t, set_name proto) # rs)
    = (case (if guard_ok m fam p \<and> pk_l4proto p = b then dnat_verdict fam es q else None) of
         None \<Rightarrow> run_chain 1 tb p rs | Some v \<Rightarrow> Some v)"
proof -
  have es: "gm_ok es" "list_all (valid_entry fam) es"
    and tb: "tb_sets tb (set_name proto) = Some (map_of (map_elems fam es))"
      "tb_chains tb (chain_name proto) = Some \<lparr>ch_hook = None, ch_rules = xlat_rules fam es\<rparr>"
    using assms(1) by (auto simp: tb_holds_def)
  have valid: "map_of es q = Some t \<Longrightarrow> length (fam_addr fam (TIP t)) = addr_len (addressFamily fam)" for t
    using es(2) fam_addr_length [of fam "TIP t"]
    by (auto simp: list_all_iff valid_entry_def dest!: map_of_SomeD)
  have meta: "cmp_holds CmpOpEq [x] [y] \<longleftrightarrow> x = y" for x y
    by (simp add: cmp_holds_def)
  have port: "take 2 (drop 2 (pk_th p)) = be16 q" "\<not> length (pk_th p) < 4"
    using assms(2) by (auto simp: dst_port_eq)
  show ?thesis
    using valid
    by (auto simp: addXlatJump_def addDNATRule_def run_guard run_guard [unfolded One_nat_def] meta meta_load_def tb port
        run_xlat_chain [OF assms(2) es(2,1)] map_elems_lookup [OF es(1)] dnat_verdict_def
        split: option.splits)
qed

lemma hook_prerouting:
  assumes inv: "nat_inv m k" and port: "dst_port p = Some q"
    and tcp: "nat_holds k fam ''tcp'' es_tcp" and udp: "nat_holds k fam ''udp'' es_udp"
  shows "hook_verdict ''prerouting'' k fam p
    = (if \<not> guard_ok m fam p then None
       else if pk_l4proto p = ipproto_tcp then dnat_verdict fam es_tcp q
       else if pk_l4proto p = ipproto_udp then dnat_verdict fam es_udp q
       else None)"
proof -
  obtain tb where tb: "k (table_of fam) = Some tb" "tb_base m fam tb" and ready: "mgr_ready m"
    using inv unfolding nat_inv_def by blast
  have holds: "tb_holds tb fam ''tcp'' es_tcp" "tb_holds tb fam ''udp'' es_udp"
    using tcp udp tb(1) by (auto simp: nat_holds_def)
  have l4: "l4_proto ''tcp''" "l4_proto ''udp''" by (simp_all add: l4_proto_def)
  have "hook_verdict ''prerouting'' k fam p = run_chain 1 tb p (prerouting_rules m fam)"
    using tb by (simp add: hook_verdict_def tb_base_def)
  then show ?thesis
    by (simp only: prerouting_rules_def Let_def ready_refs [OF ready l4(1)] ready_refs [OF ready l4(2)]
        option.sel run_dnat_rules [OF holds(1) port] run_dnat_rules [OF holds(2) port])
      (auto simp: ipproto_tcp_def ipproto_udp_def split: option.splits)
qed

text \<open>A packet without a transport header of at least four bytes is left alone.\<close>

definition ct_dnat :: "packet \<Rightarrow> bool" where
  "ct_dnat p \<longleftrightarrow> bit (pk_ct_status p) 5"

lemma cmp_native0:
  "cmp_holds CmpOpNeq (map2 xor (map2 and (native32 n) (native32 (2 ^ 5))) (native32 0)) (native32 0)
   \<longleftrightarrow> bit n 5"
proof -
  have "and (of_nat n :: byte) (2 ^ 5) = 0 \<longleftrightarrow> \<not> bit n 5"
    unfolding and_exp_eq_0_iff_not_bit by (simp add: bit_of_nat_iff)
  then show ?thesis
    by (simp add: cmp_holds_def native32_def)
qed

lemma hook_postrouting:
  assumes "nat_inv m k"
  shows "hook_verdict ''postrouting'' k fam p
    = (if (\<not> from_iface (extIface m) (pk_iif p) \<and> ct_dnat p) \<or> from_iface (extIface m) (pk_oif p)
       then Some Masquerade else None)"
proof -
  obtain tb where tb: "k (table_of fam) = Some tb" "tb_base m fam tb"
    using assms unfolding nat_inv_def by blast
  have "hook_verdict ''postrouting'' k fam p = run_chain 1 tb p (postrouting_rules m)"
    using tb by (simp add: hook_verdict_def tb_base_def)
  then show ?thesis
    by (auto simp: postrouting_rules_def addHairpinSnatRule_def addMasqueradeRule_def meta_load_def
        cmp_native0 [simplified] ct_dnat_def bit_unsigned_iff)
qed

subsection \<open>Setup\<close>

definition fresh_table :: "manager \<Rightarrow> family \<Rightarrow> nft_table" where
  "fresh_table m fam =
     \<lparr>tb_sets = [set_name ''tcp'' \<mapsto> Map.empty, set_name ''udp'' \<mapsto> Map.empty],
      tb_chains = [chain_name ''tcp'' \<mapsto> \<lparr>ch_hook = None, ch_rules = []\<rparr>,
        chain_name ''udp'' \<mapsto> \<lparr>ch_hook = None, ch_rules = []\<rparr>,
        ''prerouting'' \<mapsto> \<lparr>ch_hook = Some HookPrerouting, ch_rules = prerouting_rules m fam\<rparr>,
        ''postrouting'' \<mapsto> \<lparr>ch_hook = Some HookPostrouting, ch_rules = postrouting_rules m\<rparr>]\<rparr>"

definition anchor_objects :: "nft_table" where
  "anchor_objects =
     \<lparr>tb_sets = [set_name ''tcp'' \<mapsto> Map.empty, set_name ''udp'' \<mapsto> Map.empty],
      tb_chains = [chain_name ''tcp'' \<mapsto> \<lparr>ch_hook = None, ch_rules = []\<rparr>,
        chain_name ''udp'' \<mapsto> \<lparr>ch_hook = None, ch_rules = []\<rparr>]\<rparr>"

lemma setup_objects_eval:
  assumes "k (table_of V4) = None" "k (table_of V6) = None"
  shows "apply_ops [AddTable (table_of V4), AddTable (table_of V6),
       AddSet (table_of V4) ''dnat_tcp'', AddSet (table_of V4) ''dnat_udp'',
       AddSet (table_of V6) ''dnat_tcp'', AddSet (table_of V6) ''dnat_udp'',
       AddChain (table_of V4) ''dnat_xlat_tcp'' None, AddChain (table_of V4) ''dnat_xlat_udp'' None,
       AddChain (table_of V6) ''dnat_xlat_tcp'' None, AddChain (table_of V6) ''dnat_xlat_udp'' None] k
   = Some (k(table_of V4 \<mapsto> anchor_objects, table_of V6 \<mapsto> anchor_objects))"
  using assms
  by (simp add: upd_table_def empty_table_def anchor_objects_def set_name_def chain_name_def fun_upd_twist)

lemma installChains_eval:
  assumes "k t = Some tb" "tb_chains tb ''prerouting'' = None" "tb_chains tb ''postrouting'' = None"
  shows "apply_ops (installChains m t fam) k = Some (k(t \<mapsto> tb\<lparr>tb_chains := (tb_chains tb)(
      ''prerouting'' \<mapsto> \<lparr>ch_hook = Some HookPrerouting, ch_rules = prerouting_rules m fam\<rparr>,
      ''postrouting'' \<mapsto> \<lparr>ch_hook = Some HookPostrouting, ch_rules = postrouting_rules m\<rparr>)\<rparr>))"
proof -
  let ?c = "\<lambda>pre post. tb\<lparr>tb_chains := (tb_chains tb)(
      ''prerouting'' \<mapsto> \<lparr>ch_hook = Some HookPrerouting, ch_rules = pre\<rparr>,
      ''postrouting'' \<mapsto> \<lparr>ch_hook = Some HookPostrouting, ch_rules = post\<rparr>)\<rparr>"
  have 1: "apply_ops [AddChain t ''prerouting'' (Some HookPrerouting),
      AddChain t ''postrouting'' (Some HookPostrouting)] k = Some (k(t \<mapsto> ?c [] []))"
    using assms by (simp add: upd_table_def)
  have 2: "apply_ops (map (AddRule t ''prerouting'') rs) (k(t \<mapsto> ?c [] []))
      = Some (k(t \<mapsto> ?c [] [], t \<mapsto> add_rules ''prerouting'' rs (?c [] [])))" for rs
    by (rule add_rules_eval) simp_all
  have 3: "add_rules ''prerouting'' rs (?c [] []) = ?c rs []" for rs
    by (simp add: add_rules_def fun_upd_twist)
  have 4: "apply_ops (map (AddRule t ''postrouting'') rs') (k(t \<mapsto> ?c rs []))
      = Some (k(t \<mapsto> ?c rs [], t \<mapsto> add_rules ''postrouting'' rs' (?c rs [])))" for rs rs'
    by (rule add_rules_eval) simp_all
  have 5: "add_rules ''postrouting'' rs' (?c rs []) = ?c rs rs'" for rs rs'
    by (simp add: add_rules_def)
  show ?thesis
    unfolding installChains_def apply_ops_append 1 option.case 2 fun_upd_upd 3 4 5 ..
qed

lemma setup_ops_fresh:
  assumes "k (table_of V4) = None" "k (table_of V6) = None"
  shows "apply_ops (setup_ops m) k
    = Some (k(table_of V4 \<mapsto> fresh_table m V4, table_of V6 \<mapsto> fresh_table m V6))"
proof -
  let ?k = "k(table_of V4 \<mapsto> anchor_objects, table_of V6 \<mapsto> anchor_objects)"
  have ops: "setup_ops m = [AddTable (table_of V4), AddTable (table_of V6),
       AddSet (table_of V4) ''dnat_tcp'', AddSet (table_of V4) ''dnat_udp'',
       AddSet (table_of V6) ''dnat_tcp'', AddSet (table_of V6) ''dnat_udp'',
       AddChain (table_of V4) ''dnat_xlat_tcp'' None, AddChain (table_of V4) ''dnat_xlat_udp'' None,
       AddChain (table_of V6) ''dnat_xlat_tcp'' None, AddChain (table_of V6) ''dnat_xlat_udp'' None]
       @ installChains m (table_of V4) V4 @ installChains m (table_of V6) V6"
    by (simp add: setup_ops_def table_of_def Let_def)
  have none: "tb_chains anchor_objects ''prerouting'' = None" "tb_chains anchor_objects ''postrouting'' = None"
    by (simp_all add: anchor_objects_def)
  have fresh: "anchor_objects\<lparr>tb_chains := (tb_chains anchor_objects)(
      ''prerouting'' \<mapsto> \<lparr>ch_hook = Some HookPrerouting, ch_rules = prerouting_rules m fam\<rparr>,
      ''postrouting'' \<mapsto> \<lparr>ch_hook = Some HookPostrouting, ch_rules = postrouting_rules m\<rparr>)\<rparr>
    = fresh_table m fam" for fam
    by (simp add: anchor_objects_def fresh_table_def)
  have 1: "apply_ops (installChains m (table_of V4) V4) ?k = Some (?k(table_of V4 \<mapsto> fresh_table m V4))"
    by (subst installChains_eval [OF _ none]) (simp_all add: fresh)
  have 2: "apply_ops (installChains m (table_of V6) V6) (?k(table_of V4 \<mapsto> fresh_table m V4))
      = Some (?k(table_of V4 \<mapsto> fresh_table m V4, table_of V6 \<mapsto> fresh_table m V6))"
    by (subst installChains_eval [OF _ none]) (simp_all add: fresh)
  show ?thesis
    unfolding ops apply_ops_append setup_objects_eval [OF assms] option.case 1 2
    by (simp add: fun_upd_twist)
qed

lemma try_flush_other:
  assumes "try_flush (nft_flush accept) ops k = (b, k')" "\<forall>x \<in> set ops. op_table x \<noteq> t"
  shows "k' t = k t"
  using assms apply_ops_other [of ops k k' t]
  by (auto simp: try_flush_def nft_flush_def split: option.splits if_splits)

lemma probe_other:
  assumes "probeV6FibSupported (nft_flush accept) k = (b, k')" "t \<noteq> probe_table"
  shows "k' t = k t"
proof -
  obtain b1 k1 where 1: "try_flush (nft_flush accept) [AddTable probe_table,
      AddChain probe_table ''pre'' (Some HookPrerouting),
      AddRule probe_table ''pre'' [FibDaddrType 1, Accept]] k = (b1, k1)" (is "?e = _")
    by (cases ?e)
  moreover obtain b2 k2 where 2: "try_flush (nft_flush accept) [DelTable probe_table] k1 = (b2, k2)" (is "?e = _")
    by (cases ?e)
  ultimately have "k' = k2"
    using assms(1) by (simp add: probeV6FibSupported_def)
  then show ?thesis
    using try_flush_other [OF 1, of t] try_flush_other [OF 2, of t] assms(2) by auto
qed

text \<open>
  The wipe is one transaction over four tables. Two of them, \<open>anchord_v6\<close> of family ip and
  \<open>anchord_v4\<close> of family ip6, are never created, so the transaction fails and deletes nothing.
\<close>

lemma wipe_does_nothing:
  assumes "k (NFPROTO_IPV4, ''anchord_v6'') = None"
  shows "try_flush (nft_flush accept) wipe_ops k = (False, k)"
proof -
  have "apply_ops wipe_ops k = None"
    using assms by (auto simp: wipe_ops_def split: option.splits)
  then show ?thesis by (simp add: try_flush_def nft_flush_def)
qed

lemma setup_refs_idem [simp]: "setup_refs (setup_refs m) = setup_refs m"
  by (simp add: setup_refs_def Let_def)

lemma mgr_ready_setup_refs [simp]: "mgr_ready (setup_refs m)"
  by (simp add: mgr_ready_def)

lemma Setup_ok:
  assumes "Setup (nft_flush accept) m k = (None, m', k')"
    and "k (NFPROTO_IPV4, ''anchord_v6'') = None"
  obtains k1 where "mgr_ready m'" "extIface m' = extIface m"
    and "\<And>fam. k1 (table_of fam) = k (table_of fam)" "apply_ops (setup_ops m') k1 = Some k'"
    and "k1 (NFPROTO_IPV4, ''anchord_v6'') = None"
proof -
  obtain sup k1 where p: "probeV6FibSupported (nft_flush accept) k = (sup, k1)" (is "?e = _")
    by (cases ?e)
  have same: "k1 (table_of fam) = k (table_of fam)" for fam
    by (rule probe_other [OF p]) (cases fam; simp add: table_of_def probe_table_def)
  have none: "k1 (NFPROTO_IPV4, ''anchord_v6'') = None"
    using probe_other [OF p, of "(NFPROTO_IPV4, ''anchord_v6'')"] assms(2)
    by (simp add: probe_table_def)
  then have w: "try_flush (nft_flush accept) wipe_ops k1 = (False, k1)"
    by (rule wipe_does_nothing)
  have m': "m' = setup_refs (m\<lparr>v6FibSupported := sup\<rparr>)" and k': "apply_ops (setup_ops m') k1 = Some k'"
    using assms(1) by (auto simp: Setup_def p w Let_def nft_flush_def split: option.splits if_splits)
  have "extIface m' = extIface m" by (simp add: m' setup_refs_def Let_def)
  with m' k' same none show thesis by (intro that [of k1]) simp_all
qed

lemma setup_ops_tables: "x \<in> set (setup_ops m) \<Longrightarrow> op_table x \<noteq> (NFPROTO_IPV4, ''anchord_v6'')"
  by (auto simp: setup_ops_def installChains_def Let_def)

lemma fresh_table_ok:
  "tb_base m fam (fresh_table m fam)"
  "l4_proto proto \<Longrightarrow> tb_holds (fresh_table m fam) fam proto []"
  by (auto simp: tb_base_def tb_holds_def fresh_table_def l4_proto_def set_name_def chain_name_def gm_ok_def)

lemma Setup_fresh_inv:
  assumes "k (table_of V4) = None" "k (table_of V6) = None" "k (NFPROTO_IPV4, ''anchord_v6'') = None"
    and "Setup (nft_flush accept) m k = (None, m', k')"
  shows "nat_inv m' k'" and "l4_proto proto \<Longrightarrow> nat_holds k' fam proto []"
proof -
  obtain k1 where k1: "mgr_ready m'" "\<And>fam. k1 (table_of fam) = k (table_of fam)"
    "apply_ops (setup_ops m') k1 = Some k'"
    using Setup_ok [OF assms(4,3)] by metis
  have tb: "k' (table_of fam) = Some (fresh_table m' fam)" for fam
    using k1(3) setup_ops_fresh [of k1 m'] k1(2) assms(1,2) by (cases fam) auto
  then show h: "l4_proto proto \<Longrightarrow> nat_holds k' fam proto []" for proto fam
    by (simp add: nat_holds_def fresh_table_ok)
  then show "nat_inv m' k'"
    using k1(1) tb fresh_table_ok(1) unfolding nat_inv_def by blast
qed

text \<open>\<open>Setup\<close> over the tables of an earlier \<open>Setup\<close>: the maps stay, the rules are appended.\<close>

lemma setup_objects_stale:
  assumes "nat_inv m0 k"
  shows "apply_ops [AddTable (table_of V4), AddTable (table_of V6),
       AddSet (table_of V4) ''dnat_tcp'', AddSet (table_of V4) ''dnat_udp'',
       AddSet (table_of V6) ''dnat_tcp'', AddSet (table_of V6) ''dnat_udp'',
       AddChain (table_of V4) ''dnat_xlat_tcp'' None, AddChain (table_of V4) ''dnat_xlat_udp'' None,
       AddChain (table_of V6) ''dnat_xlat_tcp'' None, AddChain (table_of V6) ''dnat_xlat_udp'' None] k
   = Some k"
proof -
  have l4: "l4_proto ''tcp''" "l4_proto ''udp''" by (simp_all add: l4_proto_def)
  have 1: "\<exists>tb. k (table_of fam) = Some tb \<and> tb_sets tb (set_name proto) \<noteq> None
      \<and> tb_chains tb (chain_name proto) \<noteq> None" if "l4_proto proto" for fam proto
    using assms that unfolding nat_inv_def nat_holds_def tb_holds_def by fastforce
  have tbl: "apply_op (AddTable (table_of fam)) k = Some k" for fam
    using 1 [OF l4(1), of fam] by auto
  have sets: "apply_op (AddSet (table_of fam) (set_name proto)) k = Some k" if "l4_proto proto" for fam proto
    using 1 [OF that, of fam] by (auto simp: upd_table_def fun_upd_idem)
  have chs: "apply_op (AddChain (table_of fam) (chain_name proto) None) k = Some k"
    if "l4_proto proto" for fam proto
    using 1 [OF that, of fam] by (auto simp: upd_table_def fun_upd_idem)
  show ?thesis
    using sets [OF l4(1)] sets [OF l4(2)] chs [OF l4(1)] chs [OF l4(2)]
    unfolding set_name_def chain_name_def append.simps
    by (simp only: apply_ops.simps tbl option.case)
qed

lemma installChains_stale:
  assumes "k t = Some tb" "tb_chains tb ''prerouting'' = Some c" "tb_chains tb ''postrouting'' = Some d"
  shows "apply_ops (installChains m t fam) k = Some (k(t \<mapsto>
     add_rules ''postrouting'' (postrouting_rules m) (add_rules ''prerouting'' (prerouting_rules m fam) tb)))"
proof -
  have 1: "apply_ops [AddChain t ''prerouting'' (Some HookPrerouting),
      AddChain t ''postrouting'' (Some HookPostrouting)] k = Some k"
    using assms by (simp add: upd_table_def fun_upd_idem)
  have 2: "apply_ops (map (AddRule t ''prerouting'') rs) k = Some (k(t \<mapsto> add_rules ''prerouting'' rs tb))" for rs
    by (rule add_rules_eval) fact+
  have "tb_chains (add_rules ''prerouting'' rs tb) ''postrouting'' = Some d" for rs
    using assms(2,3) by (simp add: add_rules_def)
  then have 3: "apply_ops (map (AddRule t ''postrouting'') rs') (k(t \<mapsto> add_rules ''prerouting'' rs tb))
      = Some (k(t \<mapsto> add_rules ''prerouting'' rs tb,
                t \<mapsto> add_rules ''postrouting'' rs' (add_rules ''prerouting'' rs tb)))" for rs rs'
    by (rule add_rules_eval) simp
  show ?thesis
    unfolding installChains_def apply_ops_append 1 option.case 2 3 fun_upd_upd ..
qed

definition restarted :: "manager \<Rightarrow> family \<Rightarrow> nft_table \<Rightarrow> nft_table" where
  "restarted m fam tb = add_rules ''postrouting'' (postrouting_rules m)
     (add_rules ''prerouting'' (prerouting_rules m fam) tb)"

lemma setup_ops_stale:
  assumes "nat_inv m0 k"
  obtains k' where "apply_ops (setup_ops m) k = Some k'"
    and "\<And>fam tb. k (table_of fam) = Some tb \<Longrightarrow> k' (table_of fam) = Some (restarted m fam tb)"
proof -
  have base: "\<exists>tb. k (table_of fam) = Some tb \<and> tb_chains tb ''prerouting'' \<noteq> None
      \<and> tb_chains tb ''postrouting'' \<noteq> None" for fam
    using assms(1) unfolding nat_inv_def tb_base_def by fastforce
  obtain t4 where t4: "k (table_of V4) = Some t4"
      "tb_chains t4 ''prerouting'' \<noteq> None" "tb_chains t4 ''postrouting'' \<noteq> None"
    using base by blast
  obtain t6 where t6: "k (table_of V6) = Some t6"
      "tb_chains t6 ''prerouting'' \<noteq> None" "tb_chains t6 ''postrouting'' \<noteq> None"
    using base by blast
  have ops: "setup_ops m = [AddTable (table_of V4), AddTable (table_of V6),
       AddSet (table_of V4) ''dnat_tcp'', AddSet (table_of V4) ''dnat_udp'',
       AddSet (table_of V6) ''dnat_tcp'', AddSet (table_of V6) ''dnat_udp'',
       AddChain (table_of V4) ''dnat_xlat_tcp'' None, AddChain (table_of V4) ''dnat_xlat_udp'' None,
       AddChain (table_of V6) ''dnat_xlat_tcp'' None, AddChain (table_of V6) ''dnat_xlat_udp'' None]
       @ installChains m (table_of V4) V4 @ installChains m (table_of V6) V6"
    by (simp add: setup_ops_def table_of_def Let_def)
  have 1: "apply_ops (installChains m (table_of V4) V4) k = Some (k(table_of V4 \<mapsto> restarted m V4 t4))"
    using t4 unfolding restarted_def by (auto intro: installChains_stale)
  have 2: "apply_ops (installChains m (table_of V6) V6) (k(table_of V4 \<mapsto> restarted m V4 t4))
      = Some (k(table_of V4 \<mapsto> restarted m V4 t4, table_of V6 \<mapsto> restarted m V6 t6))"
    using t6 unfolding restarted_def by (auto intro!: installChains_stale)
  have run: "apply_ops (setup_ops m) k
      = Some (k(table_of V4 \<mapsto> restarted m V4 t4, table_of V6 \<mapsto> restarted m V6 t6))"
    unfolding ops apply_ops_append setup_objects_stale [OF assms(1)] option.case 1 2 ..
  show thesis
  proof (rule that [OF run])
    fix fam tb
    assume "k (table_of fam) = Some tb"
    with t4 t6 show "(k(table_of V4 \<mapsto> restarted m V4 t4, table_of V6 \<mapsto> restarted m V6 t6)) (table_of fam)
        = Some (restarted m fam tb)"
      by (cases fam) auto
  qed
qed

lemma restarted_holds: "tb_holds tb fam proto es \<Longrightarrow> tb_holds (restarted m fam tb) fam proto es"
  by (auto simp: tb_holds_def restarted_def add_rules_def split: option.splits)

lemma restarted_prerouting:
  "tb_base m0 fam tb \<Longrightarrow> tb_chains (restarted m fam tb) ''prerouting''
     = Some \<lparr>ch_hook = Some HookPrerouting, ch_rules = prerouting_rules m0 fam @ prerouting_rules m fam\<rparr>"
  by (auto simp: tb_base_def restarted_def add_rules_def)

subsection \<open>The interface the reconciler uses\<close>

text \<open>
  What the client of the maps relies on: a successful update installs its entries and leaves the
  other three maps alone, a failed one changes nothing.
\<close>

locale dnat_maps =
  fixes set_map :: "family \<Rightarrow> string \<Rightarrow> dnat_entries \<Rightarrow> 'k \<Rightarrow> 'e option \<times> 'k"
    and maps_inv :: "'k \<Rightarrow> bool"
    and holds :: "'k \<Rightarrow> family \<Rightarrow> string \<Rightarrow> dnat_entries \<Rightarrow> bool"
  assumes set_map_failed: "set_map fam proto es k = (Some e, k') \<Longrightarrow> k' = k"
    and set_map_inv: "maps_inv k \<Longrightarrow> gm_ok es \<Longrightarrow> set_map fam proto es k = (None, k') \<Longrightarrow> maps_inv k'"
    and set_map_holds: "maps_inv k \<Longrightarrow> gm_ok es \<Longrightarrow> set_map fam proto es k = (None, k') \<Longrightarrow> holds k' fam proto es"
    and set_map_others: "maps_inv k \<Longrightarrow> gm_ok es \<Longrightarrow> set_map fam proto es k = (None, k')
      \<Longrightarrow> (fam', proto') \<noteq> (fam, proto) \<Longrightarrow> holds k fam' proto' es' \<Longrightarrow> holds k' fam' proto' es'"

interpretation nat_maps: dnat_maps "SetMap (nft_flush accept) m" "nat_inv m" nat_holds
  for accept m
  by unfold_locales (auto dest: SetMap_failed SetMap_inv SetMap_holds SetMap_others)

subsection \<open>Properties of the component\<close>

lemma Setup_accepted:
  assumes "k (NFPROTO_IPV4, ''anchord_v6'') = None" "\<And>ops k. accept ops k"
    and "\<And>m' k1. (\<And>fam. k1 (table_of fam) = k (table_of fam)) \<Longrightarrow> apply_ops (setup_ops m') k1 \<noteq> None"
  shows "fst (Setup (nft_flush accept) m k) = None"
proof -
  obtain sup k1 where p: "probeV6FibSupported (nft_flush accept) k = (sup, k1)" (is "?e = _")
    by (cases ?e)
  have same: "k1 (table_of fam) = k (table_of fam)" for fam
    by (rule probe_other [OF p]) (cases fam; simp add: table_of_def probe_table_def)
  have "k1 (NFPROTO_IPV4, ''anchord_v6'') = None"
    using probe_other [OF p, of "(NFPROTO_IPV4, ''anchord_v6'')"] assms(1)
    by (simp add: probe_table_def)
  then have w: "try_flush (nft_flush accept) wipe_ops k1 = (False, k1)"
    by (rule wipe_does_nothing)
  show ?thesis
    using assms(3) [OF same] by (auto simp: Setup_def p w Let_def nft_flush_def assms(2) split: option.splits)
qed

lemma Setup_fresh_succeeds:
  assumes "k (table_of V4) = None" "k (table_of V6) = None" "k (NFPROTO_IPV4, ''anchord_v6'') = None"
    and "\<And>ops k. accept ops k"
  shows "fst (Setup (nft_flush accept) m k) = None"
  by (rule Setup_accepted [where accept = accept and k = k, OF assms(3,4)]) (simp add: setup_ops_fresh assms(1,2))

lemma Setup_stale_succeeds:
  assumes "nat_inv m0 k" "k (NFPROTO_IPV4, ''anchord_v6'') = None" "\<And>ops k. accept ops k"
  shows "fst (Setup (nft_flush accept) m k) = None"
proof (rule Setup_accepted [where accept = accept and k = k, OF assms(2,3)])
  fix m' k1
  assume "\<And>fam. k1 (table_of fam) = k (table_of fam)"
  then have "nat_inv m0 k1"
    using assms(1) by (simp add: nat_inv_def nat_holds_def)
  then show "apply_ops (setup_ops m') k1 \<noteq> None"
    using setup_ops_stale [of m0 k1 m'] by (metis option.distinct(1))
qed

text \<open>A running instance with empty maps, used by the witnesses.\<close>

definition demo_mgr :: manager where
  "demo_mgr = fst (snd (Setup (nft_flush (\<lambda>_ _. True)) (nat_New ''eth0'') Map.empty))"

definition demo_kernel :: nft_kernel where
  "demo_kernel = snd (snd (Setup (nft_flush (\<lambda>_ _. True)) (nat_New ''eth0'') Map.empty))"

lemma demo_setup: "Setup (nft_flush (\<lambda>_ _. True)) (nat_New ''eth0'') Map.empty = (None, demo_mgr, demo_kernel)"
  using Setup_fresh_succeeds [of Map.empty "\<lambda>_ _. True" "nat_New ''eth0''"]
  by (simp add: demo_mgr_def demo_kernel_def prod_eq_iff)

lemma demo_inv: "nat_inv demo_mgr demo_kernel"
  by (rule Setup_fresh_inv(1) [OF _ _ _ demo_setup]) simp_all

lemma SetMap_succeeds:
  assumes "nat_inv m k" "l4_proto proto" "gm_ok es" "list_all (valid_entry fam) es"
    and "\<And>ops k. accept ops k"
  shows "fst (SetMap (nft_flush accept) m fam proto es k) = None"
proof -
  obtain tb where eq: "SetMap (nft_flush accept) m fam proto es k =
      (case setmap_loop (table_of fam, chain_name proto) fam es
          [FlushSet (table_of fam) (set_name proto), FlushChain (table_of fam) (chain_name proto)] [] of
         Inl e \<Rightarrow> (Some e, k)
       | Inr (ops, elems) \<Rightarrow>
           if accept (ops @ [SetAddElements (table_of fam) (set_name proto) elems]) k
           then (None, k(table_of fam \<mapsto> setmap_table fam proto es tb)) else (Some MapFlushFailed, k))"
    using SetMap_ready [OF assms(1-3)] by blast
  have loop: "setmap_loop ch fam es ops elems
      = Inr (ops @ map (AddRule (fst ch) (snd ch)) (xlat_rules fam es), elems @ map_elems fam es)"
    for ch ops elems
    using assms(4) by (simp add: setmap_loop_Inr_iff)
  show ?thesis by (simp add: eq loop assms(5))
qed

text \<open>A successful \<open>SetMap\<close> decides what happens to a packet: a packet that passes the
  prerouting guard, of the map's protocol and with destination port \<open>q\<close>, is sent to the address of
  the entry for \<open>q\<close>, its port rewritten exactly when the entry's port differs, and is left alone
  when there is no entry for \<open>q\<close> or the guard does not hold.\<close>

theorem SetMap_dnat:
  assumes "nat_inv m k" "gm_ok es"
    and "SetMap (nft_flush accept) m fam proto es k = (None, k')"
    and "dst_port p = Some q" "pk_l4proto p = proto_byte proto"
  shows "hook_verdict ''prerouting'' k' fam p
    = (if guard_ok m fam p then dnat_verdict fam es q else None)"
proof -
  have l4: "l4_proto proto" by (rule SetMap_ok_valid(2) [OF assms(3)])
  have inv: "nat_inv m k'" and es: "nat_holds k' fam proto es"
    using SetMap_inv [OF assms(1-3)] SetMap_holds [OF assms(1-3)] .
  obtain es_t es_u where "nat_holds k' fam ''tcp'' es_t" "nat_holds k' fam ''udp'' es_u"
    using inv unfolding nat_inv_def by (metis l4_proto_def)
  note tu = this
  from l4 show ?thesis
  proof (cases rule: l4_cases)
    case tcp
    with es hook_prerouting [OF inv assms(4) _ tu(2)] assms(5) show ?thesis
      by (simp add: proto_byte_def)
  next
    case udp
    with es hook_prerouting [OF inv assms(4) tu(1)] assms(5) show ?thesis
      by (simp add: proto_byte_def ipproto_tcp_def ipproto_udp_def)
  qed
qed

definition demo_entries :: dnat_entries where
  "demo_entries = [(443, \<lparr>TIP = [172, 18, 0, 5], TPort = 443\<rparr>), (636, \<lparr>TIP = [172, 18, 0, 6], TPort = 6636\<rparr>)]"

definition demo_packet :: "u16 \<Rightarrow> packet" where
  "demo_packet q = \<lparr>pk_iif = ifaceBytes ''eth0'', pk_oif = [], pk_l4proto = 6,
     pk_th = [200, 0] @ be16 q, pk_dst_local = True, pk_ct_status = 0\<rparr>"

lemma SetMap_dnat_witness:
  "hook_verdict ''prerouting'' (snd (SetMap (nft_flush (\<lambda>_ _. True)) demo_mgr V4 ''tcp'' demo_entries demo_kernel))
     V4 (demo_packet 636) = Some (Dnat [172, 18, 0, 6] (Some [25, 236]))"
proof -
  have "fst (SetMap (nft_flush (\<lambda>_ _. True)) demo_mgr V4 ''tcp'' demo_entries demo_kernel) = None"
    by (rule SetMap_succeeds [OF demo_inv])
      (simp_all add: l4_proto_def demo_entries_def gm_ok_def valid_entry_def fam_addr_def to4_def)
  then have run: "SetMap (nft_flush (\<lambda>_ _. True)) demo_mgr V4 ''tcp'' demo_entries demo_kernel
      = (None, snd (SetMap (nft_flush (\<lambda>_ _. True)) demo_mgr V4 ''tcp'' demo_entries demo_kernel))"
    by (simp add: prod_eq_iff)
  have ok: "gm_ok demo_entries" by (simp add: demo_entries_def gm_ok_def)
  have "dst_port (demo_packet 636) = Some 636"
    by (simp add: dst_port_eq demo_packet_def)
  from SetMap_dnat [OF demo_inv ok run this] show ?thesis
    by (simp add: demo_packet_def proto_byte_def ipproto_tcp_def guard_ok_def dnat_verdict_def
        demo_entries_def fam_addr_def to4_def be16_def)
qed

text \<open>C12. \<open>SetMap\<close> is all or nothing. On a kernel that accepts well-formed batches it succeeds
  exactly when every entry has a non-zero port and an address of the map's family; then the map
  holds exactly these entries, every other map holds what it held, and the tables stay in shape.
  Otherwise the error is one of the entries' and the kernel is unchanged.\<close>

theorem SetMap_atomic:
  assumes "nat_inv m k" "l4_proto proto" "gm_ok es" "\<And>ops k. accept ops k"
  shows "case SetMap (nft_flush accept) m fam proto es k of
      (None, k') \<Rightarrow> list_all (valid_entry fam) es \<and> nat_inv m k' \<and> nat_holds k' fam proto es
        \<and> (\<forall>fam' proto' es'. (fam', proto') \<noteq> (fam, proto) \<longrightarrow> nat_holds k fam' proto' es'
             \<longrightarrow> nat_holds k' fam' proto' es')
    | (Some e, k') \<Rightarrow> \<not> list_all (valid_entry fam) es \<and> k' = k"
proof (cases "SetMap (nft_flush accept) m fam proto es k")
  case (Pair r k')
  show ?thesis
  proof (cases r)
    case None
    then have run: "SetMap (nft_flush accept) m fam proto es k = (None, k')" using Pair by simp
    show ?thesis
      using SetMap_ok_valid(1) [OF run] SetMap_inv [OF assms(1,3) run] SetMap_holds [OF assms(1,3) run]
        SetMap_others [OF assms(1,3) run]
      by (simp add: run)
  next
    case (Some e)
    then show ?thesis
      using SetMap_failed Pair SetMap_succeeds [of m k proto es fam accept] assms by fastforce
  qed
qed

lemma SetMap_atomic_witness:
  "SetMap (nft_flush (\<lambda>_ _. True)) demo_mgr V6 ''tcp'' demo_entries demo_kernel
     = (Some (IPv4InV6Family 443 [172, 18, 0, 5]), demo_kernel)
   \<and> nat_holds (snd (SetMap (nft_flush (\<lambda>_ _. True)) demo_mgr V4 ''tcp'' demo_entries demo_kernel))
       V4 ''tcp'' demo_entries"
proof -
  have ok: "gm_ok demo_entries" "l4_proto ''tcp''" by (simp_all add: demo_entries_def gm_ok_def l4_proto_def)
  have v: "list_all (valid_entry V4) demo_entries"
    by (simp add: demo_entries_def valid_entry_def fam_addr_def to4_def)
  have r: "mgr_ready demo_mgr" using demo_inv by (simp add: nat_inv_def)
  have "fst (SetMap (nft_flush (\<lambda>_ _. True)) demo_mgr V6 ''tcp'' demo_entries demo_kernel)
      = Some (IPv4InV6Family 443 [172, 18, 0, 5])"
    by (simp add: SetMap_def ready_refs [OF r ok(2)] demo_entries_def to4_def)
  then show ?thesis
    using SetMap_atomic [OF demo_inv ok(2,1), of "\<lambda>_ _. True" V6]
      SetMap_atomic [OF demo_inv ok(2,1), of "\<lambda>_ _. True" V4] v
    by (auto split: prod.splits option.splits)
qed

text \<open>\<open>Setup\<close> in a fresh network namespace, when it returns without an error, installs both
  tables with all four maps empty, so that no packet is translated yet.\<close>

theorem Setup_installs:
  assumes "k (table_of V4) = None" "k (table_of V6) = None" "k (NFPROTO_IPV4, ''anchord_v6'') = None"
    and "Setup (nft_flush accept) m k = (None, m', k')"
  shows "nat_inv m' k' \<and> extIface m' = extIface m
    \<and> (\<forall>fam. nat_holds k' fam ''tcp'' [] \<and> nat_holds k' fam ''udp'' [])"
proof -
  have "extIface m' = extIface m"
    using Setup_ok [OF assms(4,3)] by metis
  with Setup_fresh_inv [OF assms] show ?thesis by (simp add: l4_proto_def)
qed

lemma Setup_installs_witness: "nat_inv demo_mgr demo_kernel \<and> extIface demo_mgr = ''eth0''"
  using Setup_installs [OF _ _ _ demo_setup] by (simp add: nat_New_def)

text \<open>C13. Postrouting masquerades exactly two kinds of packets: the ones that leave through the
  external interface, and the translated ones that did not come in through it (the hairpin), so
  the source address of an external client is preserved.\<close>

theorem postrouting_masquerade:
  assumes "nat_inv m k"
  shows "hook_verdict ''postrouting'' k fam p
    = (if from_iface (extIface m) (pk_oif p) \<or> \<not> from_iface (extIface m) (pk_iif p) \<and> ct_dnat p
       then Some Masquerade else None)"
  using hook_postrouting [OF assms, of fam p] by auto

lemma postrouting_masquerade_witness:
  "hook_verdict ''postrouting'' demo_kernel V6
     \<lparr>pk_iif = ifaceBytes ''eth1'', pk_oif = ifaceBytes ''eth1'', pk_l4proto = 6, pk_th = [],
      pk_dst_local = False, pk_ct_status = 32\<rparr> = Some Masquerade"
proof -
  have "extIface demo_mgr = ''eth0''"
    using Setup_ok [OF demo_setup] by (metis nat_New_def manager.select_convs(1))
  then show ?thesis
    by (simp add: postrouting_masquerade [OF demo_inv] from_iface_def ifaceBytes_def ct_dnat_def of_char_def)
qed

text \<open>\<open>Setup\<close> does not start from a known baseline: over the tables an earlier instance left
  behind, a \<open>Setup\<close> that returns without an error keeps every map as it was and appends its
  prerouting rules to the old ones, because the transaction that should wipe the tables also
  deletes tables that never exist and therefore fails as a whole.\<close>

theorem Setup_keeps_stale_state:
  assumes "nat_inv m0 k" "k (NFPROTO_IPV4, ''anchord_v6'') = None"
    and "Setup (nft_flush accept) m k = (None, m', k')"
  shows "(\<forall>proto es. nat_holds k fam proto es \<longrightarrow> nat_holds k' fam proto es)
    \<and> (\<exists>tb. k' (table_of fam) = Some tb \<and> tb_chains tb ''prerouting''
        = Some \<lparr>ch_hook = Some HookPrerouting, ch_rules = prerouting_rules m0 fam @ prerouting_rules m' fam\<rparr>)"
proof -
  obtain tb where tb: "k (table_of fam) = Some tb" "tb_base m0 fam tb"
    using assms(1) unfolding nat_inv_def by blast
  obtain k1 where k1: "\<And>fam. k1 (table_of fam) = k (table_of fam)" "apply_ops (setup_ops m') k1 = Some k'"
    using Setup_ok [OF assms(3,2)] by metis
  have inv: "nat_inv m0 k1"
    using assms(1) by (simp add: nat_inv_def nat_holds_def k1(1))
  have "k' (table_of fam) = Some (restarted m' fam tb)"
    using setup_ops_stale [OF inv, of m'] k1 tb(1) by (metis option.inject)
  then show ?thesis
    using tb restarted_holds restarted_prerouting [OF tb(2)] by (auto simp: nat_holds_def)
qed

lemma Setup_keeps_stale_state_witness:
  "nat_holds (snd (snd (Setup (nft_flush (\<lambda>_ _. True)) (nat_New ''eth0'')
      (snd (SetMap (nft_flush (\<lambda>_ _. True)) demo_mgr V4 ''tcp'' demo_entries demo_kernel)))))
     V4 ''tcp'' demo_entries"
proof -
  let ?k = "snd (SetMap (nft_flush (\<lambda>_ _. True)) demo_mgr V4 ''tcp'' demo_entries demo_kernel)"
  let ?s = "Setup (nft_flush (\<lambda>_ _. True)) (nat_New ''eth0'') ?k"
  have ok: "gm_ok demo_entries" by (simp add: demo_entries_def gm_ok_def)
  have "fst (SetMap (nft_flush (\<lambda>_ _. True)) demo_mgr V4 ''tcp'' demo_entries demo_kernel) = None"
    by (rule SetMap_succeeds [OF demo_inv])
      (simp_all add: l4_proto_def demo_entries_def gm_ok_def valid_entry_def fam_addr_def to4_def)
  then have run: "SetMap (nft_flush (\<lambda>_ _. True)) demo_mgr V4 ''tcp'' demo_entries demo_kernel = (None, ?k)"
    by (simp add: prod_eq_iff)
  obtain k1 where "apply_ops (setup_ops demo_mgr) k1 = Some demo_kernel" "k1 (NFPROTO_IPV4, ''anchord_v6'') = None"
    using Setup_ok [OF demo_setup] by auto
  then have "demo_kernel (NFPROTO_IPV4, ''anchord_v6'') = None"
    using apply_ops_other [of "setup_ops demo_mgr" k1 demo_kernel "(NFPROTO_IPV4, ''anchord_v6'')"]
    using setup_ops_tables by metis
  then have none: "?k (NFPROTO_IPV4, ''anchord_v6'') = None"
    using SetMap_ok_kernel [OF demo_inv ok run] by (auto simp: table_of_def)
  have "?s = (None, fst (snd ?s), snd (snd ?s))"
    using Setup_stale_succeeds [OF SetMap_inv [OF demo_inv ok run] none] by (simp add: prod_eq_iff)
  from Setup_keeps_stale_state [OF SetMap_inv [OF demo_inv ok run] none this]
  show ?thesis using SetMap_holds [OF demo_inv ok run] by blast
qed

end
