(* ===== verification/Reconciler.thy ===== *)
theory Reconciler
  imports Discovery NatManager
begin

section \<open>Packages reconciler and conntrack: from a snapshot to the maps\<close>

text \<open>
  \<open>src/internal/reconciler/reconciler.go\<close> and \<open>src/internal/conntrack/conntrack.go\<close>. \<open>apply\<close> is
  the code's function over any DNAT map interface (locale \<open>dnat_maps\<close> of NatManager); the
  reconciler's field \<open>last\<close> is threaded through, and the runs of the conntrack tool are its output.
  Ranging over a Go map goes through the order functions \<open>rng\<close> (see GoPrelude).

  Shown: after a successful \<open>apply\<close> the four maps hold exactly the desired targets of the snapshot,
  whatever was in them; the desired target of a port is that of the last backend that exposes it;
  the addresses flushed are the old targets that changed or vanished, each once; a failed \<open>apply\<close>
  keeps \<open>last\<close>, so that the flushes owed for the targets applied before it are made up for by the next one.
  The targets that only a failed \<open>apply\<close> has put into the kernel are in no \<open>last\<close> and are not
  flushed (\<open>interim_target_not_flushed\<close> of theory \<open>Forwarding\<close>).
\<close>

subsection \<open>The code\<close>

type_synonym dkey = "family \<times> string \<times> u16"

type_synonym desired_map = "(dkey, target) gomap"

text \<open>The innermost loop of \<open>desiredFromState\<close>: one rule of one backend.\<close>

definition desired_rule :: "backend \<Rightarrow> rule \<Rightarrow> desired_map \<Rightarrow> desired_map" where
  "desired_rule b r out =
     (let out4 = (if bk_IPv4 b \<noteq> []
                  then gm_put (V4, Proto r, Port r) \<lparr>TIP = bk_IPv4 b, TPort = BackendPort r\<rparr> out
                  else out)
      in if bk_IPv6 b \<noteq> [] \<and> SpecV6 (bk_Spec b) \<noteq> V6Off
         then gm_put (V6, Proto r, Port r) \<lparr>TIP = bk_IPv6 b, TPort = BackendPort r\<rparr> out4
         else out4)"

definition desiredFromState :: "(disc_state \<Rightarrow> disc_state) \<Rightarrow> disc_state \<Rightarrow> desired_map" where
  "desiredFromState rng st =
     foldl (\<lambda>out (i, b). foldl (\<lambda>out r. desired_rule b r out) out (Rules (bk_Spec b))) [] (rng st)"

text \<open>The entries of one family and protocol.\<close>

definition entries_for :: "(desired_map \<Rightarrow> desired_map) \<Rightarrow> family \<Rightarrow> string \<Rightarrow> desired_map \<Rightarrow> dnat_entries" where
  "entries_for rng fam proto desired =
     foldl (\<lambda>es ((f, pr, port), tgt). if f = fam \<and> pr = proto then gm_put port tgt es else es)
       [] (rng desired)"

fun push_maps :: "(family \<Rightarrow> string \<Rightarrow> dnat_entries \<Rightarrow> 'k \<Rightarrow> 'e option \<times> 'k)
    \<Rightarrow> (desired_map \<Rightarrow> desired_map) \<Rightarrow> desired_map \<Rightarrow> (family \<times> string) list \<Rightarrow> 'k \<Rightarrow> 'e option \<times> 'k" where
  "push_maps set_map rng desired [] k = (None, k)"
| "push_maps set_map rng desired ((fam, proto) # rest) k =
     (case set_map fam proto (entries_for rng fam proto desired) k of
        (Some e, k') \<Rightarrow> (Some e, k')
      | (None, k') \<Rightarrow> push_maps set_map rng desired rest k')"

definition map_order :: "(family \<times> string) list" where
  "map_order = [(V4, ''tcp''), (V4, ''udp''), (V6, ''tcp''), (V6, ''udp'')]"

text \<open>\<open>conntrack.FlushDestination\<close>: the command it runs, if any.\<close>

definition FlushDestination :: "net_ip \<Rightarrow> string list option" where
  "FlushDestination ip =
     (if ip = [] then None else Some [''conntrack'', ''-d'', ip_string ip, ''-D''])"

definition tgt_changed :: "target \<Rightarrow> target option \<Rightarrow> bool" where
  "tgt_changed oldTgt newTgt =
     (case newTgt of None \<Rightarrow> True
      | Some t \<Rightarrow> \<not> ip_equal (TIP oldTgt) (TIP t) \<or> TPort oldTgt \<noteq> TPort t)"

text \<open>The flush loop over the last applied map: the addresses flushed, in order.\<close>

fun flush_loop :: "desired_map \<Rightarrow> desired_map \<Rightarrow> string list \<Rightarrow> net_ip list" where
  "flush_loop desired [] flushed = []"
| "flush_loop desired ((key, oldTgt) # rest) flushed =
     (if tgt_changed oldTgt (map_of desired key) then
        (let s = ip_string (TIP oldTgt) in
         if s \<in> set flushed then flush_loop desired rest flushed
         else TIP oldTgt # flush_loop desired rest (s # flushed))
      else flush_loop desired rest flushed)"

record reconciler = rec_last :: desired_map

definition reconciler_New :: reconciler where
  "reconciler_New = \<lparr>rec_last = []\<rparr>"

text \<open>The error, the kernel, the reconciler, and the addresses flushed.\<close>

definition reconcile_apply :: "(family \<Rightarrow> string \<Rightarrow> dnat_entries \<Rightarrow> 'k \<Rightarrow> 'e option \<times> 'k)
    \<Rightarrow> (disc_state \<Rightarrow> disc_state) \<Rightarrow> (desired_map \<Rightarrow> desired_map)
    \<Rightarrow> disc_state \<Rightarrow> reconciler \<Rightarrow> 'k \<Rightarrow> 'e option \<times> 'k \<times> reconciler \<times> net_ip list" where
  "reconcile_apply set_map rngS rngD st r k =
     (let desired = desiredFromState rngS st in
      case push_maps set_map rngD desired map_order k of
        (Some e, k') \<Rightarrow> (Some e, k', r, [])
      | (None, k') \<Rightarrow> (None, k', r\<lparr>rec_last := desired\<rparr>, flush_loop desired (rngD (rec_last r)) []))"

text \<open>
  \<open>Run\<close> over the states received before the channel closes: kernel, reconciler, the number of calls
  of \<open>OnReconciled\<close>, and all addresses flushed.
\<close>

fun reconcile_Run :: "(family \<Rightarrow> string \<Rightarrow> dnat_entries \<Rightarrow> 'k \<Rightarrow> 'e option \<times> 'k)
    \<Rightarrow> (disc_state \<Rightarrow> disc_state) \<Rightarrow> (desired_map \<Rightarrow> desired_map)
    \<Rightarrow> disc_state list \<Rightarrow> reconciler \<Rightarrow> 'k \<Rightarrow> 'k \<times> reconciler \<times> nat \<times> net_ip list" where
  "reconcile_Run set_map rngS rngD [] r k = (k, r, 0, [])"
| "reconcile_Run set_map rngS rngD (st # sts) r k =
     (case reconcile_apply set_map rngS rngD st r k of (err, k1, r1, fl1) \<Rightarrow>
       (case reconcile_Run set_map rngS rngD sts r1 k1 of (k2, r2, n, fl2) \<Rightarrow>
          (k2, r2, (if err = None then Suc n else n), fl1 @ fl2)))"

subsection \<open>The desired map\<close>

lemma desired_rule_ok: "gm_ok out \<Longrightarrow> gm_ok (desired_rule b r out)"
  by (simp add: desired_rule_def Let_def)

lemma desired_rules_ok: "gm_ok out \<Longrightarrow> gm_ok (foldl (\<lambda>out r. desired_rule b r out) out rs)"
  by (induction rs arbitrary: out) (simp_all add: desired_rule_ok)

lemma desired_ok [simp]: "gm_ok (desiredFromState rng st)"
proof -
  have "gm_ok out \<Longrightarrow> gm_ok (foldl (\<lambda>out (i, b). foldl (\<lambda>out r. desired_rule b r out) out (Rules (bk_Spec b))) out xs)" for out xs
    by (induction xs arbitrary: out) (auto simp: desired_rules_ok)
  from this [OF gm_ok_Nil] show ?thesis unfolding desiredFromState_def .
qed

lemma entries_for_ok [simp]: "gm_ok (entries_for rng fam proto d)"
proof -
  have "gm_ok es \<Longrightarrow> gm_ok (foldl (\<lambda>es ((f, pr, port), tgt). if f = fam \<and> pr = proto
      then gm_put port tgt es else es) es xs)" for es xs
    by (induction xs arbitrary: es) auto
  from this [OF gm_ok_Nil] show ?thesis unfolding entries_for_def .
qed

lemma entries_fold_lookup:
  "gm_ok xs \<Longrightarrow> map_of (foldl (\<lambda>es ((f, pr, port), tgt). if f = fam \<and> pr = proto
      then gm_put port tgt es else es) es xs) q
   = (case map_of xs (fam, proto, q) of None \<Rightarrow> map_of es q | Some t \<Rightarrow> Some t)"
proof (induction xs arbitrary: es)
  case Nil
  then show ?case by simp
next
  case (Cons x xs)
  obtain f pr port t where x: "x = ((f, pr, port), t)" by (cases x) auto
  have none: "map_of xs (f, pr, port) = None"
    using Cons.prems by (simp add: gm_ok_def x map_of_eq_None_iff)
  have ok: "gm_ok xs" using Cons.prems by (simp add: gm_ok_def)
  show ?case
    using Cons.IH [OF ok] none by (auto simp: x split: option.split)
qed

lemma entries_for_lookup:
  assumes "range_perm rng" "gm_ok d"
  shows "map_of (entries_for rng fam proto d) q = map_of d (fam, proto, q)"
  using entries_fold_lookup [of "rng d" fam proto "[]" q] assms
  by (simp add: entries_for_def split: option.split)

text \<open>The target a backend asks for at a key: the last of its rules for that key decides.\<close>

definition backend_addr :: "backend \<Rightarrow> family \<Rightarrow> net_ip" where
  "backend_addr b fam = (case fam of V4 \<Rightarrow> bk_IPv4 b
     | V6 \<Rightarrow> if SpecV6 (bk_Spec b) = V6Off then [] else bk_IPv6 b)"

definition backend_target :: "backend \<Rightarrow> dkey \<Rightarrow> target option" where
  "backend_target b key = (case key of (fam, proto, port) \<Rightarrow>
     if backend_addr b fam = [] then None
     else map_option (\<lambda>r. \<lparr>TIP = backend_addr b fam, TPort = BackendPort r\<rparr>)
            (find (\<lambda>r. Proto r = proto \<and> Port r = port) (rev (Rules (bk_Spec b)))))"

lemma desired_rule_lookup:
  "map_of (desired_rule b r out) (fam, proto, port)
    = (if backend_addr b fam \<noteq> [] \<and> Proto r = proto \<and> Port r = port
       then Some \<lparr>TIP = backend_addr b fam, TPort = BackendPort r\<rparr> else map_of out (fam, proto, port))"
  by (cases fam) (auto simp: desired_rule_def Let_def backend_addr_def)

lemma find_append: "find P (xs @ ys) = (case find P xs of None \<Rightarrow> find P ys | Some x \<Rightarrow> Some x)"
  by (induction xs) auto

lemma desired_rules_lookup:
  "map_of (foldl (\<lambda>out r. desired_rule b r out) out rs) (fam, proto, port)
    = (if backend_addr b fam = [] then map_of out (fam, proto, port)
       else case find (\<lambda>r. Proto r = proto \<and> Port r = port) (rev rs) of
         None \<Rightarrow> map_of out (fam, proto, port)
       | Some r \<Rightarrow> Some \<lparr>TIP = backend_addr b fam, TPort = BackendPort r\<rparr>)"
  by (induction rs arbitrary: out) (auto simp: desired_rule_lookup find_append split: option.split)

lemma backend_step:
  "map_of (foldl (\<lambda>out r. desired_rule b r out) out (Rules (bk_Spec b))) key
    = (case backend_target b key of None \<Rightarrow> map_of out key | Some t \<Rightarrow> Some t)"
  by (cases key) (auto simp: desired_rules_lookup backend_target_def split: option.split)

text \<open>Over all backends, in the order of the range: the last one that exposes the key decides.\<close>

fun last_target :: "disc_state \<Rightarrow> dkey \<Rightarrow> target option" where
  "last_target [] key = None"
| "last_target ((i, b) # xs) key =
     (case last_target xs key of Some t \<Rightarrow> Some t | None \<Rightarrow> backend_target b key)"

lemma desired_lookup: "map_of (desiredFromState rng st) key = last_target (rng st) key"
proof -
  have "map_of (foldl (\<lambda>out (i, b). foldl (\<lambda>out r. desired_rule b r out) out (Rules (bk_Spec b))) out xs) key
    = (case last_target xs key of None \<Rightarrow> map_of out key | Some t \<Rightarrow> Some t)" for out xs
  proof (induction xs arbitrary: out)
    case Nil
    then show ?case by simp
  next
    case (Cons x xs)
    obtain i b where x: "x = (i, b)" by (cases x)
    show ?case by (auto simp: x backend_step Cons.IH split: option.split)
  qed
  from this [of "[]"] show ?thesis
    by (simp add: desiredFromState_def split: option.split)
qed

subsection \<open>Addresses that are equal print the same\<close>

lemma ip_string_equal: "ip_equal a b \<Longrightarrow> ip_string a = ip_string b"
proof -
  have *: "ip_string a = ip_string b" if "length a = 4" "length b = 16" "take 12 b = v4in6_prefix" "a = drop 12 b"
    for a b :: net_ip
  proof -
    have "to4 b = a" "to4 a = a" "a \<noteq> []" "b \<noteq> []" using that by (auto simp: to4_def)
    with that show ?thesis by (simp add: ip_string_def)
  qed
  assume "ip_equal a b"
  then consider "a = b" | "length a = 4" "length b = 16" "take 12 b = v4in6_prefix" "a = drop 12 b"
    | "length b = 4" "length a = 16" "take 12 a = v4in6_prefix" "b = drop 12 a"
    unfolding ip_equal_def by metis
  then show ?thesis
    by cases (use * in \<open>blast, blast, metis\<close>)
qed

lemma ip_equal_chain: "ip_equal a b \<Longrightarrow> ip_equal b c \<Longrightarrow> ip_equal a c"
  by (simp add: ip_equal_def split: if_splits) (metis append_take_drop_id)+

lemma unchanged_trans:
  "\<not> tgt_changed t (Some t1) \<Longrightarrow> \<not> tgt_changed t1 new \<Longrightarrow> \<not> tgt_changed t new"
  by (auto simp: tgt_changed_def ip_equal_chain split: option.splits)

subsection \<open>Flushing\<close>

lemma flush_loop_strings:
  "ip_string ` set (flush_loop d old fl) \<union> set fl
    = ip_string ` TIP ` {t. \<exists>key. (key, t) \<in> set old \<and> tgt_changed t (map_of d key)} \<union> set fl"
proof (induction d old fl rule: flush_loop.induct)
  case (1 d fl)
  then show ?case by simp
next
  case (2 d key t rest fl)
  let ?S = "\<lambda>old. {t. \<exists>key. (key, t) \<in> set old \<and> tgt_changed t (map_of d key)}"
  show ?case
  proof (cases "tgt_changed t (map_of d key)")
    case False
    then have "?S ((key, t) # rest) = ?S rest" by auto
    with 2 False show ?thesis by simp
  next
    case True
    then have S: "?S ((key, t) # rest) = insert t (?S rest)"
      by (auto simp del: split_paired_Ex)
    show ?thesis
    proof (cases "ip_string (TIP t) \<in> set fl")
      case dup: True
      have "flush_loop d ((key, t) # rest) fl = flush_loop d rest fl"
        using True dup by (simp add: Let_def)
      moreover have "ip_string ` set (flush_loop d rest fl) \<union> set fl = ip_string ` TIP ` ?S rest \<union> set fl"
        using 2 True dup by (simp add: Let_def del: split_paired_Ex)
      ultimately show ?thesis
        unfolding S using dup by (simp add: insert_absorb del: split_paired_Ex)
    next
      case new: False
      have "flush_loop d ((key, t) # rest) fl = TIP t # flush_loop d rest (ip_string (TIP t) # fl)"
        using True new by (simp add: Let_def)
      moreover have "ip_string ` set (flush_loop d rest (ip_string (TIP t) # fl)) \<union> set (ip_string (TIP t) # fl)
          = ip_string ` TIP ` ?S rest \<union> set (ip_string (TIP t) # fl)"
        using 2 True new by (simp add: Let_def del: split_paired_Ex)
      ultimately show ?thesis
        unfolding S by (simp del: split_paired_Ex)
    qed
  qed
qed

lemma flush_loop_sound:
  "ip \<in> set (flush_loop d old fl) \<Longrightarrow> \<exists>key t. (key, t) \<in> set old \<and> tgt_changed t (map_of d key) \<and> ip = TIP t"
  by (induction d old fl rule: flush_loop.induct) (auto simp: Let_def split: if_splits)

lemma flush_loop_distinct:
  "distinct (map ip_string (flush_loop d old fl)) \<and> set fl \<inter> ip_string ` set (flush_loop d old fl) = {}"
  by (induction d old fl rule: flush_loop.induct) (auto simp: Let_def)

lemma flush_loop_complete:
  assumes "map_of old key = Some t" "tgt_changed t (map_of d key)"
  shows "ip_string (TIP t) \<in> ip_string ` set (flush_loop d old [])"
  using flush_loop_strings [of d old "[]"] map_of_SomeD [OF assms(1)] assms(2)
  by (simp del: split_paired_Ex) blast

subsection \<open>Pushing the maps\<close>

context dnat_maps
begin

lemma push_maps_ok:
  assumes "push_maps set_map rng d ms k = (None, k')" "maps_inv k" "distinct ms"
  shows "maps_inv k' \<and> (\<forall>(fam, proto) \<in> set ms. holds k' fam proto (entries_for rng fam proto d))
    \<and> (\<forall>fam proto es. (fam, proto) \<notin> set ms \<longrightarrow> holds k fam proto es \<longrightarrow> holds k' fam proto es)"
  using assms
proof (induction ms arbitrary: k)
  case Nil
  then show ?case by simp
next
  case (Cons m ms)
  obtain fam proto where m: "m = (fam, proto)" by (cases m)
  obtain k1 where run: "set_map fam proto (entries_for rng fam proto d) k = (None, k1)"
    and rest: "push_maps set_map rng d ms k1 = (None, k')"
    using Cons.prems(1) by (auto simp: m split: prod.splits option.splits)
  have inv1: "maps_inv k1"
    by (rule set_map_inv [OF Cons.prems(2) _ run]) simp
  have holds1: "holds k1 fam proto (entries_for rng fam proto d)"
    by (rule set_map_holds [OF Cons.prems(2) _ run]) simp
  have others: "holds k1 f p es" if "(f, p) \<noteq> (fam, proto)" "holds k f p es" for f p es
    by (rule set_map_others [OF Cons.prems(2) _ run that]) simp
  from Cons.IH [OF rest inv1] Cons.prems(3) holds1 others show ?case
    by (auto simp: m)
qed

lemma apply_installs:
  assumes "reconcile_apply set_map rngS rngD st r k = (None, k', r', fl)" "maps_inv k" "l4_proto proto"
  shows "maps_inv k' \<and> holds k' fam proto (entries_for rngD fam proto (desiredFromState rngS st))"
proof -
  have "push_maps set_map rngD (desiredFromState rngS st) map_order k = (None, k')"
    using assms(1) by (auto simp: reconcile_apply_def Let_def split: prod.splits option.splits)
  from push_maps_ok [OF this assms(2)] assms(3) show ?thesis
    by (cases fam) (auto simp: map_order_def l4_proto_def)
qed

end

lemma apply_ok_last:
  assumes "reconcile_apply set_map rngS rngD st r k = (None, k', r', fl)"
  shows "rec_last r' = desiredFromState rngS st"
    and "fl = flush_loop (desiredFromState rngS st) (rngD (rec_last r)) []"
  using assms by (auto simp: reconcile_apply_def Let_def split: prod.splits option.splits)

lemma apply_error_keeps:
  assumes "reconcile_apply set_map rngS rngD st r k = (Some e, k', r', fl)"
  shows "r' = r \<and> fl = []"
  using assms by (auto simp: reconcile_apply_def Let_def split: prod.splits option.splits)

lemma apply_ok_gm:
  "gm_ok (rec_last r) \<Longrightarrow> reconcile_apply set_map rngS rngD st r k = (err, k', r', fl) \<Longrightarrow> gm_ok (rec_last r')"
  using apply_ok_last(1) apply_error_keeps by (cases err) fastforce+

subsection \<open>Properties of the component\<close>

text \<open>C14. Conntrack after a reconcile: a successful \<open>apply\<close> flushes the address of every old target
  that changed or vanished, flushes nothing else, and flushes no address twice.\<close>

theorem apply_flushes:
  assumes "reconcile_apply set_map rngS rngD st r k = (None, k', r', fl)"
    and "range_perm rngD" "gm_ok (rec_last r)"
  shows "distinct (map ip_string fl)
    \<and> (\<forall>ip \<in> set fl. \<exists>key t. map_of (rec_last r) key = Some t
         \<and> tgt_changed t (last_target (rngS st) key) \<and> ip = TIP t)
    \<and> (\<forall>key t. map_of (rec_last r) key = Some t \<longrightarrow> tgt_changed t (last_target (rngS st) key)
         \<longrightarrow> ip_string (TIP t) \<in> ip_string ` set fl)"
proof -
  note fl = apply_ok_last(2) [OF assms(1)]
  have lookup: "map_of (rngD (rec_last r)) = map_of (rec_last r)"
    using assms(2,3) by simp
  have mem: "(key, t) \<in> set (rngD (rec_last r)) \<longleftrightarrow> map_of (rec_last r) key = Some t" for key t
    using assms(2,3) by (simp add: gm_in_set)
  show ?thesis
  proof (intro conjI ballI allI impI)
    show "distinct (map ip_string fl)"
      unfolding fl using flush_loop_distinct by blast
  next
    fix ip
    assume "ip \<in> set fl"
    then show "\<exists>key t. map_of (rec_last r) key = Some t \<and> tgt_changed t (last_target (rngS st) key) \<and> ip = TIP t"
      unfolding fl using flush_loop_sound mem desired_lookup by metis
  next
    fix key t
    assume "map_of (rec_last r) key = Some t" "tgt_changed t (last_target (rngS st) key)"
    then show "ip_string (TIP t) \<in> ip_string ` set fl"
      unfolding fl using flush_loop_complete [of "rngD (rec_last r)" key t] lookup desired_lookup by metis
  qed
qed

text \<open>C15. A change of what has been applied is flushed, however many reconciles fail on the way. Over any run of reconciles,
  whenever a target that the last successful reconcile before the run had applied is not what the last successful one
  in the run has applied, its address has been flushed during the run. This is relative to what reconciles without
  an error have applied: a target which only a failed reconcile has brought into the kernel is not flushed
  when it goes.\<close>

theorem Run_flushes_applied_changes:
  assumes "reconcile_Run set_map rngS rngD sts r k = (k', r', n, fl)"
    and "range_perm rngD" "gm_ok (rec_last r)"
    and "map_of (rec_last r) key = Some t" "tgt_changed t (map_of (rec_last r') key)"
  shows "ip_string (TIP t) \<in> ip_string ` set fl"
  using assms(1,3,4,5)
proof (induction sts arbitrary: r k t n fl)
  case Nil
  then show ?case by (simp add: tgt_changed_def)
next
  case (Cons st sts)
  obtain err k1 r1 fl1 where step: "reconcile_apply set_map rngS rngD st r k = (err, k1, r1, fl1)"
    by (cases "reconcile_apply set_map rngS rngD st r k")
  obtain n2 fl2 where rest: "reconcile_Run set_map rngS rngD sts r1 k1 = (k', r', n2, fl2)"
    and fl: "fl = fl1 @ fl2"
    using Cons.prems(1) unfolding reconcile_Run.simps step prod.case
    by (cases "reconcile_Run set_map rngS rngD sts r1 k1") (clarsimp simp only: prod.case prod.inject)
  have gm1: "gm_ok (rec_last r1)" by (rule apply_ok_gm [OF Cons.prems(2) step])
  show ?case
  proof (cases err)
    case (Some e)
    then have "r1 = r" using apply_error_keeps [OF step [unfolded Some]] by simp
    with Cons.IH [OF rest gm1] Cons.prems(3,4) have "ip_string (TIP t) \<in> ip_string ` set fl2" by simp
    then show ?thesis unfolding fl by auto
  next
    case None
    note step = step [unfolded None]
    show ?thesis
    proof (cases "tgt_changed t (map_of (rec_last r1) key)")
      case True
      have "map_of (rngD (rec_last r)) key = Some t"
        using assms(2) Cons.prems(2,3) by simp
      then show ?thesis
        using flush_loop_complete [of "rngD (rec_last r)" key t "rec_last r1"] True
          apply_ok_last [OF step] by (auto simp: fl)
    next
      case False
      then obtain t1 where t1: "map_of (rec_last r1) key = Some t1" "\<not> tgt_changed t (Some t1)"
        by (cases "map_of (rec_last r1) key") (auto simp: tgt_changed_def)
      then have "tgt_changed t1 (map_of (rec_last r') key)"
        using Cons.prems(4) unchanged_trans by blast
      with Cons.IH [OF rest gm1 t1(1)] have "ip_string (TIP t1) \<in> ip_string ` set fl2" by simp
      moreover have "ip_string (TIP t1) = ip_string (TIP t)"
        using t1(2) ip_string_equal by (auto simp: tgt_changed_def)
      ultimately show ?thesis by (auto simp: fl)
    qed
  qed
qed
lemma last_target_sound: "last_target xs key = Some t \<Longrightarrow> \<exists>(i, b) \<in> set xs. backend_target b key = Some t"
  by (induction xs key rule: last_target.induct) (auto split: option.splits)

lemma last_target_complete: "(i, b) \<in> set xs \<Longrightarrow> backend_target b key \<noteq> None \<Longrightarrow> last_target xs key \<noteq> None"
  by (induction xs key rule: last_target.induct) (auto split: option.splits)

text \<open>Without port conflicts the desired map does not depend on the order Go ranges over the
  backends: a family, protocol and port are mapped exactly when some backend of the snapshot
  exposes the port and has an address of the family (and has not switched IPv6 off), and the
  target is that backend's address and the backend port of its last rule for the port.\<close>

theorem desired_exact:
  assumes "range_perm rng" "gm_ok st"
    and "\<And>i j b c. map_of st i = Some b \<Longrightarrow> map_of st j = Some c
      \<Longrightarrow> backend_target b key \<noteq> None \<Longrightarrow> backend_target c key \<noteq> None \<Longrightarrow> i = j"
  shows "map_of (desiredFromState rng st) key = Some t
    \<longleftrightarrow> (\<exists>i b. map_of st i = Some b \<and> backend_target b key = Some t)"
proof -
  have mem: "(i, b) \<in> set (rng st) \<longleftrightarrow> map_of st i = Some b" for i b
    using assms(1,2) by (simp add: gm_in_set)
  show ?thesis
  proof
    assume "map_of (desiredFromState rng st) key = Some t"
    then show "\<exists>i b. map_of st i = Some b \<and> backend_target b key = Some t"
      using last_target_sound [of "rng st" key t] unfolding desired_lookup by (auto simp: mem) blast
  next
    assume "\<exists>i b. map_of st i = Some b \<and> backend_target b key = Some t"
    then obtain i b where b: "map_of st i = Some b" "backend_target b key = Some t" by blast
    have "(i, b) \<in> set (rng st)" using b(1) mem by simp
    then obtain t' where t': "last_target (rng st) key = Some t'"
      using last_target_complete [of i b "rng st" key] b(2) by auto
    from last_target_sound [OF this] obtain j c where c: "map_of st j = Some c" "backend_target c key = Some t'"
      using mem by auto
    have "i = j" using assms(3) [OF b(1) c(1)] b(2) c(2) by simp
    then show "map_of (desiredFromState rng st) key = Some t"
      using b c t' by (simp add: desired_lookup)
  qed
qed

definition demo_backend :: "string \<Rightarrow> net_ip \<Rightarrow> u16 \<Rightarrow> backend" where
  "demo_backend i ip bp = \<lparr>bk_ID = i, bk_Name = i, bk_IPv4 = ip, bk_IPv6 = [],
     bk_Spec = \<lparr>Rules = [\<lparr>Proto = ''tcp'', Port = 443, BackendPort = bp\<rparr>], SpecV6 = V6Auto\<rparr>\<rparr>"

lemma desired_exact_witness:
  "map_of (desiredFromState rev [(''a'', demo_backend ''a'' [172, 18, 0, 5] 8443)]) (V4, ''tcp'', 443)
     = Some \<lparr>TIP = [172, 18, 0, 5], TPort = 8443\<rparr>"
  by (subst desired_exact) (auto simp: gm_ok_def demo_backend_def backend_target_def backend_addr_def
      split: if_splits)

text \<open>With a port conflict the target does depend on that order, which Go leaves unspecified:
  two containers that expose the same port, and two orders of the range, give two targets.\<close>

theorem desired_depends_on_range_order:
  "\<exists>st rng rng' key. gm_ok st \<and> range_perm rng \<and> range_perm rng'
     \<and> map_of (desiredFromState rng st) key \<noteq> map_of (desiredFromState rng' st) key"
proof (intro exI conjI)
  let ?st = "[(''a'', demo_backend ''a'' [172, 18, 0, 5] 443), (''b'', demo_backend ''b'' [172, 18, 0, 6] 443)]"
  show "gm_ok ?st" by (simp add: gm_ok_def)
  show "range_perm (\<lambda>xs :: disc_state. xs)" "range_perm (rev :: disc_state \<Rightarrow> disc_state)" by simp_all
  show "map_of (desiredFromState (\<lambda>xs. xs) ?st) (V4, ''tcp'', 443)
      \<noteq> map_of (desiredFromState rev ?st) (V4, ''tcp'', 443)"
    by (simp add: desired_lookup demo_backend_def backend_target_def backend_addr_def)
qed

lemma apply_flushes_witness:
  "snd (snd (snd (reconcile_apply (\<lambda>fam proto es k. (None :: nat_error option, k)) (\<lambda>xs. xs) (\<lambda>xs. xs)
      [(''a'', demo_backend ''a'' [172, 18, 0, 6] 443)]
      \<lparr>rec_last = [((V4, ''tcp'', 443), \<lparr>TIP = [172, 18, 0, 5], TPort = 443\<rparr>)]\<rparr> demo_kernel)))
   = [[172, 18, 0, 5]]"
proof -
  let ?r = "\<lparr>rec_last = [((V4, ''tcp'', 443), \<lparr>TIP = [172, 18, 0, 5], TPort = 443\<rparr>)]\<rparr>"
  let ?st = "[(''a'', demo_backend ''a'' [172, 18, 0, 6] 443)]"
  obtain k' r' fl where run: "reconcile_apply (\<lambda>fam proto es k. (None :: nat_error option, k)) (\<lambda>xs. xs) (\<lambda>xs. xs)
      ?st ?r demo_kernel = (None, k', r', fl)"
    by (simp add: reconcile_apply_def map_order_def Let_def)
  have "tgt_changed \<lparr>TIP = [172, 18, 0, 5], TPort = 443\<rparr> (last_target ?st (V4, ''tcp'', 443))"
    by (simp add: demo_backend_def backend_target_def backend_addr_def tgt_changed_def ip_equal_def)
  with apply_flushes [OF run] have "distinct (map ip_string fl)" "\<forall>ip \<in> set fl. ip = [172, 18, 0, 5]"
    "ip_string [172, 18, 0, 5] \<in> ip_string ` set fl"
    by (auto simp: gm_ok_def split: if_splits)
  then have "fl = [[172, 18, 0, 5]]"
    by (cases fl rule: remdups_adj.cases) auto
  then show ?thesis using run by simp
qed

lemma Run_flushes_applied_changes_witness:
  "ip_string [172, 18, 0, 5] \<in> ip_string ` set (snd (snd (snd
     (reconcile_Run (\<lambda>fam proto es k. (None :: nat_error option, k)) (\<lambda>xs. xs) (\<lambda>xs. xs) [[], []]
      \<lparr>rec_last = [((V4, ''tcp'', 443), \<lparr>TIP = [172, 18, 0, 5], TPort = 443\<rparr>)]\<rparr> demo_kernel))))"
proof -
  let ?r = "\<lparr>rec_last = [((V4, ''tcp'', 443), \<lparr>TIP = [172, 18, 0, 5], TPort = 443\<rparr>)]\<rparr>"
  let ?o = "reconcile_Run (\<lambda>fam proto es k. (None :: nat_error option, k)) (\<lambda>xs. xs) (\<lambda>xs. xs)
      [[], []] ?r demo_kernel"
  have run: "?o = (fst ?o, fst (snd ?o), fst (snd (snd ?o)), snd (snd (snd ?o)))" by simp
  have last: "rec_last (fst (snd ?o)) = []"
    by (simp add: reconcile_apply_def map_order_def Let_def desiredFromState_def)
  show ?thesis
    by (rule Run_flushes_applied_changes [OF run, of "(V4, ''tcp'', 443)" "\<lparr>TIP = [172, 18, 0, 5], TPort = 443\<rparr>", simplified target.simps])
      (simp_all only: last, simp_all add: gm_ok_def tgt_changed_def)
qed

subsection \<open>When a reconcile succeeds\<close>

lemma push_maps_succeeds:
  assumes "nat_inv m k" "\<And>ops k. accept ops k"
    and "\<forall>(f, p) \<in> set ms. l4_proto p \<and> list_all (valid_entry f) (entries_for rng f p d)"
  shows "fst (push_maps (SetMap (nft_flush accept) m) rng d ms k) = None"
  using assms(1,3)
proof (induction ms arbitrary: k)
  case Nil
  then show ?case by simp
next
  case (Cons x ms)
  obtain f p where x: "x = (f, p)" by (cases x)
  have "l4_proto p" "list_all (valid_entry f) (entries_for rng f p d)"
    using Cons.prems(2) x by simp_all
  then have "fst (SetMap (nft_flush accept) m f p (entries_for rng f p d) k) = None"
    by (rule SetMap_succeeds [OF Cons.prems(1) _ entries_for_ok _ assms(2)])
  then obtain k1 where run: "SetMap (nft_flush accept) m f p (entries_for rng f p d) k = (None, k1)"
    by (cases "SetMap (nft_flush accept) m f p (entries_for rng f p d) k") simp
  have "nat_inv m k1" by (rule SetMap_inv [OF Cons.prems(1) entries_for_ok run])
  then show ?case using Cons by (simp add: x run)
qed

text \<open>A backend as the discovery reports it, with addresses of the right families.\<close>

definition wf_backend :: "backend \<Rightarrow> bool" where
  "wf_backend b \<longleftrightarrow> list_all wf_rule (Rules (bk_Spec b))
     \<and> (bk_IPv4 b = [] \<or> to4 (bk_IPv4 b) \<noteq> [])
     \<and> (bk_IPv6 b = [] \<or> to4 (bk_IPv6 b) = [] \<and> to16 (bk_IPv6 b) \<noteq> [])"

lemma backend_target_valid:
  assumes "wf_backend b" "backend_target b (fam, proto, port) = Some t"
  shows "valid_entry fam (port, t)"
proof -
  obtain r where r: "find (\<lambda>r. Proto r = proto \<and> Port r = port) (rev (Rules (bk_Spec b))) = Some r"
    and t: "t = \<lparr>TIP = backend_addr b fam, TPort = BackendPort r\<rparr>" "backend_addr b fam \<noteq> []"
    using assms(2) by (auto simp: backend_target_def split: if_splits)
  have "r \<in> set (Rules (bk_Spec b))"
    using r by (auto simp: find_Some_iff) (metis length_rev nth_mem set_rev)
  then have "wf_rule r" using assms(1) by (auto simp: wf_backend_def list_all_iff)
  then show ?thesis
    using t assms(1) by (cases fam)
      (auto simp: valid_entry_def wf_rule_def fam_addr_def backend_addr_def wf_backend_def split: if_splits)
qed

lemma desired_entries_valid:
  assumes "range_perm rngS" "range_perm rngD" "\<forall>(i, b) \<in> set st. wf_backend b"
  shows "list_all (valid_entry f) (entries_for rngD f p (desiredFromState rngS st))"
proof -
  have "valid_entry f (q, t)" if "(q, t) \<in> set (entries_for rngD f p (desiredFromState rngS st))" for q t
  proof -
    have "map_of (entries_for rngD f p (desiredFromState rngS st)) q = Some t"
      using that by (simp add: gm_in_set [OF entries_for_ok, symmetric])
    then have "last_target (rngS st) (f, p, q) = Some t"
      using assms(2) by (simp add: entries_for_lookup desired_lookup)
    from last_target_sound [OF this] obtain i b where
      "(i, b) \<in> set st" "backend_target b (f, p, q) = Some t"
      using assms(1) by auto
    then show ?thesis using backend_target_valid assms(3) by blast
  qed
  then show ?thesis by (auto simp: list_all_iff)
qed

text \<open>C11. A reconcile does not fail on its own: on a kernel that accepts well-formed batches, and for
  backends with parsed rules and addresses of the right families, \<open>apply\<close> returns no error.\<close>

theorem apply_succeeds:
  assumes "nat_inv m k" "\<And>ops k. accept ops k" "range_perm rngS" "range_perm rngD"
    and "\<forall>(i, b) \<in> set st. wf_backend b"
  shows "fst (reconcile_apply (SetMap (nft_flush accept) m) rngS rngD st r k) = None"
proof -
  have "fst (push_maps (SetMap (nft_flush accept) m) rngD (desiredFromState rngS st) map_order k) = None"
    using desired_entries_valid [OF assms(3-5)] by (intro push_maps_succeeds [OF assms(1,2)]) (auto simp: map_order_def l4_proto_def)
  then show ?thesis
    by (auto simp: reconcile_apply_def Let_def split: prod.splits option.splits)
qed

lemma apply_succeeds_witness:
  "fst (reconcile_apply (SetMap (nft_flush (\<lambda>_ _. True)) demo_mgr) (\<lambda>xs. xs) rev
     [(''a'', demo_backend ''a'' [172, 18, 0, 5] 8443)] reconciler_New demo_kernel) = None"
  by (rule apply_succeeds [OF demo_inv])
    (simp_all add: wf_backend_def demo_backend_def wf_rule_def to4_def)

end
