(* ===== verification/Forwarding.thy ===== *)
theory Forwarding
  imports Reconciler
begin

section \<open>The network anchor as a forwarding table\<close>

text \<open>
  What the parts promise together. The abstract state is a forwarding table: for each family and
  protocol, the entries in force. A reconcile refines one abstract step, which replaces the table of
  the first \<open>j\<close> maps in the order the code pushes them; all of them exactly when it returns no error.

  The runs of the anchor are an inductive relation: a fresh start, then reconciles of any snapshots,
  with any range orders, each transaction accepted or refused as the kernel likes. By rule induction
  over it, every entry in force was exposed by a snapshot the anchor has received, so no packet
  is ever sent anywhere else.
\<close>

subsection \<open>The abstract table\<close>

type_synonym fwd_table = "family \<Rightarrow> string \<Rightarrow> dnat_entries"

definition fwd_rel :: "nft_kernel \<Rightarrow> fwd_table \<Rightarrow> bool" where
  "fwd_rel k T \<longleftrightarrow> (\<forall>fam proto. l4_proto proto \<longrightarrow> nat_holds k fam proto (T fam proto))"

definition fwd_push :: "(family \<times> string) list \<Rightarrow> fwd_table \<Rightarrow> fwd_table \<Rightarrow> fwd_table" where
  "fwd_push ms new T = (\<lambda>fam proto. if (fam, proto) \<in> set ms then new fam proto else T fam proto)"

definition fwd_desired :: "(disc_state \<Rightarrow> disc_state) \<Rightarrow> (desired_map \<Rightarrow> desired_map) \<Rightarrow> disc_state \<Rightarrow> fwd_table" where
  "fwd_desired rngS rngD st = (\<lambda>fam proto. entries_for rngD fam proto (desiredFromState rngS st))"

subsection \<open>Refinement\<close>

context dnat_maps
begin

lemma push_maps_prefix:
  assumes "push_maps set_map rng d ms k = (e, k')" "maps_inv k" "distinct ms"
  shows "\<exists>j \<le> length ms. (e = None \<longleftrightarrow> j = length ms) \<and> maps_inv k'
    \<and> (\<forall>(fam, proto) \<in> set (take j ms). holds k' fam proto (entries_for rng fam proto d))
    \<and> (\<forall>fam proto es. (fam, proto) \<notin> set (take j ms) \<longrightarrow> holds k fam proto es \<longrightarrow> holds k' fam proto es)"
  using assms
proof (induction ms arbitrary: k)
  case Nil
  then show ?case by simp
next
  case (Cons m ms)
  obtain fam proto where m: "m = (fam, proto)" by (cases m)
  obtain r k1 where run: "set_map fam proto (entries_for rng fam proto d) k = (r, k1)"
    by (cases "set_map fam proto (entries_for rng fam proto d) k")
  show ?case
  proof (cases r)
    case (Some x)
    then have "e = Some x" "k' = k"
      using Cons.prems(1) run set_map_failed [of fam proto "entries_for rng fam proto d" k x k1] by (auto simp: m)
    with Cons.prems(2) show ?thesis by (intro exI [of _ 0]) simp
  next
    case None
    note run = run [unfolded None]
    have rest: "push_maps set_map rng d ms k1 = (e, k')" using Cons.prems(1) run by (simp add: m)
    have inv1: "maps_inv k1" by (rule set_map_inv [OF Cons.prems(2) _ run]) simp
    have holds1: "holds k1 fam proto (entries_for rng fam proto d)"
      by (rule set_map_holds [OF Cons.prems(2) _ run]) simp
    have others: "holds k1 f p es" if "(f, p) \<noteq> (fam, proto)" "holds k f p es" for f p es
      by (rule set_map_others [OF Cons.prems(2) _ run that]) simp
    obtain j where j: "j \<le> length ms" "e = None \<longleftrightarrow> j = length ms" "maps_inv k'"
      "\<forall>(fam, proto) \<in> set (take j ms). holds k' fam proto (entries_for rng fam proto d)"
      "\<forall>fam proto es. (fam, proto) \<notin> set (take j ms) \<longrightarrow> holds k1 fam proto es \<longrightarrow> holds k' fam proto es"
      using Cons.IH [OF rest inv1] Cons.prems(3) by auto
    have "m \<notin> set (take j ms)" using Cons.prems(3) set_take_subset [of j ms] by auto
    with j holds1 others show ?thesis
      by (intro exI [of _ "Suc j"]) (auto simp: m)
  qed
qed

lemma apply_prefix:
  assumes "reconcile_apply set_map rngS rngD st r k = (e, k', r', fl)" "maps_inv k"
  shows "\<exists>j \<le> length map_order. (e = None \<longleftrightarrow> j = length map_order) \<and> maps_inv k'
    \<and> (\<forall>(fam, proto) \<in> set (take j map_order). holds k' fam proto (entries_for rngD fam proto (desiredFromState rngS st)))
    \<and> (\<forall>fam proto es. (fam, proto) \<notin> set (take j map_order) \<longrightarrow> holds k fam proto es \<longrightarrow> holds k' fam proto es)"
proof -
  have "push_maps set_map rngD (desiredFromState rngS st) map_order k = (e, k')"
    using assms(1) by (auto simp: reconcile_apply_def Let_def split: prod.splits option.splits)
  then show ?thesis by (rule push_maps_prefix [OF _ assms(2)]) (simp add: map_order_def)
qed

lemma run_inv:
  "maps_inv k \<Longrightarrow> maps_inv (fst (reconcile_Run set_map rngS rngD sts r k))"
proof (induction sts arbitrary: r k)
  case (Cons st sts)
  obtain e k1 r1 fl where ap: "reconcile_apply set_map rngS rngD st r k = (e, k1, r1, fl)"
    by (cases "reconcile_apply set_map rngS rngD st r k")
  have "maps_inv k1" using apply_prefix [OF ap Cons.prems] by blast
  from Cons.IH [OF this, of r1] ap show ?case
    by (cases "reconcile_Run set_map rngS rngD sts r1 k1") simp
qed simp

end

text \<open>C10. A reconcile refines one step of the abstract forwarding table: from a kernel that implements a
  table, it leads to one that implements that table with the entries of the snapshot in its first
  \<open>j\<close> maps (in the order IPv4 tcp, udp, IPv6 tcp, udp), the others being as they were; \<open>j\<close> is all four
  exactly when there is no error, and only then the snapshot becomes the one that the next flushes are
  computed from.\<close>

theorem reconcile_refines:
  assumes "nat_inv m k" "fwd_rel k T"
    and "reconcile_apply (SetMap (nft_flush accept) m) rngS rngD st r k = (e, k', r', fl)"
  shows "\<exists>j \<le> 4. (e = None \<longleftrightarrow> j = 4) \<and> nat_inv m k'
    \<and> fwd_rel k' (fwd_push (take j map_order) (fwd_desired rngS rngD st) T)
    \<and> rec_last r' = (if j = 4 then desiredFromState rngS st else rec_last r)"
proof -
  obtain j where j: "j \<le> length map_order" "e = None \<longleftrightarrow> j = length map_order" "nat_inv m k'"
    "\<forall>(fam, proto) \<in> set (take j map_order). nat_holds k' fam proto (entries_for rngD fam proto (desiredFromState rngS st))"
    "\<forall>fam proto es. (fam, proto) \<notin> set (take j map_order) \<longrightarrow> nat_holds k fam proto es \<longrightarrow> nat_holds k' fam proto es"
    using nat_maps.apply_prefix [OF assms(3,1)] by blast
  have "length map_order = 4" by (simp add: map_order_def)
  moreover have "fwd_rel k' (fwd_push (take j map_order) (fwd_desired rngS rngD st) T)"
    using j(4,5) assms(2) by (auto simp: fwd_rel_def fwd_push_def fwd_desired_def)
  moreover have "rec_last r' = (if e = None then desiredFromState rngS st else rec_last r)"
    using apply_ok_last(1) apply_error_keeps assms(3) by (cases e) fastforce+
  ultimately show ?thesis using j(1-3) by metis
qed

text \<open>
  Only what a reconcile has applied without an error is compared by the next one. A reconcile that is refused
  after its first map has put new targets in the kernel nevertheless; when the snapshot before it comes again, they
  leave the kernel, and no address is flushed for them.
\<close>

lemma interim_target_not_flushed:
  assumes "nat_inv m k" "range_perm rngD"
    and "reconcile_apply (SetMap (nft_flush acc1) m) rngS rngD stA r k = (None, k1, r1, fl1)"
    and "reconcile_apply (SetMap (nft_flush acc2) m) rngS rngD stB r1 k1 = (Some e, k2, r2, fl2)"
    and "fst (SetMap (nft_flush acc2) m V4 ''tcp'' (entries_for rngD V4 ''tcp'' (desiredFromState rngS stB)) k1) = None"
    and "reconcile_apply (SetMap (nft_flush acc3) m) rngS rngD stA r2 k2 = (None, k3, r3, fl3)"
  shows "nat_holds k1 V4 ''tcp'' (entries_for rngD V4 ''tcp'' (desiredFromState rngS stA))
    \<and> nat_holds k2 V4 ''tcp'' (entries_for rngD V4 ''tcp'' (desiredFromState rngS stB))
    \<and> nat_holds k3 V4 ''tcp'' (entries_for rngD V4 ''tcp'' (desiredFromState rngS stA)) \<and> fl2 = [] \<and> fl3 = []"
proof -
  let ?A = "desiredFromState rngS stA" and ?B = "desiredFromState rngS stB"
  have tcp: "l4_proto ''tcp''" by (simp add: l4_proto_def)
  note inst1 = nat_maps.apply_installs [OF assms(3,1) tcp, of V4]
  have r2: "r2 = r1" "fl2 = []" using apply_error_keeps [OF assms(4)] by simp_all
  obtain ka where first: "SetMap (nft_flush acc2) m V4 ''tcp'' (entries_for rngD V4 ''tcp'' ?B) k1 = (None, ka)"
    using assms(5) by (cases "SetMap (nft_flush acc2) m V4 ''tcp'' (entries_for rngD V4 ''tcp'' ?B) k1") simp
  have inv1: "nat_inv m k1" using inst1 ..
  have inva: "nat_inv m ka" and holds: "nat_holds ka V4 ''tcp'' (entries_for rngD V4 ''tcp'' ?B)"
    using nat_maps.set_map_inv [OF inv1 _ first] nat_maps.set_map_holds [OF inv1 _ first] by simp_all
  have "push_maps (SetMap (nft_flush acc2) m) rngD ?B map_order k1 = (Some e, k2)"
    using assms(4) by (auto simp: reconcile_apply_def Let_def split: prod.splits option.splits)
  then have rest: "push_maps (SetMap (nft_flush acc2) m) rngD ?B (tl map_order) ka = (Some e, k2)"
    by (simp add: map_order_def first)
  have "distinct (tl map_order)" by (simp add: map_order_def)
  from nat_maps.push_maps_prefix [OF rest inva this] obtain j where j: "nat_inv m k2"
    "\<forall>fam proto es. (fam, proto) \<notin> set (take j (tl map_order)) \<longrightarrow> nat_holds ka fam proto es \<longrightarrow> nat_holds k2 fam proto es"
    by blast
  have "(V4, ''tcp'') \<notin> set (tl map_order)" by (simp add: map_order_def)
  then have "(V4, ''tcp'') \<notin> set (take j (tl map_order))" using set_take_subset [of j "tl map_order"] by blast
  with j(2) holds have k2: "nat_holds k2 V4 ''tcp'' (entries_for rngD V4 ''tcp'' ?B)" by blast
  have "fl3 = flush_loop ?A (rngD ?A) []"
    using apply_ok_last(2) [OF assms(6)] apply_ok_last(1) [OF assms(3)] by (simp add: r2)
  moreover have "\<not> tgt_changed t (map_of ?A key)" if "(key, t) \<in> set (rngD ?A)" for key t
    using that assms(2) by (simp add: gm_in_set [OF desired_ok] tgt_changed_def)
  ultimately have "fl3 = []" using flush_loop_sound [of _ ?A "rngD ?A" "[]"] by (metis last_in_set)
  with inst1 k2 nat_maps.apply_installs [OF assms(6) j(1) tcp, of V4] r2(2) show ?thesis by simp
qed

subsection \<open>Runs\<close>

inductive na_reach :: "manager \<Rightarrow> disc_state set \<Rightarrow> nft_kernel \<Rightarrow> reconciler \<Rightarrow> bool" for m where
  started: "k0 (table_of V4) = None \<Longrightarrow> k0 (table_of V6) = None \<Longrightarrow> k0 (NFPROTO_IPV4, ''anchord_v6'') = None
    \<Longrightarrow> Setup (nft_flush accept) (nat_New iface) k0 = (None, m, k) \<Longrightarrow> na_reach m {} k reconciler_New"
| reconciled: "na_reach m S k r \<Longrightarrow> range_perm rngS \<Longrightarrow> range_perm rngD
    \<Longrightarrow> reconcile_apply (SetMap (nft_flush accept) m) rngS rngD st r k = (e, k', r', fl)
    \<Longrightarrow> na_reach m (insert st S) k' r'"

inductive_cases na_reach_emptyE: "na_reach m {} k r"

text \<open>Before the first snapshot the reconciler is new and the tables are those of \<open>Setup\<close>.\<close>

lemma na_reach_empty:
  assumes "na_reach m {} k r"
  shows "r = reconciler_New \<and> (\<exists>accept iface k0. Setup (nft_flush accept) (nat_New iface) k0 = (None, m, k))"
  using assms by (rule na_reach_emptyE) (rule conjI, assumption, (rule exI)+)

definition exposes :: "backend \<Rightarrow> family \<Rightarrow> string \<Rightarrow> u16 \<Rightarrow> target \<Rightarrow> bool" where
  "exposes b fam proto q t \<longleftrightarrow> backend_addr b fam \<noteq> [] \<and> TIP t = backend_addr b fam
     \<and> (\<exists>r \<in> set (Rules (bk_Spec b)). Proto r = proto \<and> Port r = q \<and> TPort t = BackendPort r)"

lemma find_member: "find P xs = Some x \<Longrightarrow> x \<in> set xs \<and> P x"
  by (induction xs) (auto split: if_splits)

lemma last_target_exposes:
  "last_target xs (fam, proto, q) = Some t \<Longrightarrow> \<exists>(i, b) \<in> set xs. exposes b fam proto q t"
proof (induction xs)
  case (Cons x xs)
  then show ?case
    by (cases x) (auto simp: backend_target_def exposes_def split: option.splits if_splits dest!: find_member)
qed simp

definition justified :: "disc_state set \<Rightarrow> fwd_table \<Rightarrow> bool" where
  "justified S T \<longleftrightarrow> (\<forall>fam proto q t. map_of (T fam proto) q = Some t
     \<longrightarrow> (\<exists>st \<in> S. \<exists>(i, b) \<in> set st. exposes b fam proto q t))"

lemma justified_push:
  assumes "justified S T" "range_perm rngS" "range_perm rngD"
  shows "justified (insert st S) (fwd_push ms (fwd_desired rngS rngD st) T)"
  unfolding justified_def
proof (intro allI impI)
  fix fam proto q t
  assume look: "map_of (fwd_push ms (fwd_desired rngS rngD st) T fam proto) q = Some t"
  show "\<exists>st' \<in> insert st S. \<exists>(i, b) \<in> set st'. exposes b fam proto q t"
  proof (cases "(fam, proto) \<in> set ms")
    case True
    then have "last_target (rngS st) (fam, proto, q) = Some t"
      using look assms(3) by (simp add: fwd_push_def fwd_desired_def entries_for_lookup desired_lookup)
    from last_target_exposes [OF this] assms(2) show ?thesis by simp
  next
    case False
    then have "map_of (T fam proto) q = Some t" using look by (simp add: fwd_push_def)
    with assms(1) have "\<exists>st' \<in> S. \<exists>(i, b) \<in> set st'. exposes b fam proto q t"
      unfolding justified_def by blast
    then show ?thesis by blast
  qed
qed

text \<open>The invariant, by rule induction.\<close>

lemma na_reach_inv:
  "na_reach m S k r \<Longrightarrow> nat_inv m k \<and> (\<exists>T. fwd_rel k T \<and> justified S T)"
proof (induction rule: na_reach.induct)
  case (started k0 accept iface k)
  have "fwd_rel k (\<lambda>_ _. [])"
    using Setup_fresh_inv(2) [OF started] by (simp add: fwd_rel_def)
  moreover have "justified {} (\<lambda>_ _. [])" by (simp add: justified_def)
  ultimately show ?case using Setup_fresh_inv(1) [OF started] by blast
next
  case (reconciled S k r rngS rngD accept st e k' r' fl)
  then obtain T where T: "nat_inv m k" "fwd_rel k T" "justified S T" by blast
  obtain j where "nat_inv m k'"
    "\<forall>(fam, proto) \<in> set (take j map_order). nat_holds k' fam proto (entries_for rngD fam proto (desiredFromState rngS st))"
    "\<forall>fam proto es. (fam, proto) \<notin> set (take j map_order) \<longrightarrow> nat_holds k fam proto es \<longrightarrow> nat_holds k' fam proto es"
    using nat_maps.apply_prefix [OF reconciled(4) T(1)] by blast
  moreover from this have "fwd_rel k' (fwd_push (take j map_order) (fwd_desired rngS rngD st) T)"
    using T(2) by (auto simp: fwd_rel_def fwd_push_def fwd_desired_def)
  ultimately show ?case using justified_push [OF T(3) reconciled(2,3)] by blast
qed

text \<open>C5. Whatever snapshots a freshly started network anchor has received, and whichever of its
  transactions the kernel has refused on the way, a tcp or udp packet is only ever sent to an address
  and port that a backend of one of these snapshots exposed for the packet's own destination port; it
  never reaches anything else.\<close>

theorem only_exposed_targets:
  assumes "na_reach m S k r" "l4_proto proto" "pk_l4proto p = proto_byte proto" "dst_port p = Some q"
    and "hook_verdict ''prerouting'' k fam p = Some v"
  shows "\<exists>st \<in> S. \<exists>(i, b) \<in> set st. \<exists>t. exposes b fam proto q t
    \<and> v = Dnat (fam_addr fam (TIP t)) (if TPort t = q then None else Some (be16 (TPort t)))"
proof -
  obtain T where T: "nat_inv m k" "fwd_rel k T" "justified S T" using na_reach_inv [OF assms(1)] by blast
  have l4: "l4_proto ''tcp''" "l4_proto ''udp''" by (simp_all add: l4_proto_def)
  have "dnat_verdict fam (T fam proto) q = Some v"
    using hook_prerouting [OF T(1) assms(4), of fam "T fam ''tcp''" "T fam ''udp''"] T(2) l4 assms(2,3,5)
    by (auto simp: fwd_rel_def l4_proto_def proto_byte_def ipproto_tcp_def ipproto_udp_def split: if_splits)
  then obtain t where t: "map_of (T fam proto) q = Some t"
    "v = Dnat (fam_addr fam (TIP t)) (if TPort t = q then None else Some (be16 (TPort t)))"
    by (auto simp: dnat_verdict_def split: option.splits)
  from T(3) t(1) obtain st i b where "st \<in> S" "(i, b) \<in> set st" "exposes b fam proto q t"
    unfolding justified_def by blast
  with t(2) show ?thesis by blast
qed

subsection \<open>Witnesses\<close>

definition demo_snapshot :: disc_state where
  "demo_snapshot = [(''a'', demo_backend ''a'' [172, 18, 0, 5] 8443)]"

lemma demo_start: "na_reach demo_mgr {} demo_kernel reconciler_New"
  by (rule na_reach.started [where accept = "\<lambda>_ _. True" and iface = "''eth0''", OF _ _ _ demo_setup]) simp_all

lemma demo_reconcile:
  obtains k' r' fl where
    "reconcile_apply (SetMap (nft_flush (\<lambda>_ _. True)) demo_mgr) (\<lambda>xs. xs) rev demo_snapshot reconciler_New demo_kernel
      = (None, k', r', fl)"
proof -
  let ?o = "reconcile_apply (SetMap (nft_flush (\<lambda>_ _. True)) demo_mgr) (\<lambda>xs. xs) rev demo_snapshot reconciler_New demo_kernel"
  have "fst ?o = None"
    using push_maps_succeeds [OF demo_inv, of "\<lambda>_ _. True" map_order rev "desiredFromState (\<lambda>xs. xs) demo_snapshot"]
    by (auto simp: reconcile_apply_def Let_def map_order_def l4_proto_def entries_for_def desiredFromState_def
        desired_rule_def demo_snapshot_def demo_backend_def gm_put_def valid_entry_def fam_addr_def to4_def
        split: prod.splits option.splits)
  then show thesis using that by (cases ?o) simp
qed

lemma reconcile_refines_witness:
  "\<exists>k'. fwd_rel k' (fwd_push map_order (fwd_desired (\<lambda>xs. xs) rev demo_snapshot) (\<lambda>_ _. []))"
proof -
  obtain k' r' fl where run: "reconcile_apply (SetMap (nft_flush (\<lambda>_ _. True)) demo_mgr) (\<lambda>xs. xs) rev
      demo_snapshot reconciler_New demo_kernel = (None, k', r', fl)" by (rule demo_reconcile)
  have "fwd_rel demo_kernel (\<lambda>_ _. [])"
    using Setup_fresh_inv(2) [OF _ _ _ demo_setup] by (simp add: fwd_rel_def)
  from reconcile_refines [OF demo_inv this run] show ?thesis by (auto simp: map_order_def)
qed

lemma only_exposed_targets_witness:
  "\<exists>k r. na_reach demo_mgr {demo_snapshot} k r
    \<and> hook_verdict ''prerouting'' k V4 (demo_packet 443) = Some (Dnat [172, 18, 0, 5] (Some [32, 251]))
    \<and> (\<exists>(i, b) \<in> set demo_snapshot. \<exists>t. exposes b V4 ''tcp'' 443 t)"
proof -
  obtain k' r' fl where run: "reconcile_apply (SetMap (nft_flush (\<lambda>_ _. True)) demo_mgr) (\<lambda>xs. xs) rev
      demo_snapshot reconciler_New demo_kernel = (None, k', r', fl)" by (rule demo_reconcile)
  have reach: "na_reach demo_mgr {demo_snapshot} k' r'"
    by (rule na_reach.reconciled [OF demo_start _ _ run]) simp_all
  have port: "dst_port (demo_packet 443) = Some 443" by (simp add: dst_port_eq demo_packet_def)
  note inst = nat_maps.apply_installs [OF run demo_inv]
  have l4: "l4_proto ''tcp''" "l4_proto ''udp''" by (simp_all add: l4_proto_def)
  have "map_of (entries_for rev V4 ''tcp'' (desiredFromState (\<lambda>xs. xs) demo_snapshot)) 443
      = Some \<lparr>TIP = [172, 18, 0, 5], TPort = 8443\<rparr>"
    by (simp add: entries_for_lookup desired_lookup demo_snapshot_def demo_backend_def backend_target_def backend_addr_def)
  then have v: "hook_verdict ''prerouting'' k' V4 (demo_packet 443) = Some (Dnat [172, 18, 0, 5] (Some [32, 251]))"
    using hook_prerouting [OF conjunct1 [OF inst [OF l4(1)]] port
        conjunct2 [OF inst [OF l4(1), where fam = V4]] conjunct2 [OF inst [OF l4(2), where fam = V4]]]
    by (simp add: demo_packet_def guard_ok_def dnat_verdict_def fam_addr_def to4_def be16_def ipproto_tcp_def)
  have "pk_l4proto (demo_packet 443) = proto_byte ''tcp''" by (simp add: demo_packet_def proto_byte_def ipproto_tcp_def)
  from only_exposed_targets [OF reach l4(1) this port v]
  have "\<exists>(i, b) \<in> set demo_snapshot. \<exists>t. exposes b V4 ''tcp'' 443 t" by blast
  with reach v show ?thesis by blast
qed

end
