(* ===== verification/NetlinkRoutes.thy ===== *)
theory NetlinkRoutes
  imports GoNet
begin

section \<open>The environment of the route managers: netlink\<close>

text \<open>
  The kernel's routing tables and the netlink library are not part of the repository. This theory
  states what the route managers rely on: a table per family is a list, \<open>RouteReplace\<close> puts the
  route in the place of the one with the same destination and priority, or before the first one of
  a lower priority, \<open>RouteDel\<close> removes the first route with the same destination and gateway, and
  each call may be refused. Which calls are refused is part of the state, so the theorems hold for
  every pattern of failures.
\<close>

datatype af = AF_INET | AF_INET6

record nl_route =
  rt_dst :: "(net_ip \<times> nat) option"   \<comment> \<open>address and prefix length\<close>
  rt_gw :: net_ip
  rt_prio :: nat

record netns =
  ns_routes :: "af \<Rightarrow> nl_route list"
  ns_list_fails :: "af \<Rightarrow> bool"
  ns_add_fails :: "af \<Rightarrow> nl_route \<Rightarrow> bool"
  ns_del_fails :: "af \<Rightarrow> nl_route \<Rightarrow> bool"

definition is_default_dst :: "(net_ip \<times> nat) option \<Rightarrow> bool" where
  "is_default_dst d = (case d of None \<Rightarrow> True | Some (ip, ones) \<Rightarrow> ones = 0)"

definition same_dst :: "nl_route \<Rightarrow> nl_route \<Rightarrow> bool" where
  "same_dst a b \<longleftrightarrow> is_default_dst (rt_dst a) \<and> is_default_dst (rt_dst b) \<or> rt_dst a = rt_dst b"

fun replace_in :: "nl_route \<Rightarrow> nl_route list \<Rightarrow> nl_route list" where
  "replace_in r [] = [r]"
| "replace_in r (x # xs) =
     (if same_dst r x \<and> rt_prio r = rt_prio x then r # xs
      else if same_dst r x \<and> rt_prio r < rt_prio x then r # x # xs
      else x # replace_in r xs)"

fun delete_in :: "nl_route \<Rightarrow> nl_route list \<Rightarrow> nl_route list option" where
  "delete_in r [] = None"
| "delete_in r (x # xs) =
     (if same_dst r x \<and> ip_equal (rt_gw r) (rt_gw x) then Some xs
      else map_option (\<lambda>ys. x # ys) (delete_in r xs))"

definition set_routes :: "af \<Rightarrow> nl_route list \<Rightarrow> netns \<Rightarrow> netns" where
  "set_routes fam rs ns = ns\<lparr>ns_routes := (ns_routes ns)(fam := rs)\<rparr>"

definition RouteList :: "af \<Rightarrow> netns \<Rightarrow> nl_route list option" where
  "RouteList fam ns = (if ns_list_fails ns fam then None else Some (ns_routes ns fam))"

definition RouteReplace :: "af \<Rightarrow> nl_route \<Rightarrow> netns \<Rightarrow> bool \<times> netns" where
  "RouteReplace fam r ns =
     (if ns_add_fails ns fam r then (False, ns)
      else (True, set_routes fam (replace_in r (ns_routes ns fam)) ns))"

definition RouteDel :: "af \<Rightarrow> nl_route \<Rightarrow> netns \<Rightarrow> bool \<times> netns" where
  "RouteDel fam r ns =
     (if ns_del_fails ns fam r then (False, ns)
      else (case delete_in r (ns_routes ns fam) of None \<Rightarrow> (False, ns)
            | Some rs \<Rightarrow> (True, set_routes fam rs ns)))"

lemma set_routes_simps [simp]:
  "ns_routes (set_routes fam rs ns) fam' = (if fam' = fam then rs else ns_routes ns fam')"
  "ns_list_fails (set_routes fam rs ns) = ns_list_fails ns"
  "ns_add_fails (set_routes fam rs ns) = ns_add_fails ns"
  "ns_del_fails (set_routes fam rs ns) = ns_del_fails ns"
  by (simp_all add: set_routes_def)

subsection \<open>The interface of a default-route table\<close>

text \<open>
  What the clients rely on. \<open>cur\<close> reads the gateway of the default route (the empty address for
  none), \<open>replace\<close> installs one: after it the reader sees an equal gateway, the other family is
  untouched, and a refused call changes nothing.
\<close>

locale default_router =
  fixes cur :: "af \<Rightarrow> 'n \<Rightarrow> net_ip option"
    and replace :: "af \<Rightarrow> net_ip \<Rightarrow> 'n \<Rightarrow> bool \<times> 'n"
  assumes replace_failed: "replace fam gw n = (False, n') \<Longrightarrow> n' = n"
    and replace_cur: "replace fam gw n = (True, n') \<Longrightarrow> gw \<noteq> [] \<Longrightarrow> cur fam n' = Some g
      \<Longrightarrow> g \<noteq> [] \<and> ip_equal g gw"
    and replace_other: "replace fam gw n = (True, n') \<Longrightarrow> fam' \<noteq> fam \<Longrightarrow> cur fam' n' = cur fam' n"
    and replace_readable: "replace fam gw n = (True, n') \<Longrightarrow> cur fam n \<noteq> None \<Longrightarrow> cur fam n' \<noteq> None"

end
