(* ===== verification/ExtRoute.thy ===== *)
theory ExtRoute
  imports NetlinkRoutes
begin

section \<open>Package extroute: the default route of the network anchor\<close>

text \<open>
  \<open>src/internal/extroute/extroute.go\<close>. The loop of \<open>Run\<close> is a function of the sequence of what its
  \<open>select\<close> receives; \<open>ErDrift\<close> stands for anything else that happens to the network namespace
  between two rounds. The other families than IPv4 and IPv6 are not represented.

  Shown: the gateway the manager wants is the last one DHCP has pushed, else the pin, else the
  IPAM gateway of Docker; after every tick, whatever happened before, the default route is the one
  it wants, unless the kernel refuses it.
\<close>

subsection \<open>The router\<close>

definition v4_zero :: net_ip where "v4_zero = v4in6_prefix @ [0, 0, 0, 0]"

definition v6_zero :: net_ip where "v6_zero = replicate 16 0"

definition is_unspecified :: "net_ip \<Rightarrow> bool" where
  "is_unspecified ip \<longleftrightarrow> ip_equal ip v4_zero \<or> ip_equal ip v6_zero"

definition er_isAllZerosCIDR :: "(net_ip \<times> nat) option \<Rightarrow> bool" where
  "er_isAllZerosCIDR n = (case n of None \<Rightarrow> False | Some (ip, ones) \<Rightarrow> ones = 0 \<and> is_unspecified ip)"

definition er_defaultRouteFor :: "af \<Rightarrow> net_ip \<Rightarrow> nl_route option" where
  "er_defaultRouteFor family gw =
     (case family of
        AF_INET \<Rightarrow> if to4 gw = [] then None
                   else Some \<lparr>rt_dst = Some (v4_zero, 0), rt_gw = to4 gw, rt_prio = 0\<rparr>
      | AF_INET6 \<Rightarrow> if to4 gw \<noteq> [] then None
                    else Some \<lparr>rt_dst = Some (v6_zero, 0), rt_gw = gw, rt_prio = 0\<rparr>)"

fun er_first_gateway :: "nl_route list \<Rightarrow> net_ip" where
  "er_first_gateway [] = []"
| "er_first_gateway (r # rs) =
     (if (rt_dst r = None \<or> er_isAllZerosCIDR (rt_dst r)) \<and> rt_gw r \<noteq> [] then rt_gw r
      else er_first_gateway rs)"

definition CurrentDefaultGateway :: "af \<Rightarrow> netns \<Rightarrow> net_ip option" where
  "CurrentDefaultGateway family ns =
     (case RouteList family ns of None \<Rightarrow> None | Some routes \<Rightarrow> Some (er_first_gateway routes))"

definition er_ReplaceDefaultRoute :: "af \<Rightarrow> net_ip \<Rightarrow> netns \<Rightarrow> bool \<times> netns" where
  "er_ReplaceDefaultRoute family gw ns =
     (case er_defaultRouteFor family gw of None \<Rightarrow> (False, ns)
      | Some r \<Rightarrow> RouteReplace family r ns)"

subsection \<open>The manager\<close>

record er_manager =
  er_extNetwork :: string
  pinV4 :: net_ip
  pinV6 :: net_ip
  er_interval :: int
  dynSrc_open :: bool
  ipamV4 :: net_ip
  ipamV6 :: net_ip
  dynV4 :: net_ip

definition DefaultInsistInterval :: int where
  "DefaultInsistInterval = 5000000000"

definition er_New :: "string \<Rightarrow> net_ip \<Rightarrow> net_ip \<Rightarrow> bool \<Rightarrow> int \<Rightarrow> er_manager" where
  "er_New extNetwork pin4 pin6 has_src interval =
     \<lparr>er_extNetwork = extNetwork, pinV4 = pin4, pinV6 = pin6,
      er_interval = (if interval \<le> 0 then DefaultInsistInterval else interval),
      dynSrc_open = has_src, ipamV4 = [], ipamV6 = [], dynV4 = []\<rparr>"

definition effectiveV4 :: "er_manager \<Rightarrow> net_ip" where
  "effectiveV4 m = (if dynV4 m \<noteq> [] then dynV4 m else if pinV4 m \<noteq> [] then pinV4 m else ipamV4 m)"

definition effectiveV6 :: "er_manager \<Rightarrow> net_ip" where
  "effectiveV6 m = (if pinV6 m \<noteq> [] then pinV6 m else ipamV6 m)"

text \<open>\<open>assert\<close> over any router.\<close>

definition er_assert :: "(af \<Rightarrow> 'n \<Rightarrow> net_ip option) \<Rightarrow> (af \<Rightarrow> net_ip \<Rightarrow> 'n \<Rightarrow> bool \<times> 'n)
    \<Rightarrow> af \<Rightarrow> net_ip \<Rightarrow> 'n \<Rightarrow> 'n" where
  "er_assert cur replace family gw n =
     (if gw = [] then n
      else let c = (case cur family n of None \<Rightarrow> [] | Some g \<Rightarrow> g) in
      if c \<noteq> [] \<and> ip_equal c gw then n
      else snd (replace family gw n))"

definition assertAll :: "(af \<Rightarrow> 'n \<Rightarrow> net_ip option) \<Rightarrow> (af \<Rightarrow> net_ip \<Rightarrow> 'n \<Rightarrow> bool \<times> 'n)
    \<Rightarrow> er_manager \<Rightarrow> 'n \<Rightarrow> 'n" where
  "assertAll cur replace m n =
     er_assert cur replace AF_INET6 (effectiveV6 m) (er_assert cur replace AF_INET (effectiveV4 m) n)"

text \<open>\<open>dockerInspector.Gateways\<close>: the loop over the IPAM configurations of the network.\<close>

fun ipam_loop :: "string list \<Rightarrow> net_ip \<Rightarrow> net_ip \<Rightarrow> net_ip \<times> net_ip" where
  "ipam_loop [] v4 v6 = (v4, v6)"
| "ipam_loop (cfg # cfgs) v4 v6 =
     (let gw = parse_ip cfg in
      if gw = [] then ipam_loop cfgs v4 v6
      else if to4 gw \<noteq> [] \<and> v4 = [] then ipam_loop cfgs (to4 gw) v6
      else if to4 gw = [] \<and> v6 = [] then ipam_loop cfgs v4 gw
      else ipam_loop cfgs v4 v6)"

definition Gateways :: "(string \<Rightarrow> string list option) \<Rightarrow> string \<Rightarrow> (net_ip \<times> net_ip) option" where
  "Gateways networkInspect name =
     (case networkInspect name of None \<Rightarrow> None | Some cfgs \<Rightarrow> Some (ipam_loop cfgs [] []))"

datatype 'n er_event = ErTick | ErDyn net_ip | ErDynClosed | ErDrift 'n

definition er_start :: "(string \<Rightarrow> (net_ip \<times> net_ip) option) \<Rightarrow> er_manager \<Rightarrow> er_manager" where
  "er_start gateways m =
     (if er_extNetwork m \<noteq> [] \<and> (pinV4 m = [] \<or> pinV6 m = []) then
        (case gateways (er_extNetwork m) of None \<Rightarrow> m
         | Some (v4, v6) \<Rightarrow> m\<lparr>ipamV4 := v4, ipamV6 := v6\<rparr>)
      else m)"

fun er_step :: "(af \<Rightarrow> 'n \<Rightarrow> net_ip option) \<Rightarrow> (af \<Rightarrow> net_ip \<Rightarrow> 'n \<Rightarrow> bool \<times> 'n)
    \<Rightarrow> 'n er_event \<Rightarrow> er_manager \<times> 'n \<Rightarrow> er_manager \<times> 'n" where
  "er_step cur replace ErTick (m, n) = (m, assertAll cur replace m n)"
| "er_step cur replace (ErDrift n') (m, n) = (m, n')"
| "er_step cur replace ErDynClosed (m, n) = (m\<lparr>dynSrc_open := False\<rparr>, n)"
| "er_step cur replace (ErDyn gw) (m, n) =
     (if \<not> dynSrc_open m then (m, n)
      else if gw = [] \<or> to4 gw = [] then (m, n)
      else let m' = m\<lparr>dynV4 := to4 gw\<rparr> in (m', er_assert cur replace AF_INET (effectiveV4 m') n))"

definition er_Run :: "(af \<Rightarrow> 'n \<Rightarrow> net_ip option) \<Rightarrow> (af \<Rightarrow> net_ip \<Rightarrow> 'n \<Rightarrow> bool \<times> 'n)
    \<Rightarrow> (string \<Rightarrow> (net_ip \<times> net_ip) option) \<Rightarrow> 'n er_event list \<Rightarrow> er_manager \<Rightarrow> 'n \<Rightarrow> er_manager \<times> 'n" where
  "er_Run cur replace gateways evs m n =
     (let m0 = er_start gateways m in
      foldl (\<lambda>s e. er_step cur replace e s) (m0, assertAll cur replace m0 n) evs)"

subsection \<open>Over any router\<close>

context default_router
begin

text \<open>The default route is the wanted one, or the kernel has refused it.\<close>

definition settled_on :: "af \<Rightarrow> net_ip \<Rightarrow> 'n \<Rightarrow> bool" where
  "settled_on fam gw n \<longleftrightarrow> (case cur fam n of None \<Rightarrow> True | Some g \<Rightarrow> g \<noteq> [] \<and> ip_equal g gw)
     \<or> \<not> fst (replace fam gw n)"

lemma assert_settles: "gw \<noteq> [] \<Longrightarrow> settled_on fam gw (er_assert cur replace fam gw n)"
proof -
  assume gw: "gw \<noteq> []"
  obtain ok n' where r: "replace fam gw n = (ok, n')" by (cases "replace fam gw n")
  show ?thesis
  proof (cases "\<exists>g. cur fam n = Some g \<and> g \<noteq> [] \<and> ip_equal g gw")
    case True
    then show ?thesis using gw by (auto simp: er_assert_def settled_on_def)
  next
    case False
    then have "er_assert cur replace fam gw n = n'"
      using gw by (auto simp: er_assert_def r split: option.split)
    then show ?thesis
      using r replace_failed [of fam gw n n'] replace_cur [of fam gw n n'] gw
      by (cases ok) (auto simp: settled_on_def split: option.split)
  qed
qed

lemma assert_other: "fam' \<noteq> fam \<Longrightarrow> cur fam' (er_assert cur replace fam gw n) = cur fam' n"
  using replace_failed [of fam gw n] replace_other [of fam gw n _ fam']
  by (cases "replace fam gw n"; cases "fst (replace fam gw n)") (auto simp: er_assert_def Let_def)

lemma assert_nil [simp]: "er_assert cur replace fam [] n = n"
  by (simp add: er_assert_def)

end

subsection \<open>The netlink router\<close>

lemma is_unspecified_zero [simp]: "is_unspecified v4_zero" "is_unspecified v6_zero"
  by (simp_all add: is_unspecified_def)

lemma er_default_cases:
  assumes "er_defaultRouteFor fam gw = Some r"
  shows "is_default_dst (rt_dst r)" "er_isAllZerosCIDR (rt_dst r)" "rt_prio r = 0"
    "rt_gw r = (if fam = AF_INET then to4 gw else gw)" "fam = AF_INET \<Longrightarrow> to4 gw \<noteq> []"
  using assms by (auto simp: er_defaultRouteFor_def is_default_dst_def er_isAllZerosCIDR_def
      split: af.splits if_splits)

lemma er_first_gateway_replace:
  assumes "is_default_dst (rt_dst r)" "er_isAllZerosCIDR (rt_dst r)" "rt_prio r = 0" "rt_gw r \<noteq> []"
  shows "er_first_gateway (replace_in r rs) = rt_gw r"
proof (induction rs)
  case Nil
  then show ?case using assms by simp
next
  case (Cons x rs)
  have "same_dst r x" if "rt_dst x = None \<or> er_isAllZerosCIDR (rt_dst x)"
    using that assms(1) by (auto simp: same_dst_def is_default_dst_def er_isAllZerosCIDR_def split: option.splits)
  then show ?case using Cons assms by auto
qed

interpretation er_router: default_router CurrentDefaultGateway er_ReplaceDefaultRoute
proof
  fix fam gw and n n' :: netns
  assume "er_ReplaceDefaultRoute fam gw n = (False, n')"
  then show "n' = n"
    by (auto simp: er_ReplaceDefaultRoute_def RouteReplace_def split: option.splits if_splits)
next
  fix fam gw g and n n' :: netns
  assume ok: "er_ReplaceDefaultRoute fam gw n = (True, n')" "gw \<noteq> []" "CurrentDefaultGateway fam n' = Some g"
  then obtain r where r: "er_defaultRouteFor fam gw = Some r"
    and n': "n' = set_routes fam (replace_in r (ns_routes n fam)) n"
    by (auto simp: er_ReplaceDefaultRoute_def RouteReplace_def split: option.splits if_splits)
  have "rt_gw r \<noteq> []" "ip_equal (rt_gw r) gw"
    using er_default_cases(4,5) [OF r] ok(2) ip_equal_to4 by auto
  then show "g \<noteq> [] \<and> ip_equal g gw"
    using ok(3) er_first_gateway_replace [OF er_default_cases(1-3) [OF r]]
    by (auto simp: CurrentDefaultGateway_def RouteList_def n' split: if_splits)
next
  fix fam fam' gw and n n' :: netns
  assume "er_ReplaceDefaultRoute fam gw n = (True, n')" "fam' \<noteq> fam"
  then show "CurrentDefaultGateway fam' n' = CurrentDefaultGateway fam' n"
    by (auto simp: er_ReplaceDefaultRoute_def RouteReplace_def CurrentDefaultGateway_def RouteList_def
        split: option.splits if_splits)
next
  fix fam gw and n n' :: netns
  assume "er_ReplaceDefaultRoute fam gw n = (True, n')" "CurrentDefaultGateway fam n \<noteq> None"
  then show "CurrentDefaultGateway fam n' \<noteq> None"
    by (auto simp: er_ReplaceDefaultRoute_def RouteReplace_def CurrentDefaultGateway_def RouteList_def
        split: option.splits if_splits)
qed

subsection \<open>Properties of the component\<close>

definition er_effective :: "af \<Rightarrow> er_manager \<Rightarrow> net_ip" where
  "er_effective fam m = (case fam of AF_INET \<Rightarrow> effectiveV4 m | AF_INET6 \<Rightarrow> effectiveV6 m)"

lemma assert_netns_flags [simp]:
  "ns_list_fails (er_assert CurrentDefaultGateway er_ReplaceDefaultRoute fam gw n) = ns_list_fails n"
  "ns_add_fails (er_assert CurrentDefaultGateway er_ReplaceDefaultRoute fam gw n) = ns_add_fails n"
  by (auto simp: er_assert_def Let_def er_ReplaceDefaultRoute_def RouteReplace_def split: option.splits)

lemma replace_refused_iff:
  "\<not> fst (er_ReplaceDefaultRoute fam gw n)
    \<longleftrightarrow> (case er_defaultRouteFor fam gw of None \<Rightarrow> True | Some r \<Rightarrow> ns_add_fails n fam r)"
  by (auto simp: er_ReplaceDefaultRoute_def RouteReplace_def split: option.splits)

lemma assertAll_settles:
  fixes m n
  defines "n' \<equiv> assertAll CurrentDefaultGateway er_ReplaceDefaultRoute m n"
  assumes "er_effective fam m \<noteq> []" "er_defaultRouteFor fam (er_effective fam m) = Some r"
    and "\<not> ns_list_fails n fam" "\<not> ns_add_fails n fam r"
  shows "\<exists>g. CurrentDefaultGateway fam n' = Some g \<and> g \<noteq> [] \<and> ip_equal g (er_effective fam m)"
proof -
  let ?a = "er_assert CurrentDefaultGateway er_ReplaceDefaultRoute"
  have flags: "ns_list_fails n' = ns_list_fails n" "ns_add_fails n' = ns_add_fails n"
    by (simp_all add: n'_def assertAll_def)
  have one: "\<exists>g. CurrentDefaultGateway fam (?a fam (er_effective fam m) x) = Some g \<and> g \<noteq> []
      \<and> ip_equal g (er_effective fam m)" if "ns_list_fails x = ns_list_fails n" "ns_add_fails x = ns_add_fails n" for x
    using er_router.assert_settles [OF assms(2), of fam x] that assms(3-5)
    by (auto simp: er_router.settled_on_def replace_refused_iff CurrentDefaultGateway_def RouteList_def
        split: option.splits)
  show ?thesis
  proof (cases fam)
    case AF_INET
    then show ?thesis
      using one [of n] er_router.assert_other [of AF_INET AF_INET6 "effectiveV6 m" "?a AF_INET (effectiveV4 m) n"]
      by (simp add: n'_def assertAll_def er_effective_def)
  next
    case AF_INET6
    then show ?thesis
      using one [of "?a AF_INET (effectiveV4 m) n"] by (simp add: n'_def assertAll_def er_effective_def)
  qed
qed

text \<open>C29. The manager heals the default route: whatever has happened to the network namespace (any
  sequence of ticks, DHCP pushes and outside changes), after the next tick the default route of each
  family goes to the gateway the manager wants, unless it wants none, the address does not fit the
  family, or the kernel refuses the call.\<close>

theorem er_tick_heals:
  assumes "er_Run CurrentDefaultGateway er_ReplaceDefaultRoute gateways evs m n = (m1, n1)"
    and "er_Run CurrentDefaultGateway er_ReplaceDefaultRoute gateways (evs @ [ErTick]) m n = (m2, n2)"
    and "er_effective fam m1 \<noteq> []" "er_defaultRouteFor fam (er_effective fam m1) = Some r"
    and "\<not> ns_list_fails n1 fam" "\<not> ns_add_fails n1 fam r"
  shows "m2 = m1 \<and> (\<exists>g. CurrentDefaultGateway fam n2 = Some g \<and> g \<noteq> [] \<and> ip_equal g (er_effective fam m1))"
proof -
  have "m2 = m1" "n2 = assertAll CurrentDefaultGateway er_ReplaceDefaultRoute m1 n1"
    using assms(1,2) by (auto simp: er_Run_def Let_def)
  then show ?thesis using assertAll_settles [OF assms(3-6)] by simp
qed

text \<open>The addresses DHCP has pushed and the manager has accepted, while the channel was open.\<close>

fun dyn_pushes :: "'n er_event list \<Rightarrow> net_ip list" where
  "dyn_pushes [] = []"
| "dyn_pushes (ErDyn gw # evs) = (if to4 gw = [] then dyn_pushes evs else to4 gw # dyn_pushes evs)"
| "dyn_pushes (ErDynClosed # evs) = []"
| "dyn_pushes (ErTick # evs) = dyn_pushes evs"
| "dyn_pushes (ErDrift n # evs) = dyn_pushes evs"

lemma er_steps_closed:
  "\<not> dynSrc_open m \<Longrightarrow> \<exists>m'. fst (foldl (\<lambda>s e. er_step cur replace e s) (m, n) evs) = m'
     \<and> dynV4 m' = dynV4 m \<and> pinV4 m' = pinV4 m \<and> ipamV4 m' = ipamV4 m"
proof (induction evs arbitrary: m n)
  case Nil
  then show ?case by simp
next
  case (Cons e evs)
  then show ?case by (cases e) (auto)
qed

lemma er_steps_dyn:
  assumes "dynSrc_open m"
  shows "\<exists>m'. fst (foldl (\<lambda>s e. er_step cur replace e s) (m, n) evs) = m'
     \<and> dynV4 m' = last (dynV4 m # dyn_pushes evs) \<and> pinV4 m' = pinV4 m \<and> ipamV4 m' = ipamV4 m"
  using assms
proof (induction evs arbitrary: m n rule: dyn_pushes.induct)
  case (2 gw evs)
  show ?case
  proof (cases "to4 gw = []")
    case True
    then show ?thesis using 2 by auto
  next
    case False
    then have "gw \<noteq> []" by auto
    then show ?thesis using False 2 by (auto simp: Let_def)
  qed
next
  case (3 evs)
  then show ?case using er_steps_closed [of "m\<lparr>dynSrc_open := False\<rparr>" cur replace n evs] by simp
qed auto

text \<open>C30. Gateway priority: after any sequence of events the IPv4 gateway the manager wants is the
  last valid address DHCP has pushed, if there was one (also after the channel has closed), else
  the operator's pin, else the gateway of the Docker network's IPAM configuration.\<close>

theorem er_gateway_priority:
  assumes "er_Run cur replace gateways evs (er_New net pin4 pin6 True iv) n = (m', n')"
  shows "effectiveV4 m' =
    (if dyn_pushes evs \<noteq> [] then last (dyn_pushes evs)
     else if pin4 \<noteq> [] then pin4
     else ipamV4 (er_start gateways (er_New net pin4 pin6 True iv)))"
proof -
  let ?m = "er_start gateways (er_New net pin4 pin6 True iv)"
  have m: "dynSrc_open ?m" "dynV4 ?m = []" "pinV4 ?m = pin4"
    by (auto simp: er_start_def er_New_def split: option.splits)
  have "fst (foldl (\<lambda>s e. er_step cur replace e s) (?m, assertAll cur replace ?m n) evs) = m'"
    using assms by (simp add: er_Run_def Let_def)
  then have m': "dynV4 m' = last ([] # dyn_pushes evs)" "pinV4 m' = pin4" "ipamV4 m' = ipamV4 ?m"
    using er_steps_dyn [OF m(1), of cur replace "assertAll cur replace ?m n" evs] m(2,3) by auto
  have "g \<in> set (dyn_pushes evs) \<Longrightarrow> g \<noteq> []" for g
    by (induction evs rule: dyn_pushes.induct) (auto split: if_splits)
  then have "dyn_pushes evs \<noteq> [] \<Longrightarrow> last (dyn_pushes evs) \<noteq> []" by simp
  with m' show ?thesis by (simp add: effectiveV4_def)
qed

definition bridge_default :: nl_route where
  "bridge_default = \<lparr>rt_dst = None, rt_gw = [172, 18, 0, 1], rt_prio = 0\<rparr>"

definition demo_netns :: "nl_route list \<Rightarrow> netns" where
  "demo_netns rs = \<lparr>ns_routes = (\<lambda>fam. if fam = AF_INET then rs else []), ns_list_fails = (\<lambda>_. False),
     ns_add_fails = (\<lambda>_ _. False), ns_del_fails = (\<lambda>_ _. False)\<rparr>"

lemma er_tick_heals_witness:
  "\<exists>g. CurrentDefaultGateway AF_INET (snd (er_Run CurrentDefaultGateway er_ReplaceDefaultRoute (\<lambda>_. None)
      ([ErDrift (demo_netns [bridge_default])] @ [ErTick]) (er_New [] [192, 168, 1, 1] [] False 0) (demo_netns [])))
     = Some g \<and> ip_equal g [192, 168, 1, 1]"
proof -
  let ?R = "\<lambda>evs. er_Run CurrentDefaultGateway er_ReplaceDefaultRoute (\<lambda>_. None) evs
      (er_New [] [192, 168, 1, 1] [] False 0) (demo_netns [])"
  have 1: "?R [ErDrift (demo_netns [bridge_default])]
      = (er_New [] [192, 168, 1, 1] [] False 0, demo_netns [bridge_default])"
    by (simp add: er_Run_def er_start_def er_New_def)
  have eff: "er_effective AF_INET (er_New [] [192, 168, 1, 1] [] False 0) = [192, 168, 1, 1]"
    by (simp add: er_effective_def effectiveV4_def er_New_def)
  have 2: "?R ([ErDrift (demo_netns [bridge_default])] @ [ErTick])
      = (fst (?R ([ErDrift (demo_netns [bridge_default])] @ [ErTick])),
         snd (?R ([ErDrift (demo_netns [bridge_default])] @ [ErTick])))" by simp
  show ?thesis
    using er_tick_heals [OF 1 2, of AF_INET] unfolding eff
    by (auto simp: er_defaultRouteFor_def to4_def demo_netns_def)
qed

lemma er_gateway_priority_witness:
  "effectiveV4 (fst (er_Run (\<lambda>fam n :: unit. None) (\<lambda>fam gw n. (True, n)) (\<lambda>_. None)
     [ErDyn [10, 0, 0, 1], ErDyn [], ErDynClosed, ErDyn [10, 0, 0, 2]] (er_New [] [192, 168, 1, 1] [] True 0) ()))
   = [10, 0, 0, 1]"
proof -
  let ?o = "er_Run (\<lambda>fam n :: unit. None) (\<lambda>fam gw n. (True, n)) (\<lambda>_. None)
     [ErDyn [10, 0, 0, 1], ErDyn [], ErDynClosed, ErDyn [10, 0, 0, 2]] (er_New [] [192, 168, 1, 1] [] True 0) ()"
  have "?o = (fst ?o, snd ?o)" by (rule surjective_pairing)
  from er_gateway_priority [OF this] show ?thesis by (simp add: to4_def)
qed

end
