(* ===== verification/ServiceAnchor.thy ===== *)
theory ServiceAnchor
  imports ExtRoute GoPrelude
begin

section \<open>Package serviceanchor: the default routes of a service anchor\<close>

text \<open>
  \<open>src/internal/serviceanchor/serviceanchor.go\<close>. The package has its own copy of the netlink
  router, modelled under names with \<open>sa_\<close> and shown equal to the one of extroute. \<open>reconcile\<close>,
  \<open>recordOriginals\<close> and \<open>cleanup\<close> work on the network namespace; DNS is the parameter of
  \<open>reconcile\<close>.

  Shown: a reconcile whose lookup succeeds leaves the default route of each resolved family going
  to the first resolved address, whatever was there before; a failed lookup changes nothing;
  shutdown puts back the route of before the start whenever the manager has replaced it.
\<close>

subsection \<open>The router\<close>

definition sa_isAllZerosCIDR :: "(net_ip \<times> nat) option \<Rightarrow> bool" where
  "sa_isAllZerosCIDR n = (case n of None \<Rightarrow> False | Some (ip, ones) \<Rightarrow> ones = 0 \<and> is_unspecified ip)"

definition sa_defaultRouteFor :: "af \<Rightarrow> net_ip \<Rightarrow> nl_route option" where
  "sa_defaultRouteFor family gw =
     (case family of
        AF_INET \<Rightarrow> if to4 gw = [] then None
                   else Some \<lparr>rt_dst = Some (v4_zero, 0), rt_gw = to4 gw, rt_prio = 0\<rparr>
      | AF_INET6 \<Rightarrow> if to4 gw \<noteq> [] then None
                    else Some \<lparr>rt_dst = Some (v6_zero, 0), rt_gw = gw, rt_prio = 0\<rparr>)"

fun sa_first_gateway :: "nl_route list \<Rightarrow> net_ip" where
  "sa_first_gateway [] = []"
| "sa_first_gateway (r # rs) =
     (if (rt_dst r = None \<or> sa_isAllZerosCIDR (rt_dst r)) \<and> rt_gw r \<noteq> [] then rt_gw r
      else sa_first_gateway rs)"

definition RecordDefaultRoute :: "af \<Rightarrow> netns \<Rightarrow> net_ip option" where
  "RecordDefaultRoute family ns =
     (case RouteList family ns of None \<Rightarrow> None | Some routes \<Rightarrow> Some (sa_first_gateway routes))"

definition sa_ReplaceDefaultRoute :: "af \<Rightarrow> net_ip \<Rightarrow> netns \<Rightarrow> bool \<times> netns" where
  "sa_ReplaceDefaultRoute family gw ns =
     (case sa_defaultRouteFor family gw of None \<Rightarrow> (False, ns)
      | Some r \<Rightarrow> RouteReplace family r ns)"

definition sa_RemoveDefaultRoute :: "af \<Rightarrow> net_ip \<Rightarrow> netns \<Rightarrow> bool \<times> netns" where
  "sa_RemoveDefaultRoute family gw ns =
     (case sa_defaultRouteFor family gw of None \<Rightarrow> (False, ns)
      | Some r \<Rightarrow> RouteDel family r ns)"

subsection \<open>The manager\<close>

type_synonym gw_map = "(af, net_ip) gomap"

record sa_manager =
  sa_current :: gw_map
  sa_original :: gw_map

definition sa_New :: sa_manager where
  "sa_New = \<lparr>sa_current = [], sa_original = []\<rparr>"

definition record_one :: "af \<Rightarrow> netns \<Rightarrow> sa_manager \<Rightarrow> sa_manager" where
  "record_one fam ns m =
     (case RecordDefaultRoute fam ns of None \<Rightarrow> m
      | Some gw \<Rightarrow> if gw = [] then m else m\<lparr>sa_original := gm_put fam gw (sa_original m)\<rparr>)"

definition recordOriginals :: "netns \<Rightarrow> sa_manager \<Rightarrow> sa_manager" where
  "recordOriginals ns m = record_one AF_INET6 ns (record_one AF_INET ns m)"

text \<open>The result says whether \<open>OnRouteInstalled\<close> is called.\<close>

definition applyRoute :: "af \<Rightarrow> net_ip \<Rightarrow> sa_manager \<times> netns \<Rightarrow> (sa_manager \<times> netns) \<times> bool" where
  "applyRoute family gw s =
     (case s of (m, ns) \<Rightarrow>
       let kernelGW = (case RecordDefaultRoute family ns of None \<Rightarrow> [] | Some g \<Rightarrow> g) in
       if kernelGW \<noteq> [] \<and> ip_equal kernelGW gw then
         ((m\<lparr>sa_current := gm_put family gw (sa_current m)\<rparr>, ns), False)
       else (case sa_ReplaceDefaultRoute family gw ns of
               (False, ns') \<Rightarrow> ((m, ns'), False)
             | (True, ns') \<Rightarrow> ((m\<lparr>sa_current := gm_put family gw (sa_current m)\<rparr>, ns'), True)))"

text \<open>The loop of \<open>reconcile\<close> over the resolved addresses.\<close>

fun pick_addrs :: "net_ip list \<Rightarrow> net_ip \<Rightarrow> net_ip \<Rightarrow> net_ip \<times> net_ip" where
  "pick_addrs [] v4 v6 = (v4, v6)"
| "pick_addrs (a # as) v4 v6 =
     (if to4 a \<noteq> [] then pick_addrs as (if v4 = [] then to4 a else v4) v6
      else if to16 a \<noteq> [] then pick_addrs as v4 (if v6 = [] then to16 a else v6)
      else pick_addrs as v4 v6)"

definition sa_reconcile :: "net_ip list option \<Rightarrow> sa_manager \<times> netns \<Rightarrow> sa_manager \<times> netns" where
  "sa_reconcile lookup s =
     (case lookup of None \<Rightarrow> s
      | Some addrs \<Rightarrow>
          (let (v4, v6) = pick_addrs addrs [] [];
               s1 = (if v4 \<noteq> [] then fst (applyRoute AF_INET v4 s) else s)
           in if v6 \<noteq> [] then fst (applyRoute AF_INET6 v6 s1) else s1))"

text \<open>The two loops of \<open>cleanup\<close>. \<open>rng\<close> is the order in which Go ranges over the maps.\<close>

fun remove_loop :: "gw_map \<Rightarrow> netns \<Rightarrow> netns" where
  "remove_loop [] ns = ns"
| "remove_loop ((fam, gw) # rest) ns = remove_loop rest (snd (sa_RemoveDefaultRoute fam gw ns))"

fun restore_loop :: "gw_map \<Rightarrow> gw_map \<Rightarrow> netns \<Rightarrow> netns" where
  "restore_loop current [] ns = ns"
| "restore_loop current ((fam, gw) # rest) ns =
     (case map_of current fam of
        None \<Rightarrow> restore_loop current rest ns
      | Some cur \<Rightarrow>
          if ip_equal cur gw then restore_loop current rest ns
          else restore_loop current rest (snd (sa_ReplaceDefaultRoute fam gw ns)))"

definition cleanup :: "(gw_map \<Rightarrow> gw_map) \<Rightarrow> sa_manager \<times> netns \<Rightarrow> sa_manager \<times> netns" where
  "cleanup rng s =
     (case s of (m, ns) \<Rightarrow>
       let ns1 = remove_loop (rng (sa_current m)) ns;
           ns2 = restore_loop (sa_current m) (rng (sa_original m)) ns1
       in (m\<lparr>sa_current := [], sa_original := []\<rparr>, ns2))"

text \<open>\<open>runIPMode\<close> and \<open>runDNSMode\<close> up to the cancellation of the context; each tick has its lookup.\<close>

fun install_ips :: "net_ip list \<Rightarrow> sa_manager \<times> netns \<Rightarrow> sa_manager \<times> netns" where
  "install_ips [] s = s"
| "install_ips (ip # ips) s =
     install_ips ips (fst (applyRoute (if to4 ip = [] then AF_INET6 else AF_INET) ip s))"

definition runIPMode :: "(gw_map \<Rightarrow> gw_map) \<Rightarrow> net_ip list \<Rightarrow> sa_manager \<Rightarrow> netns \<Rightarrow> sa_manager \<times> netns" where
  "runIPMode rng ips m ns = cleanup rng (install_ips ips (recordOriginals ns m, ns))"

definition runDNSMode :: "(gw_map \<Rightarrow> gw_map) \<Rightarrow> net_ip list option list \<Rightarrow> sa_manager \<Rightarrow> netns \<Rightarrow> sa_manager \<times> netns" where
  "runDNSMode rng lookups m ns =
     cleanup rng (foldl (\<lambda>s l. sa_reconcile l s) (recordOriginals ns m, ns) lookups)"

subsection \<open>The two routers are the same\<close>

lemma sa_router_eq:
  "sa_isAllZerosCIDR = er_isAllZerosCIDR" "sa_defaultRouteFor = er_defaultRouteFor"
  "sa_first_gateway = er_first_gateway" "RecordDefaultRoute = CurrentDefaultGateway"
  "sa_ReplaceDefaultRoute = er_ReplaceDefaultRoute"
proof -
  show 1: "sa_isAllZerosCIDR = er_isAllZerosCIDR"
    by (rule ext) (simp add: sa_isAllZerosCIDR_def er_isAllZerosCIDR_def)
  show 2: "sa_defaultRouteFor = er_defaultRouteFor"
    by (intro ext) (simp add: sa_defaultRouteFor_def er_defaultRouteFor_def)
  show 3: "sa_first_gateway = er_first_gateway"
  proof
    fix rs
    show "sa_first_gateway rs = er_first_gateway rs"
      by (induction rs) (simp_all add: 1)
  qed
  show "RecordDefaultRoute = CurrentDefaultGateway"
    by (intro ext) (simp add: RecordDefaultRoute_def CurrentDefaultGateway_def 3 split: option.split)
  show "sa_ReplaceDefaultRoute = er_ReplaceDefaultRoute"
    by (intro ext) (simp add: sa_ReplaceDefaultRoute_def er_ReplaceDefaultRoute_def 2 split: option.split)
qed

interpretation sa_router: default_router RecordDefaultRoute sa_ReplaceDefaultRoute
  unfolding sa_router_eq by (rule er_router.default_router_axioms)

subsection \<open>Applying a route\<close>

lemma applyRoute_netns:
  assumes "gw \<noteq> []"
  shows "snd (fst (applyRoute fam gw (m, ns))) = er_assert RecordDefaultRoute sa_ReplaceDefaultRoute fam gw ns"
  using assms by (auto simp: applyRoute_def er_assert_def Let_def split: prod.splits bool.splits)

lemma assert_flags [simp]:
  "ns_list_fails (er_assert RecordDefaultRoute sa_ReplaceDefaultRoute fam gw n) = ns_list_fails n"
  "ns_add_fails (er_assert RecordDefaultRoute sa_ReplaceDefaultRoute fam gw n) = ns_add_fails n"
  unfolding sa_router_eq by simp_all

lemma applyRoute_manager:
  "sa_original (fst (fst (applyRoute fam gw (m, ns)))) = sa_original m"
  "gm_ok (sa_current m) \<Longrightarrow> gm_ok (sa_current (fst (fst (applyRoute fam gw (m, ns)))))"
  by (auto simp: applyRoute_def Let_def split: prod.splits bool.splits)

text \<open>The addresses a lookup offers: the first of each family.\<close>

definition first_addr :: "af \<Rightarrow> net_ip list \<Rightarrow> net_ip" where
  "first_addr fam addrs = (case fam of
     AF_INET \<Rightarrow> (case find (\<lambda>a. to4 a \<noteq> []) addrs of None \<Rightarrow> [] | Some a \<Rightarrow> to4 a)
   | AF_INET6 \<Rightarrow> (case find (\<lambda>a. to4 a = [] \<and> to16 a \<noteq> []) addrs of None \<Rightarrow> [] | Some a \<Rightarrow> to16 a))"

lemma pick_addrs_eq:
  "pick_addrs addrs v4 v6 = (if v4 = [] then first_addr AF_INET addrs else v4,
                             if v6 = [] then first_addr AF_INET6 addrs else v6)"
  by (induction addrs v4 v6 rule: pick_addrs.induct) (auto simp: first_addr_def)

lemma sa_reconcile_eq:
  "sa_reconcile (Some addrs) s =
     (let s1 = (if first_addr AF_INET addrs \<noteq> [] then fst (applyRoute AF_INET (first_addr AF_INET addrs) s) else s)
      in if first_addr AF_INET6 addrs \<noteq> [] then fst (applyRoute AF_INET6 (first_addr AF_INET6 addrs) s1) else s1)"
  by (simp add: sa_reconcile_def pick_addrs_eq)

lemma first_addr_fits: "first_addr fam addrs \<noteq> [] \<Longrightarrow> \<exists>r. sa_defaultRouteFor fam (first_addr fam addrs) = Some r"
proof (cases fam)
  case AF_INET
  moreover assume "first_addr fam addrs \<noteq> []"
  ultimately show ?thesis
    by (auto simp: first_addr_def sa_defaultRouteFor_def split: option.splits)
next
  case AF_INET6
  have "to4 (to16 a) = []" if "to4 a = []" for a
    using that by (auto simp: to16_def to4_def split: if_splits)
  moreover assume "first_addr fam addrs \<noteq> []"
  ultimately show ?thesis using AF_INET6
    by (auto simp: first_addr_def sa_defaultRouteFor_def find_Some_iff split: option.splits)
qed

text \<open>A reconcile enforces the resolved gateways: after it, whatever the routing table held, the
  default route of every family the lookup has resolved goes to the first address of that family,
  unless the kernel refuses the call or cannot list the routes; a failed lookup changes nothing.\<close>

theorem sa_reconcile_enforces:
  assumes "\<And>fam. \<not> ns_list_fails ns fam" "\<And>fam r. \<not> ns_add_fails ns fam r"
  shows "sa_reconcile None (m, ns) = (m, ns)
    \<and> (first_addr fam addrs \<noteq> [] \<longrightarrow>
        (\<exists>g. RecordDefaultRoute fam (snd (sa_reconcile (Some addrs) (m, ns))) = Some g
           \<and> g \<noteq> [] \<and> ip_equal g (first_addr fam addrs)))"
proof -
  let ?a = "er_assert RecordDefaultRoute sa_ReplaceDefaultRoute"
  let ?w = "\<lambda>fam. first_addr fam addrs"
  define n4 where "n4 = ?a AF_INET (?w AF_INET) ns"
  have step: "snd (if gw \<noteq> [] then fst (applyRoute fam gw s) else s) = ?a fam gw (snd s)" for fam gw s
    using applyRoute_netns [of gw fam "fst s" "snd s"] sa_router.assert_nil by simp
  have ns': "snd (sa_reconcile (Some addrs) (m, ns)) = ?a AF_INET6 (?w AF_INET6) n4"
    unfolding sa_reconcile_eq Let_def step n4_def by simp
  have one: "\<exists>g. RecordDefaultRoute fam (?a fam (?w fam) x) = Some g \<and> g \<noteq> [] \<and> ip_equal g (?w fam)"
    if "?w fam \<noteq> []" "ns_list_fails x = ns_list_fails ns" "ns_add_fails x = ns_add_fails ns" for fam x
  proof -
    note w = that(1)
    obtain r where "sa_defaultRouteFor fam (?w fam) = Some r" using first_addr_fits [OF w] by blast
    then have "fst (sa_ReplaceDefaultRoute fam (?w fam) (?a fam (?w fam) x))"
      using assms(2) that(3) by (simp add: sa_ReplaceDefaultRoute_def RouteReplace_def)
    then show ?thesis
      using sa_router.assert_settles [OF that(1), of fam x] assms(1) that(2)
      by (auto simp: sa_router.settled_on_def RecordDefaultRoute_def RouteList_def split: option.splits)
  qed
  have "\<exists>g. RecordDefaultRoute fam (?a AF_INET6 (?w AF_INET6) n4) = Some g \<and> g \<noteq> [] \<and> ip_equal g (?w fam)"
    if "?w fam \<noteq> []"
  proof (cases fam)
    case AF_INET
    then show ?thesis
      using one [of AF_INET ns] that sa_router.assert_other [of AF_INET AF_INET6 "?w AF_INET6" n4]
      by (simp add: n4_def)
  next
    case AF_INET6
    then show ?thesis using one [of AF_INET6 n4] that by (simp add: n4_def)
  qed
  then show ?thesis unfolding ns' by (simp add: sa_reconcile_def [of None])
qed

subsection \<open>Shutdown\<close>

lemma reconcile_manager:
  "sa_original (fst (sa_reconcile l (m, ns))) = sa_original m"
  "gm_ok (sa_current m) \<Longrightarrow> gm_ok (sa_current (fst (sa_reconcile l (m, ns))))"
proof -
  have *: "sa_original (fst (fst (applyRoute fam gw s))) = sa_original (fst s)"
    "gm_ok (sa_current (fst s)) \<Longrightarrow> gm_ok (sa_current (fst (fst (applyRoute fam gw s))))" for fam gw s
    using applyRoute_manager [where fam = fam and gw = gw and m = "fst s" and ns = "snd s"] by simp_all
  show "sa_original (fst (sa_reconcile l (m, ns))) = sa_original m"
    "gm_ok (sa_current m) \<Longrightarrow> gm_ok (sa_current (fst (sa_reconcile l (m, ns))))"
    by (cases l; simp add: sa_reconcile_eq Let_def * sa_reconcile_def [of None])+
qed

lemma reconcile_flags:
  "ns_list_fails (snd (sa_reconcile l (m, ns))) = ns_list_fails ns"
  "ns_add_fails (snd (sa_reconcile l (m, ns))) = ns_add_fails ns"
proof -
  have *: "ns_list_fails (snd (fst (applyRoute fam gw s))) = ns_list_fails (snd s)"
    "ns_add_fails (snd (fst (applyRoute fam gw s))) = ns_add_fails (snd s)" if "gw \<noteq> []" for fam gw s
    using applyRoute_netns [OF that, of fam "fst s" "snd s"] by simp_all
  show "ns_list_fails (snd (sa_reconcile l (m, ns))) = ns_list_fails ns"
    "ns_add_fails (snd (sa_reconcile l (m, ns))) = ns_add_fails ns"
    by (cases l; simp add: sa_reconcile_eq Let_def * sa_reconcile_def [of None])+
qed

lemma reconciles_keep:
  "foldl (\<lambda>s l. sa_reconcile l s) (m, ns) ls = (m', ns')
    \<Longrightarrow> sa_original m' = sa_original m \<and> (gm_ok (sa_current m) \<longrightarrow> gm_ok (sa_current m'))
      \<and> ns_list_fails ns' = ns_list_fails ns \<and> ns_add_fails ns' = ns_add_fails ns"
proof (induction ls arbitrary: m ns)
  case Nil
  then show ?case by simp
next
  case (Cons l ls)
  obtain m1 n1 where s: "sa_reconcile l (m, ns) = (m1, n1)" by (cases "sa_reconcile l (m, ns)")
  then show ?case
    using Cons.IH [of m1 n1] Cons.prems reconcile_manager [where l = l and m = m and ns = ns]
      reconcile_flags [where l = l and m = m and ns = ns] by simp
qed

lemma remove_flags:
  "ns_list_fails (remove_loop cur ns) = ns_list_fails ns" "ns_add_fails (remove_loop cur ns) = ns_add_fails ns"
proof -
  have "ns_list_fails (snd (sa_RemoveDefaultRoute f g n)) = ns_list_fails n"
    "ns_add_fails (snd (sa_RemoveDefaultRoute f g n)) = ns_add_fails n" for f g n
    by (auto simp: sa_RemoveDefaultRoute_def RouteDel_def split: option.split)
  then show "ns_list_fails (remove_loop cur ns) = ns_list_fails ns" "ns_add_fails (remove_loop cur ns) = ns_add_fails ns"
    by (induction cur ns rule: remove_loop.induct) simp_all
qed

lemma replace_flags:
  "ns_list_fails (snd (sa_ReplaceDefaultRoute f g n)) = ns_list_fails n"
  "ns_add_fails (snd (sa_ReplaceDefaultRoute f g n)) = ns_add_fails n"
  by (auto simp: sa_ReplaceDefaultRoute_def RouteReplace_def split: option.split)

lemma replace_other_cur:
  "f \<noteq> fam \<Longrightarrow> RecordDefaultRoute fam (snd (sa_ReplaceDefaultRoute f g n)) = RecordDefaultRoute fam n"
  by (auto simp: sa_ReplaceDefaultRoute_def RouteReplace_def RecordDefaultRoute_def RouteList_def
      split: option.splits)

lemma restore_loop_other:
  "fam \<notin> fst ` set orig \<Longrightarrow> RecordDefaultRoute fam (restore_loop cur orig ns) = RecordDefaultRoute fam ns"
  by (induction cur orig ns rule: restore_loop.induct) (auto simp: replace_other_cur split: option.split)

lemma restore_loop_restores:
  assumes "gm_ok orig" "map_of orig fam = Some gw" "map_of cur fam = Some c" "\<not> ip_equal c gw"
    and "gw \<noteq> []" "sa_defaultRouteFor fam gw = Some r" "\<not> ns_list_fails ns fam" "\<not> ns_add_fails ns fam r"
  shows "\<exists>g. RecordDefaultRoute fam (restore_loop cur orig ns) = Some g \<and> g \<noteq> [] \<and> ip_equal g gw"
  using assms(1,2,7,8,3,4)
proof (induction cur orig ns rule: restore_loop.induct)
  case (1 cur ns)
  then show ?case by simp
next
  case (2 cur f gw' rest ns)
  show ?case
  proof (cases "f = fam")
    case True
    then have gw': "gw' = gw" using "2.prems"(2) by simp
    have none: "fam \<notin> fst ` set rest" using "2.prems"(1) True by (simp add: gm_ok_def)
    obtain ok n' where rep: "sa_ReplaceDefaultRoute fam gw ns = (ok, n')" by (cases "sa_ReplaceDefaultRoute fam gw ns")
    have ok using rep assms(6) "2.prems"(4) by (simp add: sa_ReplaceDefaultRoute_def RouteReplace_def split: if_splits)
    moreover have "\<not> ns_list_fails n' fam" using replace_flags(1) [of fam gw ns] rep "2.prems"(3) by simp
    then obtain g where "RecordDefaultRoute fam n' = Some g"
      by (simp add: RecordDefaultRoute_def RouteList_def)
    ultimately have "\<exists>g. RecordDefaultRoute fam n' = Some g \<and> g \<noteq> [] \<and> ip_equal g gw"
      using sa_router.replace_cur [of fam gw ns n' g] rep assms(5) by simp
    moreover have "restore_loop cur ((f, gw') # rest) ns = restore_loop cur rest n'"
      using True gw' "2.prems"(5,6) rep by simp
    ultimately show ?thesis by (simp only: restore_loop_other [OF none])
  next
    case False
    have ok: "gm_ok rest" "map_of rest fam = Some gw" using "2.prems"(1,2) False by (auto simp: gm_ok_def)
    show ?thesis
      using "2.IH" ok "2.prems"(3-6) by (auto simp: replace_flags split: option.split)
  qed
qed

lemma record_lookup:
  "map_of (sa_original (recordOriginals ns sa_New)) fam =
     (case RecordDefaultRoute fam ns of None \<Rightarrow> None | Some g \<Rightarrow> if g = [] then None else Some g)"
  "gm_ok (sa_original (recordOriginals ns sa_New))" "sa_current (recordOriginals ns sa_New) = []"
  by (cases fam; auto simp: recordOriginals_def record_one_def sa_New_def split: option.splits)+

text \<open>Shutdown restores the wrapped container's egress: if there was a default route via \<open>gw0\<close> at
  the start and the manager has since installed another gateway, then after the shutdown the
  default route goes to \<open>gw0\<close> again, whatever lookups came in between and in whichever order the
  maps are ranged over (unless the kernel refuses the route).\<close>

theorem sa_shutdown_restores:
  assumes "RecordDefaultRoute fam ns = Some gw0" "gw0 \<noteq> []" "sa_defaultRouteFor fam gw0 = Some r"
    and "foldl (\<lambda>s l. sa_reconcile l s) (recordOriginals ns sa_New, ns) lookups = (m1, n1)"
    and "map_of (sa_current m1) fam = Some c" "\<not> ip_equal c gw0"
    and "\<not> ns_add_fails ns fam r" "range_perm rng"
  shows "\<exists>g. RecordDefaultRoute fam (snd (runDNSMode rng lookups sa_New ns)) = Some g
    \<and> g \<noteq> [] \<and> ip_equal g gw0"
proof -
  note keep = reconciles_keep [OF assms(4)]
  have lf: "\<not> ns_list_fails ns fam"
    using assms(1) by (auto simp: RecordDefaultRoute_def RouteList_def split: if_splits)
  have orig: "gm_ok (rng (sa_original m1))" "map_of (rng (sa_original m1)) fam = Some gw0"
    using keep record_lookup(1) [of ns fam] record_lookup(2) [of ns] assms(1,2,8) by simp_all
  show ?thesis
    using restore_loop_restores [OF orig assms(5,6,2,3), of "remove_loop (rng (sa_current m1)) n1"]
      keep lf assms(7)
    by (simp add: runDNSMode_def assms(4) cleanup_def Let_def remove_flags)
qed

text \<open>The exception to it: when the route of before the start already goes to the gateway that
  the lookup resolves to, the manager replaces nothing, but its shutdown deletes that route and
  does not put it back, so the wrapped container is left without a default route.\<close>

theorem sa_shutdown_deletes_original:
  assumes "to4 gw0 \<noteq> []" "ns_routes ns AF_INET = [\<lparr>rt_dst = None, rt_gw = gw0, rt_prio = 0\<rparr>]"
    and "ns_routes ns AF_INET6 = []"
    and "\<And>fam. \<not> ns_list_fails ns fam" "\<And>fam r. \<not> ns_del_fails ns fam r"
  shows "ns_routes (snd (runDNSMode (\<lambda>xs. xs) [Some [gw0]] sa_New ns)) AF_INET = []"
proof -
  have gw0: "gw0 \<noteq> []" using assms(1) by auto
  have rec4: "RecordDefaultRoute AF_INET ns = Some gw0" and rec6: "RecordDefaultRoute AF_INET6 ns = Some []"
    using assms gw0 by (simp_all add: RecordDefaultRoute_def RouteList_def)
  have eq: "ip_equal gw0 (to4 gw0)" "ip_equal (to4 gw0) gw0"
    using ip_equal_to4 [OF assms(1)] by (simp_all add: ip_equal_sym)
  have "recordOriginals ns sa_New = \<lparr>sa_current = [], sa_original = [(AF_INET, gw0)]\<rparr>"
    using gw0 by (simp add: recordOriginals_def record_one_def rec4 rec6 sa_New_def gm_put_def)
  moreover have "sa_reconcile (Some [gw0]) (\<lparr>sa_current = [], sa_original = [(AF_INET, gw0)]\<rparr>, ns)
      = (\<lparr>sa_current = [(AF_INET, to4 gw0)], sa_original = [(AF_INET, gw0)]\<rparr>, ns)"
    using assms(1) gw0 eq by (simp add: sa_reconcile_def applyRoute_def rec4 Let_def gm_put_def)
  moreover have "snd (sa_RemoveDefaultRoute AF_INET (to4 gw0) ns) = set_routes AF_INET [] ns"
    using assms(1,2,5) eq
    by (simp add: sa_RemoveDefaultRoute_def sa_defaultRouteFor_def RouteDel_def same_dst_def is_default_dst_def)
  ultimately show ?thesis
    using eq by (simp add: runDNSMode_def cleanup_def Let_def)
qed
lemma demo_netns_flags [simp]:
  "\<not> ns_list_fails (demo_netns rs) fam" "\<not> ns_add_fails (demo_netns rs) fam r" "\<not> ns_del_fails (demo_netns rs) fam r"
  by (simp_all add: demo_netns_def)

lemma sa_reconcile_enforces_witness:
  "\<exists>g. RecordDefaultRoute AF_INET (snd (sa_reconcile (Some [[10, 0, 0, 9]]) (sa_New, demo_netns [bridge_default])))
     = Some g \<and> g \<noteq> [] \<and> ip_equal g [10, 0, 0, 9]"
  using sa_reconcile_enforces [of "demo_netns [bridge_default]" sa_New AF_INET "[[10, 0, 0, 9]]"]
  by (simp add: first_addr_def to4_def)

lemma sa_shutdown_restores_witness:
  "\<exists>g. RecordDefaultRoute AF_INET (snd (runDNSMode rev [Some [[10, 0, 0, 9]]] sa_New (demo_netns [bridge_default])))
     = Some g \<and> g \<noteq> [] \<and> ip_equal g [172, 18, 0, 1]"
proof -
  let ?ns = "demo_netns [bridge_default]"
  let ?s = "foldl (\<lambda>s l. sa_reconcile l s) (recordOriginals ?ns sa_New, ?ns) [Some [[10, 0, 0, 9]]]"
  have rec: "RecordDefaultRoute AF_INET ?ns = Some [172, 18, 0, 1]"
    by (simp add: RecordDefaultRoute_def RouteList_def demo_netns_def bridge_default_def)
  have run: "?s = (fst ?s, snd ?s)" by (rule surjective_pairing)
  have cur: "map_of (sa_current (fst ?s)) AF_INET = Some [10, 0, 0, 9]"
    by (simp add: sa_reconcile_def to4_def applyRoute_def rec ip_equal_def sa_ReplaceDefaultRoute_def
        sa_defaultRouteFor_def RouteReplace_def)
  show ?thesis
    by (rule sa_shutdown_restores [OF rec _ _ run cur])
      (simp_all add: sa_defaultRouteFor_def to4_def ip_equal_def)
qed

lemma sa_shutdown_deletes_original_witness:
  "ns_routes (snd (runDNSMode (\<lambda>xs. xs) [Some [[172, 18, 0, 1]]] sa_New (demo_netns [bridge_default]))) AF_INET = []"
  by (rule sa_shutdown_deletes_original) (simp_all add: to4_def, simp_all add: demo_netns_def bridge_default_def)

end
