(* ===== verification/Health.thy ===== *)
theory Health
  imports GoPrelude
begin

section \<open>Package health: liveness and readiness\<close>

text \<open>
  \<open>src/internal/health/health.go\<close>. A handler is the function from the tracker to the response it
  writes: status, content type and body.

  Shown: the readiness endpoints report 200 exactly when the events they wait for have happened,
  in any order and any number of times, and they never go back.
\<close>

record tracker =
  tablesInstalled :: bool
  reconciled :: bool
  routeInstalled :: bool

definition NewTracker :: tracker where
  "NewTracker = \<lparr>tablesInstalled = False, reconciled = False, routeInstalled = False\<rparr>"

definition MarkTablesInstalled :: "tracker \<Rightarrow> tracker" where
  "MarkTablesInstalled t = t\<lparr>tablesInstalled := True\<rparr>"

definition MarkReconciled :: "tracker \<Rightarrow> tracker" where
  "MarkReconciled t = t\<lparr>reconciled := True\<rparr>"

definition MarkRouteInstalled :: "tracker \<Rightarrow> tracker" where
  "MarkRouteInstalled t = t\<lparr>routeInstalled := True\<rparr>"

record response =
  rs_status :: nat
  rs_contentType :: string
  rs_body :: string

definition plain_text :: string where
  "plain_text = ''text/plain; charset=utf-8''"

definition newline :: string where
  "newline = [char_of (10 :: nat)]"

definition show_bool :: "bool \<Rightarrow> string" where
  "show_bool b = (if b then ''true'' else ''false'')"

definition LivenessHandler :: response where
  "LivenessHandler = \<lparr>rs_status = 200, rs_contentType = plain_text, rs_body = ''ok'' @ newline\<rparr>"

definition NetworkAnchorReadinessHandler :: "tracker \<Rightarrow> response" where
  "NetworkAnchorReadinessHandler t =
     (let tables = tablesInstalled t; recon = reconciled t in
      if tables \<and> recon then \<lparr>rs_status = 200, rs_contentType = plain_text, rs_body = ''ready'' @ newline\<rparr>
      else \<lparr>rs_status = 503, rs_contentType = plain_text,
             rs_body = ''tables_installed: '' @ show_bool tables @ newline
                       @ ''reconciled: '' @ show_bool recon @ newline\<rparr>)"

definition ServiceAnchorReadinessHandler :: "tracker \<Rightarrow> response" where
  "ServiceAnchorReadinessHandler t =
     (if routeInstalled t then \<lparr>rs_status = 200, rs_contentType = plain_text, rs_body = ''ready'' @ newline\<rparr>
      else \<lparr>rs_status = 503, rs_contentType = plain_text,
             rs_body = ''route_installed: false'' @ newline\<rparr>)"

datatype mark = TablesMark | ReconciledMark | RouteMark

fun apply_mark :: "mark \<Rightarrow> tracker \<Rightarrow> tracker" where
  "apply_mark TablesMark t = MarkTablesInstalled t"
| "apply_mark ReconciledMark t = MarkReconciled t"
| "apply_mark RouteMark t = MarkRouteInstalled t"

definition marked :: "mark list \<Rightarrow> tracker" where
  "marked ms = foldl (\<lambda>t m. apply_mark m t) NewTracker ms"

lemma marked_fields:
  "tablesInstalled (marked ms) \<longleftrightarrow> TablesMark \<in> set ms"
  "reconciled (marked ms) \<longleftrightarrow> ReconciledMark \<in> set ms"
  "routeInstalled (marked ms) \<longleftrightarrow> RouteMark \<in> set ms"
proof -
  let ?f = "foldl (\<lambda>t m. apply_mark m t)"
  have "tablesInstalled (?f t ms) \<longleftrightarrow> tablesInstalled t \<or> TablesMark \<in> set ms"
    "reconciled (?f t ms) \<longleftrightarrow> reconciled t \<or> ReconciledMark \<in> set ms"
    "routeInstalled (?f t ms) \<longleftrightarrow> routeInstalled t \<or> RouteMark \<in> set ms" for t
  proof (induction ms arbitrary: t)
    case (Cons m ms)
    {
      case 1
      then show ?case by (cases m) (auto simp: Cons MarkTablesInstalled_def MarkReconciled_def MarkRouteInstalled_def)
    next
      case 2
      then show ?case by (cases m) (auto simp: Cons MarkTablesInstalled_def MarkReconciled_def MarkRouteInstalled_def)
    next
      case 3
      then show ?case by (cases m) (auto simp: Cons MarkTablesInstalled_def MarkReconciled_def MarkRouteInstalled_def)
    }
  qed simp_all
  then show "tablesInstalled (marked ms) \<longleftrightarrow> TablesMark \<in> set ms"
    "reconciled (marked ms) \<longleftrightarrow> ReconciledMark \<in> set ms"
    "routeInstalled (marked ms) \<longleftrightarrow> RouteMark \<in> set ms"
    by (simp_all add: marked_def NewTracker_def)
qed

text \<open>Readiness: after any sequence of marks the network anchor's endpoint answers 200 exactly when
  the tables have been installed and a reconcile has succeeded, and 503 with the two conditions
  otherwise; the service anchor's answers 200 exactly when a route has been installed. No later
  mark takes readiness away, and liveness does not depend on the tracker.\<close>

theorem readiness:
  "rs_status (NetworkAnchorReadinessHandler (marked ms))
     = (if TablesMark \<in> set ms \<and> ReconciledMark \<in> set ms then 200 else 503)
   \<and> rs_status (ServiceAnchorReadinessHandler (marked ms)) = (if RouteMark \<in> set ms then 200 else 503)
   \<and> (rs_status (NetworkAnchorReadinessHandler (marked ms)) = 200
        \<longrightarrow> rs_status (NetworkAnchorReadinessHandler (marked (ms @ ms'))) = 200)
   \<and> (rs_status (ServiceAnchorReadinessHandler (marked ms)) = 200
        \<longrightarrow> rs_status (ServiceAnchorReadinessHandler (marked (ms @ ms'))) = 200)"
  by (auto simp: NetworkAnchorReadinessHandler_def ServiceAnchorReadinessHandler_def marked_fields Let_def)

lemma readiness_witness:
  "rs_status (NetworkAnchorReadinessHandler (marked ([TablesMark, ReconciledMark] @ [RouteMark]))) = 200
   \<and> rs_status (NetworkAnchorReadinessHandler (marked [ReconciledMark])) = 503"
  using readiness [of "[TablesMark, ReconciledMark]" "[RouteMark]"] readiness [of "[ReconciledMark]" "[]"]
  by simp

end
