(* ===== verification/Dependents.thy ===== *)
theory Dependents
  imports GoPrelude
begin

section \<open>Package dependents: containers in a dead network namespace\<close>

text \<open>
  \<open>src/internal/dependents/staleness.go\<close> and \<open>watcher.go\<close>. The Docker daemon is the list of
  containers a tick is given, or no list when the call failed.

  Shown: \<open>Find\<close> reports exactly the containers whose network mode refers to no container of the
  list; over any sequence of ticks the watcher reports a victim exactly when it is stale now and
  was not stale at the last tick that could list the containers.
\<close>

record dep_container =
  dc_ID :: string
  dc_Names :: "string list"
  dc_State :: string
  dc_NetworkMode :: string
  dc_Labels :: "string \<rightharpoonup> string"

record stale_netns =
  st_Container :: dep_container
  StaleTarget :: string
  ComposeHint :: string

text \<open>The loop of \<open>refResolves\<close>: each container by ID, by short ID, by name.\<close>

definition refResolves :: "string \<Rightarrow> dep_container list \<Rightarrow> bool" where
  "refResolves ref all =
     (let refIsShort = (12 \<le> length ref \<and> length ref < 64) in
      list_ex (\<lambda>c. dc_ID c = ref
                 \<or> (refIsShort \<and> has_prefix (dc_ID c) ref)
                 \<or> list_ex (\<lambda>n. trim_prefix n ''/'' = ref) (dc_Names c)) all)"

definition composeHint :: "dep_container \<Rightarrow> string" where
  "composeHint c =
     (let project = str_index (dc_Labels c) ''com.docker.compose.project'';
          svc = str_index (dc_Labels c) ''com.docker.compose.service'' in
      if project = [] \<or> svc = [] then []
      else ''docker compose -p '' @ project @ '' up -d --no-deps --force-recreate '' @ svc)"

fun Find :: "dep_container list \<Rightarrow> dep_container list \<Rightarrow> stale_netns list" where
  "Find [] all = []"
| "Find (c # cs) all =
     (case cut_prefix (dc_NetworkMode c) ''container:'' of
        None \<Rightarrow> Find cs all
      | Some ref0 \<Rightarrow>
          (let ref = trim_space ref0 in
           if ref = [] then Find cs all
           else if refResolves ref all then Find cs all
           else \<lparr>st_Container = c, StaleTarget = ref, ComposeHint = composeHint c\<rparr> # Find cs all))"

definition dep_FirstName :: "dep_container \<Rightarrow> string" where
  "dep_FirstName c =
     (case find (\<lambda>n. n \<noteq> []) (dc_Names c) of
        Some n \<Rightarrow> trim_prefix n ''/''
      | None \<Rightarrow> if 12 \<le> length (dc_ID c) then take 12 (dc_ID c) else dc_ID c)"

subsection \<open>The watcher\<close>

record dep_watcher =
  scopeProject :: string
  dw_seen :: "string set"

definition dep_New :: "string \<Rightarrow> dep_watcher" where
  "dep_New project = \<lparr>scopeProject = project, dw_seen = {}\<rparr>"

definition scopeByProject :: "dep_container list \<Rightarrow> string \<Rightarrow> dep_container list" where
  "scopeByProject all project = filter (\<lambda>c. str_index (dc_Labels c) ''com.docker.compose.project'' = project) all"

definition victim_key :: "stale_netns \<Rightarrow> string" where
  "victim_key s = dc_ID (st_Container s) @ ''|'' @ StaleTarget s"

text \<open>The loop of \<open>tick\<close>: the new set, and the victims handed to the hook.\<close>

fun tick_loop :: "string set \<Rightarrow> stale_netns list \<Rightarrow> string set \<Rightarrow> stale_netns list \<times> string set" where
  "tick_loop seen [] newSeen = ([], newSeen)"
| "tick_loop seen (s # ss) newSeen =
     (case tick_loop seen ss (insert (victim_key s) newSeen) of (hooked, final) \<Rightarrow>
        (if victim_key s \<in> seen then hooked else s # hooked, final))"

definition dep_tick :: "dep_container list option \<Rightarrow> dep_watcher \<Rightarrow> stale_netns list \<times> dep_watcher" where
  "dep_tick listed w =
     (case listed of None \<Rightarrow> ([], w)
      | Some all \<Rightarrow>
          (let stale = Find (scopeByProject all (scopeProject w)) all;
               (hooked, newSeen) = tick_loop (dw_seen w) stale {}
           in (hooked, w\<lparr>dw_seen := newSeen\<rparr>)))"

text \<open>\<open>Run\<close> over the ticks until the context is cancelled: the victims reported at each tick.\<close>

fun dep_ticks :: "dep_container list option list \<Rightarrow> dep_watcher \<Rightarrow> stale_netns list list" where
  "dep_ticks [] w = []"
| "dep_ticks (l # ls) w = (case dep_tick l w of (hooked, w') \<Rightarrow> hooked # dep_ticks ls w')"

definition dep_Run :: "dep_container list option list \<Rightarrow> dep_watcher \<Rightarrow> stale_netns list list" where
  "dep_Run ls w = (if scopeProject w = [] then [] else dep_ticks ls w)"

subsection \<open>Properties\<close>

text \<open>A reference to a container: its ID, a prefix of at least 12 characters, or a name.\<close>

definition refers_to :: "string \<Rightarrow> dep_container \<Rightarrow> bool" where
  "refers_to ref c \<longleftrightarrow> dc_ID c = ref \<or> (\<exists>rest. dc_ID c = ref @ rest \<and> 12 \<le> length ref \<and> length ref < 64)
     \<or> (\<exists>n \<in> set (dc_Names c). n = ref \<and> \<not> has_prefix n ''/'' \<or> n = ''/'' @ ref)"

lemma trim_slash: "trim_prefix n ''/'' = ref \<longleftrightarrow> n = ref \<and> \<not> has_prefix n ''/'' \<or> n = ''/'' @ ref"
  by (cases n) (auto simp: trim_prefix_def has_prefix_def)

lemma refResolves_iff: "refResolves ref all \<longleftrightarrow> (\<exists>c \<in> set all. refers_to ref c)"
  by (auto simp: refResolves_def refers_to_def Let_def list_ex_iff trim_slash has_prefix_iff)

text \<open>C34. \<open>Find\<close> reports exactly the victims: a container is reported with target \<open>ref\<close> if and only if
  it is a candidate, its network mode is \<open>container:\<close> followed by \<open>ref\<close> (up to white space), and no
  container of the full list has that ID, an ID that \<open>ref\<close> abbreviates, or that name; the hint is
  the compose command of its project and service.\<close>

theorem Find_exact:
  "s \<in> set (Find candidates all) \<longleftrightarrow>
     (\<exists>c \<in> set candidates. \<exists>ref0. dc_NetworkMode c = ''container:'' @ ref0 \<and> trim_space ref0 \<noteq> []
        \<and> (\<forall>d \<in> set all. \<not> refers_to (trim_space ref0) d)
        \<and> s = \<lparr>st_Container = c, StaleTarget = trim_space ref0, ComposeHint = composeHint c\<rparr>)"
proof (induction candidates)
  case Nil
  then show ?case by simp
next
  case (Cons c cs)
  show ?case
  proof (cases "cut_prefix (dc_NetworkMode c) ''container:''")
    case None
    then have "\<nexists>ref0. dc_NetworkMode c = ''container:'' @ ref0"
      by (auto simp: cut_prefix_None_iff has_prefix_iff)
    with None Cons show ?thesis by auto
  next
    case (Some ref0)
    then have m: "dc_NetworkMode c = ''container:'' @ ref0"
      by (simp add: cut_prefix_Some_iff)
    then have u: "dc_NetworkMode c = ''container:'' @ r \<longleftrightarrow> r = ref0" for r by auto
    have "s \<in> set (Find (c # cs) all) \<longleftrightarrow>
        (trim_space ref0 \<noteq> [] \<and> \<not> refResolves (trim_space ref0) all
          \<and> s = \<lparr>st_Container = c, StaleTarget = trim_space ref0, ComposeHint = composeHint c\<rparr>)
        \<or> s \<in> set (Find cs all)"
      using Some by (auto simp: Let_def)
    then show ?thesis
      unfolding Cons.IH refResolves_iff bex_simps set_simps using u by auto
  qed
qed

lemma Find_exact_witness:
  "Find [\<lparr>dc_ID = ''app'', dc_Names = [''/app''], dc_State = ''running'', dc_NetworkMode = ''container:gone'',
          dc_Labels = Map.empty\<rparr>] [] \<noteq> []"
proof -
  let ?c = "\<lparr>dc_ID = ''app'', dc_Names = [''/app''], dc_State = ''running'', dc_NetworkMode = ''container:gone'',
          dc_Labels = Map.empty\<rparr>"
  have "trim_space ''gone'' = ''gone''" by (rule trim_space_plain) (simp add: plain_char_def)
  then have "\<lparr>st_Container = ?c, StaleTarget = ''gone'', ComposeHint = composeHint ?c\<rparr> \<in> set (Find [?c] [])"
    unfolding Find_exact by (intro bexI [of _ ?c] exI [of _ "''gone''"]) auto
  then show ?thesis by auto
qed

lemma tick_loop_eq:
  "tick_loop seen ss newSeen = (filter (\<lambda>s. victim_key s \<notin> seen) ss, victim_key ` set ss \<union> newSeen)"
  by (induction ss arbitrary: newSeen) auto

text \<open>The victims at a tick, and the list of the last tick before that could list the containers.\<close>

definition victims :: "string \<Rightarrow> dep_container list \<Rightarrow> stale_netns list" where
  "victims project all = Find (scopeByProject all project) all"

fun last_listed :: "dep_container list option list \<Rightarrow> dep_container list option" where
  "last_listed [] = None"
| "last_listed (l # ls) = (case last_listed ls of Some a \<Rightarrow> Some a | None \<Rightarrow> l)"

definition known_keys :: "string \<Rightarrow> dep_container list option \<Rightarrow> string set" where
  "known_keys project l = (case l of None \<Rightarrow> {} | Some all \<Rightarrow> victim_key ` set (victims project all))"

lemma dep_tick_eq:
  "dep_tick (Some all) w = (filter (\<lambda>s. victim_key s \<notin> dw_seen w) (victims (scopeProject w) all),
     w\<lparr>dw_seen := known_keys (scopeProject w) (Some all)\<rparr>)"
  by (simp add: dep_tick_def tick_loop_eq victims_def known_keys_def Let_def)

lemma dep_ticks_nth:
  "i < length ls \<Longrightarrow> dep_ticks ls w ! i = (case ls ! i of None \<Rightarrow> []
     | Some all \<Rightarrow> filter (\<lambda>s. victim_key s \<notin> (case last_listed (take i ls) of None \<Rightarrow> dw_seen w
           | Some prev \<Rightarrow> known_keys (scopeProject w) (Some prev))) (victims (scopeProject w) all))"
proof (induction ls arbitrary: i w)
  case Nil
  then show ?case by simp
next
  case (Cons l ls)
  obtain hooked w' where t: "dep_tick l w = (hooked, w')" by (cases "dep_tick l w")
  show ?case
  proof (cases i)
    case 0
    then show ?thesis
      by (cases l) (simp_all add: dep_tick_eq, simp add: dep_tick_def)
  next
    case (Suc j)
    have w': "scopeProject w' = scopeProject w"
      "dw_seen w' = (case l of None \<Rightarrow> dw_seen w | Some a \<Rightarrow> known_keys (scopeProject w) (Some a))"
      using t by (cases l; auto simp: dep_tick_eq; simp add: dep_tick_def)+
    have j: "j < length ls" using Cons.prems Suc by simp
    have "dep_ticks (l # ls) w ! i = dep_ticks ls w' ! j" by (simp add: t Suc)
    then show ?thesis
      unfolding Cons.IH [OF j] w' Suc by (cases l) (auto split: option.split)
  qed
qed

text \<open>The watcher reports each victim once: at every tick it reports exactly the victims of that
  tick that were not victims at the last tick before it whose list call succeeded. A victim that
  is repaired and goes stale again is reported again, and a failed list call loses nothing.\<close>

theorem watcher_reports_once:
  assumes "project \<noteq> []" "i < length ls" "ls ! i = Some all"
  shows "dep_Run ls (dep_New project) ! i
    = filter (\<lambda>s. victim_key s \<notin> known_keys project (last_listed (take i ls))) (victims project all)"
proof -
  have "dep_Run ls (dep_New project) ! i = dep_ticks ls (dep_New project) ! i"
    using assms(1) by (simp add: dep_Run_def dep_New_def)
  then show ?thesis
    using dep_ticks_nth [OF assms(2), of "dep_New project"] assms(3)
    by (cases "last_listed (take i ls)") (simp_all add: dep_New_def known_keys_def)
qed

definition demo_dependent :: dep_container where
  "demo_dependent = \<lparr>dc_ID = ''app'', dc_Names = [''/app''], dc_State = ''running'',
     dc_NetworkMode = ''container:gone'', dc_Labels = [''com.docker.compose.project'' \<mapsto> ''p'']\<rparr>"

lemma watcher_reports_once_witness:
  "dep_Run [Some [demo_dependent], None, Some [demo_dependent]] (dep_New ''p'') ! 2 = []"
  by (subst watcher_reports_once [where all = "[demo_dependent]"])
    (auto simp: known_keys_def filter_empty_conv)

end
