(* ===== verification/DockerApi.thy ===== *)
theory DockerApi
  imports GoPrelude
begin

section \<open>The environment of the watchers: the Docker API\<close>

text \<open>
  The Docker daemon and its client library are not part of the repository. The daemon is a
  parameter: any function from the history of calls it has received to its next answer. So it may
  answer differently every time, and the theorems hold for every daemon; where the program relies
  on a documented behaviour, the theorem states it as a hypothesis. A pause of the program is an
  entry of the history too, so that the world may change during it, and so is the death of the
  process by a panic, after which a loop of the program does nothing more.
\<close>

subsection \<open>Requests and answers\<close>

record ct_config =
  cc_Image :: string
  cc_Env :: "string list"
  cc_Labels :: "(string, string) gomap"
  cc_Hostname :: string
  cc_Domainname :: string
  cc_MacAddress :: string
  cc_ExposedPorts :: "string list"
  cc_rest :: string            \<comment> \<open>all other fields\<close>

record host_config =
  hc_NetworkMode :: string
  hc_CapAdd :: "string list"
  hc_Restart :: string
  hc_rest :: string

record create_req =
  cr_Config :: ct_config
  cr_HostConfig :: host_config
  cr_Name :: string

record ct_summary =
  cs_ID :: string
  cs_Names :: "string list"
  cs_State :: string
  cs_NetworkMode :: string
  cs_ImageID :: string
  cs_Labels :: "string \<rightharpoonup> string"

record net_endpoint =
  ne_IPAddress :: string
  ne_NetworkID :: string
  ne_MacAddress :: string

record ct_inspect =
  ci_ID :: string
  ci_Name :: string
  ci_Image :: string
  ci_Config :: "ct_config option"
  ci_HostConfig :: "host_config option"
  ci_Networks :: "(string, net_endpoint option) gomap option"

record net_inspect =
  ni_ID :: string
  ni_Name :: string
  ni_Containers :: "(string, string) gomap"

datatype dk_call =
    CList
  | CInspect string
  | CStart string
  | CRemove string
  | CCreate create_req
  | CRestart string
  | CNetInspect string
  | CNetConnect string string
  | CNetDisconnect string string
  | CSleep int    \<comment> \<open>nanoseconds\<close>
  | CPanic   \<comment> \<open>not a call: the process died at this point\<close>

type_synonym dk_history = "dk_call list"

record dk_daemon =
  d_list :: "dk_history \<Rightarrow> ct_summary list option"
  d_inspect :: "dk_history \<Rightarrow> string \<Rightarrow> ct_inspect option"
  d_start :: "dk_history \<Rightarrow> string \<Rightarrow> bool"
  d_remove :: "dk_history \<Rightarrow> string \<Rightarrow> bool"
  d_create :: "dk_history \<Rightarrow> create_req \<Rightarrow> string option"
  d_restart :: "dk_history \<Rightarrow> string \<Rightarrow> bool"
  d_net_inspect :: "dk_history \<Rightarrow> string \<Rightarrow> net_inspect option"
  d_connect :: "dk_history \<Rightarrow> string \<Rightarrow> string \<Rightarrow> string option"       \<comment> \<open>the error, if any\<close>
  d_disconnect :: "dk_history \<Rightarrow> string \<Rightarrow> string \<Rightarrow> string option"
  d_done :: "dk_history \<Rightarrow> bool"             \<comment> \<open>not the daemon's: the process was told to stop\<close>
  d_now :: "dk_history \<Rightarrow> int"              \<comment> \<open>the clock of the process, in nanoseconds\<close>

definition crashed :: "dk_history \<Rightarrow> bool" where
  "crashed h \<longleftrightarrow> CPanic \<in> set h"

text \<open>The calls that change something.\<close>

fun is_write :: "dk_call \<Rightarrow> bool" where
  "is_write CList = False"
| "is_write (CInspect i) = False"
| "is_write (CNetInspect i) = False"
| "is_write (CSleep d) = False"
| "is_write CPanic = False"
| "is_write (CStart i) = True"
| "is_write (CRemove i) = True"
| "is_write (CCreate r) = True"
| "is_write (CRestart i) = True"
| "is_write (CNetConnect n i) = True"
| "is_write (CNetDisconnect n i) = True"

subsection \<open>A sample daemon\<close>

text \<open>It knows every container until it is removed, and lets every call through.\<close>

definition demo_inspect :: "dk_history \<Rightarrow> string \<Rightarrow> ct_inspect option" where
  "demo_inspect h i =
     (if CRemove i \<in> set h then None
      else Some \<lparr>ci_ID = i, ci_Name = ''/'' @ i, ci_Image = ''sha256:1'',
        ci_Config = Some \<lparr>cc_Image = ''anchord'', cc_Env = [], cc_Labels = [], cc_Hostname = i,
          cc_Domainname = [], cc_MacAddress = [], cc_ExposedPorts = [], cc_rest = []\<rparr>,
        ci_HostConfig = Some \<lparr>hc_NetworkMode = ''bridge'', hc_CapAdd = [], hc_Restart = [], hc_rest = []\<rparr>,
        ci_Networks = Some [(''transit'', Some \<lparr>ne_IPAddress = ''10.0.0.2'', ne_NetworkID = ''n1'', ne_MacAddress = []\<rparr>)]\<rparr>)"

definition demo_docker :: "ct_summary list \<Rightarrow> dk_daemon" where
  "demo_docker l = \<lparr>d_list = (\<lambda>h. Some l), d_inspect = demo_inspect, d_start = (\<lambda>h i. True),
     d_remove = (\<lambda>h i. CRemove i \<notin> set h), d_create = (\<lambda>h r. Some ''new''), d_restart = (\<lambda>h i. True),
     d_net_inspect = (\<lambda>h n. None), d_connect = (\<lambda>h n i. None), d_disconnect = (\<lambda>h n i. None),
     d_done = (\<lambda>h. False), d_now = (\<lambda>h. 0)\<rparr>"

definition demo_ct :: "string \<Rightarrow> string \<Rightarrow> string \<Rightarrow> ct_summary" where
  "demo_ct i state mode = \<lparr>cs_ID = i, cs_Names = [''/'' @ i], cs_State = state, cs_NetworkMode = mode,
     cs_ImageID = [], cs_Labels = Map.empty\<rparr>"

subsection \<open>The interface of a recreate operation\<close>

text \<open>
  Two packages recreate a container with another network mode, with their own code. What their
  callers rely on (\<open>good\<close> is what the network mode demands of the new configuration): the history only grows and removes no other container, a successful recreate has created one container, with
  the network mode asked for and under the name of the old one, after removing the old one, and a
  failed inspect has no effect.
\<close>

locale netmode_recreator =
  fixes recreate :: "dk_daemon \<Rightarrow> string \<Rightarrow> string \<Rightarrow> dk_history \<Rightarrow> string option \<times> dk_history"
    and good :: "string \<Rightarrow> ct_config \<Rightarrow> bool"
  assumes recreate_grows: "recreate D i mode h = (res, h') \<Longrightarrow>
      \<exists>new. h' = h @ new \<and> (\<forall>k. CRemove k \<in> set new \<longrightarrow> k = i)"
    and recreate_ok: "recreate D i mode h = (Some j, h') \<Longrightarrow>
      \<exists>insp r. d_inspect D h i = Some insp \<and> hc_NetworkMode (cr_HostConfig r) = mode
        \<and> cr_Name r = trim_prefix (ci_Name insp) ''/'' \<and> good mode (cr_Config r)
        \<and> h' = h @ [CInspect i, CRemove i, CCreate r, CStart j]"
    and recreate_absent: "d_inspect D h i = None \<Longrightarrow> recreate D i mode h = (None, h @ [CInspect i])"
begin

text \<open>Recreating several containers one after the other, going on after a failure.\<close>

primrec recreate_all :: "dk_daemon \<Rightarrow> string \<Rightarrow> string list \<Rightarrow> dk_history \<Rightarrow> dk_history" where
  "recreate_all D mode [] h = h"
| "recreate_all D mode (i # is) h = recreate_all D mode is (snd (recreate D i mode h))"

lemma recreate_all_grows: "\<exists>new. recreate_all D mode is h = h @ new"
proof (induction "is" arbitrary: h)
  case Nil
  then show ?case by simp
next
  case (Cons i "is")
  obtain res h' where "recreate D i mode h = (res, h')" by (cases "recreate D i mode h")
  then show ?case using Cons [of h'] recreate_grows by fastforce
qed

text \<open>Every container whose recreation succeeds as long as it was not removed before is removed,
  created anew under its name and started, whatever happens to the others.\<close>

lemma recreate_all_ok:
  assumes "i \<in> set is" "\<And>h'. CRemove i \<notin> set h' \<Longrightarrow> fst (recreate D i mode h') \<noteq> None" "CRemove i \<notin> set h"
  shows "\<exists>pre post insp r j. recreate_all D mode is h = pre @ [CInspect i, CRemove i, CCreate r, CStart j] @ post
    \<and> d_inspect D pre i = Some insp \<and> cr_Name r = trim_prefix (ci_Name insp) ''/''
    \<and> hc_NetworkMode (cr_HostConfig r) = mode \<and> good mode (cr_Config r) \<and> (\<exists>more. pre = h @ more)"
  using assms(1,3)
proof (induction "is" arbitrary: h)
  case Nil
  then show ?case by simp
next
  case (Cons k "is")
  obtain res h1 where r: "recreate D k mode h = (res, h1)" by (cases "recreate D k mode h")
  show ?case
  proof (cases "k = i")
    case True
    then obtain j where j: "res = Some j" using assms(2) [OF Cons.prems(2)] r by auto
    obtain new where new: "recreate_all D mode is h1 = h1 @ new" using recreate_all_grows by blast
    obtain insp q where q: "d_inspect D h i = Some insp" "hc_NetworkMode (cr_HostConfig q) = mode"
        "cr_Name q = trim_prefix (ci_Name insp) ''/''" "good mode (cr_Config q)"
        "h1 = h @ [CInspect i, CRemove i, CCreate q, CStart j]"
      using recreate_ok r True j by blast
    have "recreate_all D mode (k # is) h = h @ [CInspect i, CRemove i, CCreate q, CStart j] @ new"
      using r new q(5) by simp
    with q show ?thesis by (metis append_Nil2)
  next
    case False
    obtain new where h1: "h1 = h @ new" "CRemove i \<notin> set new"
      using recreate_grows [OF r] False by metis
    then have i: "CRemove i \<notin> set h1" "i \<in> set is" using Cons.prems False by simp_all
    obtain pre post insp q j where res: "recreate_all D mode is h1 = pre @ [CInspect i, CRemove i, CCreate q, CStart j] @ post"
        "d_inspect D pre i = Some insp" "cr_Name q = trim_prefix (ci_Name insp) ''/''"
        "hc_NetworkMode (cr_HostConfig q) = mode" "good mode (cr_Config q)" "\<exists>more. pre = h1 @ more"
      using Cons.IH [OF i(2,1)] by blast
    then have "\<exists>more. pre = h @ more" using h1 by auto
    moreover have "recreate_all D mode (k # is) h = pre @ [CInspect i, CRemove i, CCreate q, CStart j] @ post"
      using r res(1) by simp
    ultimately show ?thesis using res(2-5) by blast
  qed
qed

text \<open>One recreation after the other: what each adds to the history is what it adds where it stands.\<close>

lemma recreate_all_steps:
  "\<exists>steps. recreate_all D mode is h = h @ concat steps \<and> length steps = length is
    \<and> (\<forall>k<length is. \<exists>res. recreate D (is ! k) mode (h @ concat (take k steps)) = (res, h @ concat (take k steps) @ steps ! k))"
proof (induction "is" arbitrary: h)
  case Nil
  then show ?case by simp
next
  case (Cons i "is")
  obtain res h1 where r: "recreate D i mode h = (res, h1)" by (cases "recreate D i mode h")
  obtain new where h1: "h1 = h @ new" using recreate_grows [OF r] by blast
  obtain steps where s: "recreate_all D mode is h1 = h1 @ concat steps" "length steps = length is"
      "\<forall>k<length is. \<exists>res. recreate D (is ! k) mode (h1 @ concat (take k steps)) = (res, h1 @ concat (take k steps) @ steps ! k)"
    using Cons.IH by blast
  show ?case
    by (rule exI [of _ "new # steps"]) (use r h1 s in \<open>auto simp: less_Suc_eq_0_disj\<close>)
qed

end

end
