(* ===== verification/Config.thy ===== *)
theory Config
  imports GoNet "HOL-Library.Char_ord" "HOL-Library.List_Lexorder"
begin

section \<open>Package config: settings from the environment\<close>

text \<open>
  \<open>src/internal/config/config.go\<close>. The process environment is a map from names to values; the four
  loaders are functions of it. Durations are 64-bit words, as \<open>time.Duration\<close> is, and a number of
  seconds is multiplied with wrap-around. Two functions of the standard library stay parameters:
  \<open>time.ParseDuration\<close> (which computes with floating point) and \<open>json.Unmarshal\<close> into a map of
  strings. The fingerprint of the log line is not modelled.

  Shown: what each loader promises about an accepted configuration, which values the parsers accept
  and with what result, and where a duration slips through.
\<close>

subsection \<open>Data\<close>

type_synonym env = "string \<rightharpoonup> string"

type_synonym duration = "64 word"

datatype AddressMode = AddressModeBootstrap | AddressModeDHCPRefresh | AddressModeSLAACRAOnly

record ManagedSARecipe =
  sr_Target :: string
  sr_Name :: string
  sr_Image :: string
  sr_GatewayIP :: string
  sr_ExtraEnv :: "(string, string) gomap"
  sr_Labels :: "(string, string) gomap"

definition recipe_Active :: "ManagedSARecipe \<Rightarrow> bool" where
  "recipe_Active r \<longleftrightarrow> sr_Target r \<noteq> []"

record cfg_network_anchor =
  na_ComposeProject :: string
  na_ExtIfaceName :: string
  na_SharedNetwork :: string
  na_ExtNetwork :: string
  na_ExtGatewayIPs :: "net_ip list"
  na_AddressMode :: AddressMode
  na_ManagedSA :: ManagedSARecipe
  na_AutostartSiblings :: bool
  na_AutoFixDeadNetns :: bool
  na_LabelSelector :: "(string, string) gomap"
  na_DHCPHostname :: string
  na_PollInterval :: duration
  na_DHCPBackoffMax :: duration
  na_DockerHost :: string
  na_LogLevel :: string
  na_MetricsAddr :: string

record cfg_rebinder =
  rb_FollowNetwork :: string
  rb_FollowTarget :: string
  rb_Restart :: bool
  rb_EventBackoff :: duration
  rb_SelfProject :: string
  rb_DockerHost :: string
  rb_LogLevel :: string
  rb_MetricsAddr :: string

record cfg_wrap_rebinder =
  wr_SelfProject :: string
  wr_PollInterval :: duration
  wr_RestartTimeout :: duration
  wr_DockerHost :: string
  wr_LogLevel :: string
  wr_MetricsAddr :: string

record cfg_service_anchor =
  sc_GatewayHostname :: string
  sc_GatewayIPs :: "net_ip list"
  sc_ResolveInterval :: duration
  sc_LogLevel :: string
  sc_MetricsAddr :: string

datatype config_error =
    InvalidIP string
  | MoreThanOneIPv4
  | MoreThanOneIPv6
  | InvalidJSON string
  | ReservedComposeLabel string
  | ReservedManagedBy
  | SelectorMissingEquals string
  | SelectorEmptyKey string
  | SelectorConflict string string string
  | InvalidBool string string
  | InvalidAddressMode string
  | InvalidDuration string
  | ProjectRequired
  | FollowNetworkRequired
  | FollowTargetRequired
  | NotPositive string
  | NotNonNegative string

subsection \<open>Helpers\<close>

definition getenvDefault :: "env \<Rightarrow> string \<Rightarrow> string \<Rightarrow> string" where
  "getenvDefault env key def = (let v = str_index env key in if v \<noteq> [] then v else def)"

definition metricsAddrFromEnv :: "env \<Rightarrow> string" where
  "metricsAddrFromEnv env =
     (case env ''ANCHORD_METRICS_ADDR'' of None \<Rightarrow> ''127.0.0.1:9090'' | Some v \<Rightarrow> v)"

definition parseAddressMode :: "string \<Rightarrow> config_error + AddressMode" where
  "parseAddressMode raw =
     (if raw = [] then Inr AddressModeBootstrap
      else if raw = ''bootstrap'' then Inr AddressModeBootstrap
      else if raw = ''dhcp-refresh'' then Inr AddressModeDHCPRefresh
      else if raw = ''slaac-ra-only'' then Inr AddressModeSLAACRAOnly
      else Inl (InvalidAddressMode raw))"

text \<open>\<open>strconv.ParseBool\<close>.\<close>

definition parse_bool :: "string \<Rightarrow> bool option" where
  "parse_bool s =
     (if s \<in> {''1'', ''t'', ''T'', ''TRUE'', ''true'', ''True''} then Some True
      else if s \<in> {''0'', ''f'', ''F'', ''FALSE'', ''false'', ''False''} then Some False
      else None)"

definition parseBoolDefault :: "env \<Rightarrow> string \<Rightarrow> bool \<Rightarrow> config_error + bool" where
  "parseBoolDefault env key def =
     (let raw = trim_space (str_index env key) in
      if raw = [] then Inr def
      else (case parse_bool raw of None \<Rightarrow> Inl (InvalidBool key raw) | Some v \<Rightarrow> Inr v))"

text \<open>\<open>strconv.Atoi\<close> on a 64-bit platform: an optional sign and decimal digits, in range.\<close>

definition atoi :: "string \<Rightarrow> int option" where
  "atoi s =
     (let neg = (s \<noteq> [] \<and> hd s = CHR ''-'');
          digits = (if s \<noteq> [] \<and> (hd s = CHR ''-'' \<or> hd s = CHR ''+'') then tl s else s);
          n = (if neg then - int (dec_val digits) else int (dec_val digits)) in
      if digits = [] \<or> \<not> list_all is_digit digits then None
      else if - (2 ^ 63) \<le> n \<and> n < 2 ^ 63 then Some n else None)"

definition second :: duration where "second = 1000000000"

definition minute :: duration where "minute = 60 * second"

definition parseDuration :: "(string \<Rightarrow> duration option) \<Rightarrow> env \<Rightarrow> string \<Rightarrow> duration
    \<Rightarrow> config_error + duration" where
  "parseDuration parse_duration env key def =
     (let v = str_index env key in
      if v = [] then Inr def
      else (case atoi v of
              Some n \<Rightarrow> Inr (of_int n * second)
            | None \<Rightarrow> (case parse_duration v of None \<Rightarrow> Inl (InvalidDuration key) | Some d \<Rightarrow> Inr d)))"

text \<open>The loop of \<open>parseGatewayIPs\<close> over the comma-separated parts.\<close>

fun gateway_loop :: "string list \<Rightarrow> bool \<Rightarrow> bool \<Rightarrow> net_ip list \<Rightarrow> config_error + net_ip list" where
  "gateway_loop [] sawV4 sawV6 out = Inr out"
| "gateway_loop (part # parts) sawV4 sawV6 out =
     (let s = trim_space part in
      if s = [] then gateway_loop parts sawV4 sawV6 out
      else let ip = parse_ip s in
      if ip = [] then Inl (InvalidIP s)
      else if to4 ip \<noteq> [] then
        (if sawV4 then Inl MoreThanOneIPv4 else gateway_loop parts True sawV6 (out @ [to4 ip]))
      else (if sawV6 then Inl MoreThanOneIPv6 else gateway_loop parts sawV4 True (out @ [ip])))"

definition parseGatewayIPs :: "string \<Rightarrow> config_error + net_ip list" where
  "parseGatewayIPs raw =
     (if trim_space raw = [] then Inr []
      else gateway_loop (split_at_char (CHR '','') raw) False False [])"

fun selector_loop :: "string list \<Rightarrow> (string, string) gomap \<Rightarrow> config_error + (string, string) gomap" where
  "selector_loop [] out = Inr out"
| "selector_loop (part # parts) out =
     (let trimmed = trim_space part in
      if trimmed = [] then selector_loop parts out
      else (case cut_at (CHR ''='') trimmed of (k0, v0, ok) \<Rightarrow>
        if \<not> ok then Inl (SelectorMissingEquals trimmed)
        else let k = trim_space k0; v = trim_space v0 in
        if k = [] then Inl (SelectorEmptyKey trimmed)
        else (case map_of out k of
                Some existing \<Rightarrow>
                  if existing \<noteq> v then Inl (SelectorConflict k existing v)
                  else selector_loop parts (gm_put k v out)
              | None \<Rightarrow> selector_loop parts (gm_put k v out))))"

definition parseLabelSelector :: "string \<Rightarrow> config_error + (string, string) gomap" where
  "parseLabelSelector raw =
     (if trim_space raw = [] then Inr [] else selector_loop (split_at_char (CHR '','') raw) [])"

definition firstSelectorValue :: "(string, string) gomap \<Rightarrow> string" where
  "firstSelectorValue sel =
     (let keys = map fst sel in
      if keys = [] then [] else str_index (map_of sel) (sort keys ! 0))"

definition parseJSONStringMap :: "(string \<Rightarrow> (string, string) gomap option) \<Rightarrow> string \<Rightarrow> string
    \<Rightarrow> config_error + (string, string) gomap" where
  "parseJSONStringMap unmarshal raw envName =
     (let r = trim_space raw in
      if r = [] then Inr []
      else (case unmarshal r of None \<Rightarrow> Inl (InvalidJSON envName) | Some out \<Rightarrow> Inr out))"

text \<open>The check of the label keys; \<open>rng\<close> is the order in which Go ranges over the map.\<close>

fun reserved_labels :: "(string, string) gomap \<Rightarrow> config_error option" where
  "reserved_labels [] = None"
| "reserved_labels ((k, v) # ls) =
     (if has_prefix k ''com.docker.compose.'' then Some (ReservedComposeLabel k)
      else if k = ''anchord.managed-by'' then Some ReservedManagedBy
      else reserved_labels ls)"

definition empty_recipe :: ManagedSARecipe where
  "empty_recipe = \<lparr>sr_Target = [], sr_Name = [], sr_Image = [], sr_GatewayIP = [],
     sr_ExtraEnv = [], sr_Labels = []\<rparr>"

definition parseManagedSARecipe :: "(string \<Rightarrow> (string, string) gomap option)
    \<Rightarrow> ((string, string) gomap \<Rightarrow> (string, string) gomap) \<Rightarrow> env \<Rightarrow> config_error + ManagedSARecipe" where
  "parseManagedSARecipe unmarshal rng env =
     (let target = trim_space (str_index env ''ANCHORD_MANAGED_SA_TARGET'') in
      if target = [] then Inr empty_recipe
      else let name0 = trim_space (str_index env ''ANCHORD_MANAGED_SA_NAME'');
               name = (if name0 = [] then target @ ''-service-anchor'' else name0) in
      (case parseJSONStringMap unmarshal (str_index env ''ANCHORD_MANAGED_SA_EXTRA_ENV'')
              ''ANCHORD_MANAGED_SA_EXTRA_ENV'' of
         Inl e \<Rightarrow> Inl e
       | Inr extra \<Rightarrow>
         (case parseJSONStringMap unmarshal (str_index env ''ANCHORD_MANAGED_SA_LABELS'')
                 ''ANCHORD_MANAGED_SA_LABELS'' of
            Inl e \<Rightarrow> Inl e
          | Inr labels \<Rightarrow>
              (case reserved_labels (rng labels) of
                 Some e \<Rightarrow> Inl e
               | None \<Rightarrow>
                   Inr \<lparr>sr_Target = target, sr_Name = name,
                        sr_Image = trim_space (str_index env ''ANCHORD_MANAGED_SA_IMAGE''),
                        sr_GatewayIP = trim_space (str_index env ''ANCHORD_MANAGED_SA_GATEWAY_IP''),
                        sr_ExtraEnv = extra, sr_Labels = labels\<rparr>))))"

subsection \<open>The loaders\<close>

definition bind_err :: "'e + 'a \<Rightarrow> ('a \<Rightarrow> 'e + 'b) \<Rightarrow> 'e + 'b" where
  "bind_err r f = (case r of Inl e \<Rightarrow> Inl e | Inr x \<Rightarrow> f x)"

lemma bind_err_Inr_iff [simp]: "bind_err r f = Inr y \<longleftrightarrow> (\<exists>x. r = Inr x \<and> f x = Inr y)"
  by (cases r) (simp_all add: bind_err_def)

lemma bind_err_simps [simp]: "bind_err (Inr x) f = f x" "bind_err (Inl e) f = Inl e"
  by (simp_all add: bind_err_def)

definition LoadNetworkAnchor :: "(string \<Rightarrow> duration option) \<Rightarrow> (string \<Rightarrow> (string, string) gomap option)
    \<Rightarrow> ((string, string) gomap \<Rightarrow> (string, string) gomap) \<Rightarrow> env \<Rightarrow> config_error + cfg_network_anchor" where
  "LoadNetworkAnchor parse_duration unmarshal rng env =
     (let project0 = str_index env ''ANCHORD_PROJECT'';
          project = (if project0 = [] then str_index env ''COMPOSE_PROJECT_NAME'' else project0) in
      bind_err (parseLabelSelector (str_index env ''ANCHORD_LABEL_SELECTOR'')) (\<lambda>selector.
      bind_err (parseBoolDefault env ''ANCHORD_AUTOSTART_SIBLINGS'' True) (\<lambda>autostart.
      bind_err (parseBoolDefault env ''ANCHORD_AUTOFIX_DEAD_NETNS'' True) (\<lambda>autofix.
      bind_err (parseManagedSARecipe unmarshal rng env) (\<lambda>managedSA.
      bind_err (parseGatewayIPs (str_index env ''ANCHORD_EXT_GATEWAY_IP'')) (\<lambda>extGws.
      if project = [] \<and> selector = [] then Inl ProjectRequired
      else let host0 = str_index env ''ANCHORD_DHCP_HOSTNAME'';
               host = (if host0 \<noteq> [] then host0
                       else if project \<noteq> [] then project else firstSelectorValue selector) in
      bind_err (parseAddressMode (str_index env ''ANCHORD_ADDRESS_MODE'')) (\<lambda>mode.
      bind_err (parseDuration parse_duration env ''ANCHORD_POLL_INTERVAL'' (30 * second)) (\<lambda>poll.
      bind_err (parseDuration parse_duration env ''ANCHORD_DHCP_BACKOFF_MAX'' (5 * minute)) (\<lambda>backoff.
      Inr \<lparr>na_ComposeProject = project,
           na_ExtIfaceName = getenvDefault env ''ANCHORD_EXT_IFACE'' ''eth0'',
           na_SharedNetwork = str_index env ''ANCHORD_SHARED_NETWORK'',
           na_ExtNetwork = str_index env ''ANCHORD_EXT_NETWORK'',
           na_ExtGatewayIPs = extGws, na_AddressMode = mode, na_ManagedSA = managedSA,
           na_AutostartSiblings = autostart, na_AutoFixDeadNetns = autofix,
           na_LabelSelector = selector, na_DHCPHostname = host,
           na_PollInterval = poll, na_DHCPBackoffMax = backoff,
           na_DockerHost = getenvDefault env ''DOCKER_HOST'' ''unix:///var/run/docker.sock'',
           na_LogLevel = getenvDefault env ''ANCHORD_LOG_LEVEL'' ''info'',
           na_MetricsAddr = metricsAddrFromEnv env\<rparr>)))))))))"

definition LoadServiceAnchor :: "(string \<Rightarrow> duration option) \<Rightarrow> env \<Rightarrow> config_error + cfg_service_anchor" where
  "LoadServiceAnchor parse_duration env =
     bind_err (parseGatewayIPs (str_index env ''ANCHORD_GATEWAY_IP'')) (\<lambda>ips.
     bind_err (parseDuration parse_duration env ''ANCHORD_GATEWAY_RESOLVE_INTERVAL'' (5 * second)) (\<lambda>interval.
     if sint interval \<le> 0 then Inl (NotPositive ''ANCHORD_GATEWAY_RESOLVE_INTERVAL'')
     else Inr \<lparr>sc_GatewayHostname = getenvDefault env ''ANCHORD_GATEWAY_HOSTNAME'' ''anchord'',
               sc_GatewayIPs = ips, sc_ResolveInterval = interval,
               sc_LogLevel = getenvDefault env ''ANCHORD_LOG_LEVEL'' ''info'',
               sc_MetricsAddr = metricsAddrFromEnv env\<rparr>))"

definition LoadRebinder :: "(string \<Rightarrow> duration option) \<Rightarrow> env \<Rightarrow> config_error + cfg_rebinder" where
  "LoadRebinder parse_duration env =
     (let net = trim_space (str_index env ''ANCHORD_FOLLOW_NETWORK'');
          target = trim_space (str_index env ''ANCHORD_FOLLOW_TARGET'') in
      if net = [] then Inl FollowNetworkRequired
      else if target = [] then Inl FollowTargetRequired
      else bind_err (parseBoolDefault env ''ANCHORD_FOLLOW_RESTART'' False) (\<lambda>restart.
           bind_err (parseDuration parse_duration env ''ANCHORD_FOLLOW_EVENT_BACKOFF'' (2 * second)) (\<lambda>backoff.
           if sint backoff < 0 then Inl (NotNonNegative ''ANCHORD_FOLLOW_EVENT_BACKOFF'')
           else Inr \<lparr>rb_FollowNetwork = net, rb_FollowTarget = target, rb_Restart = restart,
                     rb_EventBackoff = backoff,
                     rb_SelfProject = trim_space (str_index env ''COMPOSE_PROJECT_NAME''),
                     rb_DockerHost = getenvDefault env ''DOCKER_HOST'' ''unix:///var/run/docker.sock'',
                     rb_LogLevel = getenvDefault env ''ANCHORD_LOG_LEVEL'' ''info'',
                     rb_MetricsAddr = metricsAddrFromEnv env\<rparr>)))"

definition LoadWrapRebinder :: "(string \<Rightarrow> duration option) \<Rightarrow> env \<Rightarrow> config_error + cfg_wrap_rebinder" where
  "LoadWrapRebinder parse_duration env =
     (let project = trim_space (str_index env ''COMPOSE_PROJECT_NAME'') in
      if project = [] then Inl ProjectRequired
      else bind_err (parseDuration parse_duration env ''ANCHORD_WRAP_POLL_INTERVAL'' (30 * second)) (\<lambda>poll.
           if sint poll \<le> 0 then Inl (NotPositive ''ANCHORD_WRAP_POLL_INTERVAL'')
           else bind_err (parseDuration parse_duration env ''ANCHORD_WRAP_RESTART_TIMEOUT'' (10 * second)) (\<lambda>timeout.
           if sint timeout \<le> 0 then Inl (NotPositive ''ANCHORD_WRAP_RESTART_TIMEOUT'')
           else Inr \<lparr>wr_SelfProject = project, wr_PollInterval = poll, wr_RestartTimeout = timeout,
                     wr_DockerHost = getenvDefault env ''DOCKER_HOST'' ''unix:///var/run/docker.sock'',
                     wr_LogLevel = getenvDefault env ''ANCHORD_LOG_LEVEL'' ''info'',
                     wr_MetricsAddr = metricsAddrFromEnv env\<rparr>)))"

subsection \<open>Gateway lists\<close>

definition is_v4 :: "net_ip \<Rightarrow> bool" where "is_v4 ip \<longleftrightarrow> to4 ip \<noteq> []"

definition canonical :: "net_ip \<Rightarrow> net_ip" where
  "canonical ip = (if is_v4 ip then to4 ip else ip)"

text \<open>The addresses a comma-separated value lists; blank parts do not count.\<close>

definition listed_ips :: "string list \<Rightarrow> net_ip list" where
  "listed_ips parts = map parse_ip (filter (\<lambda>s. s \<noteq> []) (map trim_space parts))"

lemma gateway_loop_iff:
  "gateway_loop parts saw4 saw6 out = Inr ips \<longleftrightarrow>
     [] \<notin> set (listed_ips parts)
     \<and> length (filter is_v4 (listed_ips parts)) + (if saw4 then 1 else 0) \<le> (if saw4 then 1 else 1 :: nat)
     \<and> length (filter (\<lambda>ip. \<not> is_v4 ip) (listed_ips parts)) + (if saw6 then 1 else 0) \<le> (1 :: nat)
     \<and> ips = out @ map canonical (listed_ips parts)"
proof (induction parts saw4 saw6 out rule: gateway_loop.induct)
  case (1 saw4 saw6 out)
  then show ?case by (auto simp: listed_ips_def)
next
  case (2 part parts saw4 saw6 out)
  let ?s = "trim_space part"
  show ?case
  proof (cases "?s = []")
    case True
    then show ?thesis using 2 by (simp add: listed_ips_def Let_def)
  next
    case False
    then have l: "listed_ips (part # parts) = parse_ip ?s # listed_ips parts" by (simp add: listed_ips_def)
    consider "parse_ip ?s = []" | "parse_ip ?s \<noteq> []" "is_v4 (parse_ip ?s)" | "parse_ip ?s \<noteq> []" "\<not> is_v4 (parse_ip ?s)"
      by blast
    then show ?thesis
    proof cases
      case 1
      then show ?thesis using False by (simp add: l Let_def)
    next
      case two: 2
      then have t: "to4 (parse_ip ?s) \<noteq> []" by (simp add: is_v4_def)
      show ?thesis
      proof (cases saw4)
        case True
        then show ?thesis using False two t by (simp add: l Let_def)
      next
        case saw: False
        have "gateway_loop (part # parts) saw4 saw6 out = gateway_loop parts True saw6 (out @ [to4 (parse_ip ?s)])"
          using False two t saw by (simp add: Let_def)
        then show ?thesis
          using "2.IH"(2) [OF refl False refl two(1) t] saw two by (auto simp: l canonical_def)
      qed
    next
      case three: 3
      then have t: "to4 (parse_ip ?s) = []" by (simp add: is_v4_def)
      show ?thesis
      proof (cases saw6)
        case True
        then show ?thesis using False three t by (simp add: l Let_def)
      next
        case saw: False
        have "gateway_loop (part # parts) saw4 saw6 out = gateway_loop parts saw4 True (out @ [parse_ip ?s])"
          using False three t saw by (simp add: Let_def)
        then show ?thesis
          using "2.IH"(3) [OF refl False refl three(1)] t saw three by (auto simp: l canonical_def)
      qed
    qed
  qed
qed

text \<open>\<open>parseGatewayIPs\<close> accepts exactly the lists with at most one IPv4 and at most one IPv6
  address in which every non-blank part is an address, and returns them in order, IPv4 addresses
  in their four-byte form; a blank value is the empty list.\<close>

theorem parseGatewayIPs_exact:
  "parseGatewayIPs raw = Inr ips \<longleftrightarrow>
     (if trim_space raw = [] then ips = []
      else let l = listed_ips (split_at_char (CHR '','') raw) in
        [] \<notin> set l \<and> length (filter is_v4 l) \<le> 1 \<and> length (filter (\<lambda>ip. \<not> is_v4 ip) l) \<le> 1
        \<and> ips = map canonical l)"
  by (auto simp: parseGatewayIPs_def gateway_loop_iff Let_def)

subsection \<open>Label selectors\<close>

definition selector_entries :: "string list \<Rightarrow> string list" where
  "selector_entries parts = filter (\<lambda>s. s \<noteq> []) (map trim_space parts)"

definition entry_pair :: "string \<Rightarrow> (string \<times> string) option" where
  "entry_pair s = (case cut_at (CHR ''='') s of (k, v, ok) \<Rightarrow>
     if ok \<and> trim_space k \<noteq> [] then Some (trim_space k, trim_space v) else None)"

lemma selector_loop_iff:
  assumes "gm_ok out"
  shows "selector_loop parts out = Inr r \<Longrightarrow>
    gm_ok r \<and> (\<exists>ps. map entry_pair (selector_entries parts) = map Some ps
      \<and> (\<forall>k v. map_of r k = Some v \<longleftrightarrow> map_of out k = Some v \<or> (k, v) \<in> set ps))"
  using assms
proof (induction parts arbitrary: out)
  case Nil
  then show ?case by (auto simp: selector_entries_def)
next
  case (Cons part parts)
  let ?s = "trim_space part"
  show ?case
  proof (cases "?s = []")
    case True
    then show ?thesis using Cons by (simp add: selector_entries_def Let_def)
  next
    case False
    obtain k0 v0 ok where cut: "cut_at (CHR ''='') ?s = (k0, v0, ok)" by (cases "cut_at (CHR ''='') ?s") auto
    define k v where "k = trim_space k0" and "v = trim_space v0"
    have ok: ok "k \<noteq> []" "map_of out k = None \<or> map_of out k = Some v"
      and rest: "selector_loop parts (gm_put k v out) = Inr r"
      using Cons.prems(1) False by (auto simp: cut Let_def k_def v_def split: if_splits option.splits)
    have pair: "entry_pair ?s = Some (k, v)" using ok by (simp add: entry_pair_def cut k_def v_def)
    have IH: "gm_ok r \<and> (\<exists>ps. map entry_pair (selector_entries parts) = map Some ps
      \<and> (\<forall>k' v'. map_of r k' = Some v' \<longleftrightarrow> map_of (gm_put k v out) k' = Some v' \<or> (k', v') \<in> set ps))"
      by (rule Cons.IH [OF rest]) (simp add: Cons.prems(2))
    then obtain ps where ps: "map entry_pair (selector_entries parts) = map Some ps"
      "\<And>k' v'. map_of r k' = Some v' \<longleftrightarrow> map_of (gm_put k v out) k' = Some v' \<or> (k', v') \<in> set ps" by blast
    have "map entry_pair (selector_entries (part # parts)) = map Some ((k, v) # ps)"
      using False pair ps(1) by (simp add: selector_entries_def)
    moreover have "map_of r k' = Some v' \<longleftrightarrow> map_of out k' = Some v' \<or> (k', v') \<in> set ((k, v) # ps)" for k' v'
      using ps(2) ok(3) by (cases "k' = k") auto
    ultimately show ?thesis using IH by blast
  qed
qed

text \<open>An accepted label selector is the map its entries state: every non-blank entry has the form
  key=value with a non-empty key, each key has one value, and a key and value are in the map
  exactly when some entry states them. The value chosen from it as a host name does not depend on
  the order Go ranges over the map.\<close>

theorem parseLabelSelector_sound:
  assumes "parseLabelSelector raw = Inr sel" "trim_space raw \<noteq> []" "range_perm rng"
  shows "gm_ok sel \<and> (\<exists>ps. map entry_pair (selector_entries (split_at_char (CHR '','') raw)) = map Some ps
      \<and> (\<forall>k v. map_of sel k = Some v \<longleftrightarrow> (k, v) \<in> set ps))
    \<and> firstSelectorValue (rng sel) = firstSelectorValue sel"
proof -
  have sel: "selector_loop (split_at_char (CHR '','') raw) [] = Inr sel"
    using assms(1,2) by (simp add: parseLabelSelector_def)
  have ok: "gm_ok sel" using selector_loop_iff [OF _ sel] by simp
  have "mset (map fst (rng sel)) = mset (map fst sel)"
    using assms(3) by (simp add: range_perm_def)
  then have "sort (map fst (rng sel)) = sort (map fst sel)"
    by (metis mset_sort sorted_sort properties_for_sort)
  moreover have "map fst (rng sel) = [] \<longleftrightarrow> map fst sel = []"
    using range_perm_length [OF assms(3), of sel] by (metis length_0_conv map_is_Nil_conv)
  ultimately have "firstSelectorValue (rng sel) = firstSelectorValue sel"
    using assms(3) ok by (simp add: firstSelectorValue_def Let_def)
  then show ?thesis using selector_loop_iff [OF _ sel] by auto
qed

subsection \<open>Durations and loaders\<close>

text \<open>The whole seconds that fit a duration.\<close>

lemma parseGatewayIPs_at_most: "parseGatewayIPs raw = Inr ips \<Longrightarrow> length (filter is_v4 ips) \<le> 1"
proof -
  assume "parseGatewayIPs raw = Inr ips"
  moreover have "is_v4 (canonical ip) = is_v4 ip" for ip by (simp add: canonical_def is_v4_def)
  then have "length (filter is_v4 (map canonical l)) = length (filter is_v4 l)" for l
    by (induction l) auto
  ultimately show ?thesis by (auto simp: parseGatewayIPs_def gateway_loop_iff split: if_splits)
qed

lemma duration_exact:
  assumes "- 9223372036 \<le> n" "n \<le> 9223372036"
  shows "sint (of_int n * second :: duration) = n * 1000000000"
proof -
  have "of_int n * second = (of_int (n * 1000000000) :: duration)"
    by (simp add: second_def)
  then have "sint (of_int n * second :: duration) = signed_take_bit 63 (n * 1000000000)"
    by (simp only: signed_of_int) simp
  then show ?thesis using assms by (simp add: signed_take_bit_int_eq_self)
qed

lemma recipe_ok:
  "parseManagedSARecipe js rng env = Inr r \<Longrightarrow> recipe_Active r
    \<Longrightarrow> sr_Name r \<noteq> [] \<and> reserved_labels (rng (sr_Labels r)) = None"
  by (auto simp: parseManagedSARecipe_def recipe_Active_def empty_recipe_def Let_def
      split: if_splits sum.splits option.splits)

text \<open>What the loaders promise. A service anchor has a positive resolve interval and a gateway list
  of at most one address per family; an external rebinder has a network, a follower and a
  non-negative backoff; a wrap rebinder has a project and positive intervals; a network anchor has
  a project or a selector, and a managed recipe that is active has a name and no reserved label.\<close>

theorem loaders_validate:
  "(LoadServiceAnchor pd env = Inr sc \<longrightarrow> 0 < sint (sc_ResolveInterval sc)
      \<and> length (filter is_v4 (sc_GatewayIPs sc)) \<le> 1)
   \<and> (LoadRebinder pd env = Inr rb \<longrightarrow> rb_FollowNetwork rb \<noteq> [] \<and> rb_FollowTarget rb \<noteq> []
      \<and> 0 \<le> sint (rb_EventBackoff rb))
   \<and> (LoadWrapRebinder pd env = Inr wr \<longrightarrow> wr_SelfProject wr \<noteq> []
      \<and> 0 < sint (wr_PollInterval wr) \<and> 0 < sint (wr_RestartTimeout wr))
   \<and> (LoadNetworkAnchor pd js rng env = Inr na \<longrightarrow>
      (na_ComposeProject na \<noteq> [] \<or> na_LabelSelector na \<noteq> [])
      \<and> (recipe_Active (na_ManagedSA na) \<longrightarrow> sr_Name (na_ManagedSA na) \<noteq> []
           \<and> reserved_labels (rng (sr_Labels (na_ManagedSA na))) = None))"
proof (intro conjI impI)
  show "0 < sint (sc_ResolveInterval sc)" if "LoadServiceAnchor pd env = Inr sc"
    using that by (auto simp: LoadServiceAnchor_def split: if_splits)
  show "length (filter is_v4 (sc_GatewayIPs sc)) \<le> 1" if "LoadServiceAnchor pd env = Inr sc"
    using that parseGatewayIPs_at_most by (auto simp: LoadServiceAnchor_def split: if_splits)
  assume rb: "LoadRebinder pd env = Inr rb"
  show "rb_FollowNetwork rb \<noteq> []" "rb_FollowTarget rb \<noteq> []" "0 \<le> sint (rb_EventBackoff rb)"
    using rb by (auto simp: LoadRebinder_def Let_def split: if_splits)
next
  assume wr: "LoadWrapRebinder pd env = Inr wr"
  show "wr_SelfProject wr \<noteq> []" "0 < sint (wr_PollInterval wr)" "0 < sint (wr_RestartTimeout wr)"
    using wr by (auto simp: LoadWrapRebinder_def Let_def split: if_splits)
next
  assume na: "LoadNetworkAnchor pd js rng env = Inr na"
  show "na_ComposeProject na \<noteq> [] \<or> na_LabelSelector na \<noteq> []"
    using na by (auto simp: LoadNetworkAnchor_def Let_def split: if_splits)
  obtain r where r: "parseManagedSARecipe js rng env = Inr r" "na_ManagedSA na = r"
    using na by (auto simp: LoadNetworkAnchor_def Let_def split: if_splits)
  show "sr_Name (na_ManagedSA na) \<noteq> []" "reserved_labels (rng (sr_Labels (na_ManagedSA na))) = None"
    if "recipe_Active (na_ManagedSA na)"
    using recipe_ok [OF r(1)] that r(2) by simp_all
qed

definition env_of :: "(string \<times> string) list \<Rightarrow> env" where
  "env_of kvs = map_of kvs"

lemmas env_eval = str_index_def parse_v4_def parse_bool_def parseBoolDefault_def metricsAddrFromEnv_def
  getenvDefault_def parseDuration_def parseGatewayIPs_def parseManagedSARecipe_def Let_def env_of_def
  parseLabelSelector_def parseAddressMode_def

lemma loaders_validate_witness:
  "\<exists>sc. LoadServiceAnchor (\<lambda>_. None) Map.empty = Inr sc \<and> 0 < sint (sc_ResolveInterval sc)"
proof -
  obtain sc where sc: "LoadServiceAnchor (\<lambda>_. None) Map.empty = Inr sc"
    by (simp add: LoadServiceAnchor_def env_eval second_def)
  then show ?thesis using loaders_validate [of "\<lambda>_. None" Map.empty sc] by blast
qed

lemma parseGatewayIPs_exact_witness:
  "parseGatewayIPs ''10.0.0.1'' = Inr [[10, 0, 0, 1]]"
proof -
  have "v4_string [10, 0, 0, 1] = ''10.0.0.1''"
    by (simp add: v4_string_def show_nat.simps digit_char_def char_of_def bit_Suc_0_iff)
  then have "parse_ip ''10.0.0.1'' = v4in6_prefix @ [10, 0, 0, 1]"
    using parse_ip_v4_string [of "[10, 0, 0, 1]"] by simp
  moreover have "trim_space ''10.0.0.1'' = ''10.0.0.1''"
    by (rule trim_space_plain) (simp add: plain_char_def)
  ultimately show ?thesis
    unfolding parseGatewayIPs_exact
    by (simp add: listed_ips_def is_v4_def canonical_def to4_def v4in6_prefix_def)
qed

lemma parseLabelSelector_sound_witness:
  "\<exists>sel. parseLabelSelector ''a=b'' = Inr sel \<and> map_of sel ''a'' = Some ''b''"
proof -
  have t: "trim_space ''a=b'' = ''a=b''" "trim_space ''a'' = ''a''" "trim_space ''b'' = ''b''"
    by (rule trim_space_plain, simp add: plain_char_def)+
  have sel: "parseLabelSelector ''a=b'' = Inr [(''a'', ''b'')]"
    by (simp add: parseLabelSelector_def t Let_def gm_put_def)
  have "\<exists>ps. map entry_pair (selector_entries (split_at_char (CHR '','') ''a=b'')) = map Some ps
      \<and> (\<forall>k v. map_of [(''a'', ''b'')] k = Some v \<longleftrightarrow> (k, v) \<in> set ps)"
    using parseLabelSelector_sound [OF sel _ range_perm_id] t by simp
  then show ?thesis using sel by auto
qed

text \<open>Two intervals slip through. A network anchor accepts a poll interval of 0, with which the
  ticker of the poll loop cannot be made; and a service anchor accepts 18446744074 seconds, whose
  product with the length of a second wraps around, as 290448384 nanoseconds.\<close>

theorem intervals_slip_through:
  "(\<exists>na. LoadNetworkAnchor (\<lambda>_. None) (\<lambda>_. None) (\<lambda>ls. ls)
       (env_of [(''ANCHORD_PROJECT'', ''p''), (''ANCHORD_POLL_INTERVAL'', ''0'')]) = Inr na
     \<and> na_PollInterval na = 0)
   \<and> (\<exists>sc. LoadServiceAnchor (\<lambda>_. None)
       (env_of [(''ANCHORD_GATEWAY_RESOLVE_INTERVAL'', ''18446744074'')]) = Inr sc
     \<and> sint (sc_ResolveInterval sc) = 290448384)"
proof
  have "atoi ''0'' = Some 0" by (simp add: atoi_def is_digit_def dec_val_def digit_val_def Let_def)
  then show "\<exists>na. LoadNetworkAnchor (\<lambda>_. None) (\<lambda>_. None) (\<lambda>ls. ls)
       (env_of [(''ANCHORD_PROJECT'', ''p''), (''ANCHORD_POLL_INTERVAL'', ''0'')]) = Inr na
     \<and> na_PollInterval na = 0"
    by (simp add: LoadNetworkAnchor_def env_eval second_def)
  have "atoi ''18446744074'' = Some 18446744074"
    by (simp add: atoi_def is_digit_def dec_val_def digit_val_def Let_def)
  then show "\<exists>sc. LoadServiceAnchor (\<lambda>_. None)
       (env_of [(''ANCHORD_GATEWAY_RESOLVE_INTERVAL'', ''18446744074'')]) = Inr sc
     \<and> sint (sc_ResolveInterval sc) = 290448384"
    by (simp add: LoadServiceAnchor_def env_eval second_def)
qed

end
