(* ===== verification/Autostart.thy ===== *)
theory Autostart
  imports DockerApi Config
begin

section \<open>Package autostart: waiting siblings and the managed service anchor\<close>

text \<open>
  \<open>src/internal/autostart/autostart.go\<close>. The operations of the interface \<open>dockerOps\<close> are the
  functions \<open>as_List\<close>, \<open>as_Start\<close>, ..., translated from the production adapter, over the daemon of
  theory \<open>DockerApi\<close>; every operation returns the history it leaves. The host name of the process
  (what \<open>selfHostname\<close> reads) is a field of the watcher. Logging is left out, and with it the
  argument \<open>source\<close>.

  Shown: an event about a started container starts exactly the containers in state created that
  wait for it; the managed service anchor is created only when it is absent or after the stale one
  has been removed; after a recreate every container that shared the old anchor's namespace is
  tried against the new one, each call as far as the daemon lets it, which is not to the end where a host name is
  refused in a shared namespace; the assembled specification.
\<close>

subsection \<open>Data\<close>

record as_container =
  as_ID :: string
  as_Names :: "string list"
  as_State :: string
  as_NetworkMode :: string
  as_ImageID :: string

record as_event =
  Action :: string
  ActorID :: string
  ActorName :: string

record create_spec =
  sp_Name :: string
  sp_Image :: string
  sp_Env :: "string list"
  sp_Labels :: "(string, string) gomap"
  sp_NetworkMode :: string
  sp_CapAdd :: "string list"
  sp_Restart :: string

record self_info =
  si_Image :: string
  si_ImageID :: string
  IPsByNetwork :: "string \<rightharpoonup> string"

record as_watcher =
  as_recipe :: ManagedSARecipe
  sharedNetFn :: "(dk_history \<Rightarrow> string) option"
  autoFixDeadNetns :: bool
  as_host :: string

definition as_New :: "string \<Rightarrow> ManagedSARecipe \<Rightarrow> as_watcher" where
  "as_New host recipe = \<lparr>as_recipe = recipe, sharedNetFn = None, autoFixDeadNetns = False, as_host = host\<rparr>"

definition as_sharedNet :: "as_watcher \<Rightarrow> dk_history \<Rightarrow> string" where
  "as_sharedNet w h = (case sharedNetFn w of None \<Rightarrow> [] | Some f \<Rightarrow> f h)"

subsection \<open>The adapter\<close>

definition as_info :: "ct_summary \<Rightarrow> as_container" where
  "as_info c = \<lparr>as_ID = cs_ID c, as_Names = cs_Names c, as_State = cs_State c,
     as_NetworkMode = cs_NetworkMode c, as_ImageID = cs_ImageID c\<rparr>"

definition as_List :: "dk_daemon \<Rightarrow> dk_history \<Rightarrow> as_container list option \<times> dk_history" where
  "as_List D h = (map_option (map as_info) (d_list D h), h @ [CList])"

definition as_Start :: "dk_daemon \<Rightarrow> string \<Rightarrow> dk_history \<Rightarrow> bool \<times> dk_history" where
  "as_Start D i h = (d_start D h i, h @ [CStart i])"

definition as_Remove :: "dk_daemon \<Rightarrow> string \<Rightarrow> dk_history \<Rightarrow> bool \<times> dk_history" where
  "as_Remove D i h = (d_remove D h i, h @ [CRemove i])"

definition create_call :: "create_spec \<Rightarrow> create_req" where
  "create_call s = \<lparr>cr_Config = \<lparr>cc_Image = sp_Image s, cc_Env = sp_Env s, cc_Labels = sp_Labels s,
       cc_Hostname = [], cc_Domainname = [], cc_MacAddress = [], cc_ExposedPorts = [], cc_rest = []\<rparr>,
     cr_HostConfig = \<lparr>hc_NetworkMode = sp_NetworkMode s, hc_CapAdd = sp_CapAdd s,
       hc_Restart = sp_Restart s, hc_rest = []\<rparr>,
     cr_Name = sp_Name s\<rparr>"

definition as_Create :: "dk_daemon \<Rightarrow> create_spec \<Rightarrow> dk_history \<Rightarrow> string option \<times> dk_history" where
  "as_Create D s h = (d_create D h (create_call s), h @ [CCreate (create_call s)])"

text \<open>\<open>InspectSelf\<close> dereferences the pointer \<open>insp.Config\<close>, which panics when it is nil.\<close>

definition as_self_info :: "ct_config \<Rightarrow> ct_inspect \<Rightarrow> self_info" where
  "as_self_info cfg insp = \<lparr>si_Image = cc_Image cfg, si_ImageID = ci_Image insp,
     IPsByNetwork = (\<lambda>name. case ci_Networks insp of None \<Rightarrow> None
        | Some nets \<Rightarrow> (case map_of nets name of
             Some (Some n) \<Rightarrow> if ne_IPAddress n \<noteq> [] then Some (ne_IPAddress n) else None
           | _ \<Rightarrow> None))\<rparr>"

definition as_InspectSelf :: "dk_daemon \<Rightarrow> string \<Rightarrow> dk_history \<Rightarrow> self_info option \<times> dk_history" where
  "as_InspectSelf D host h =
     (case d_inspect D h host of None \<Rightarrow> (None, h @ [CInspect host])
      | Some insp \<Rightarrow> (case ci_Config insp of
            None \<Rightarrow> (None, h @ [CInspect host, CPanic])
          | Some cfg \<Rightarrow> (Some (as_self_info cfg insp), h @ [CInspect host])))"

definition RecreateWithNetworkMode :: "dk_daemon \<Rightarrow> string \<Rightarrow> string \<Rightarrow> dk_history \<Rightarrow> string option \<times> dk_history" where
  "RecreateWithNetworkMode D i newNetMode h =
     (let h1 = h @ [CInspect i] in
      case d_inspect D h i of None \<Rightarrow> (None, h1)
      | Some insp \<Rightarrow>
         (case (ci_Config insp, ci_HostConfig insp) of
            (Some cfg, Some hostCfg) \<Rightarrow>
              (let newHostConfig = hostCfg\<lparr>hc_NetworkMode := newNetMode\<rparr>;
                   name = trim_prefix (ci_Name insp) ''/'';
                   h2 = h1 @ [CRemove i];
                   req = \<lparr>cr_Config = cfg, cr_HostConfig = newHostConfig, cr_Name = name\<rparr>;
                   h3 = h2 @ [CCreate req] in
               if \<not> d_remove D h1 i then (None, h2)
               else (case d_create D h2 req of None \<Rightarrow> (None, h3)
                     | Some j \<Rightarrow> if \<not> d_start D h3 j then (None, h3 @ [CStart j])
                                 else (Some j, h3 @ [CStart j])))
          | _ \<Rightarrow> (None, h1)))"

subsection \<open>Pure functions over a container list\<close>

definition referencesFor :: "as_container \<Rightarrow> string set" where
  "referencesFor c =
     (if as_ID c \<noteq> [] then insert (as_ID c) (if 12 \<le> length (as_ID c) then {take 12 (as_ID c)} else {}) else {})
     \<union> set (map (\<lambda>n. trim_prefix n ''/'') (as_Names c))"

fun matchSiblings_loop :: "string set \<Rightarrow> as_container list \<Rightarrow> string list" where
  "matchSiblings_loop refs [] = []"
| "matchSiblings_loop refs (c # cs) =
     (if \<not> equal_fold (as_State c) ''created'' then matchSiblings_loop refs cs
      else case cut_prefix (as_NetworkMode c) ''container:'' of
             None \<Rightarrow> matchSiblings_loop refs cs
           | Some ref \<Rightarrow> if trim_prefix ref ''/'' \<in> refs then as_ID c # matchSiblings_loop refs cs
                         else matchSiblings_loop refs cs)"

definition matchSiblings :: "as_container list \<Rightarrow> as_container \<Rightarrow> string list" where
  "matchSiblings all target =
     (let refs = referencesFor target in if refs = {} then [] else matchSiblings_loop refs all)"

definition targetMatchesRecipe :: "as_container \<Rightarrow> string \<Rightarrow> bool" where
  "targetMatchesRecipe target recipeTarget \<longleftrightarrow>
     recipeTarget \<noteq> [] \<and> trim_prefix recipeTarget ''/'' \<in> referencesFor target"

definition hasName :: "as_container \<Rightarrow> string \<Rightarrow> bool" where
  "hasName c name \<longleftrightarrow>
     (let target = trim_prefix name ''/'' in list_ex (\<lambda>n. trim_prefix n ''/'' = target) (as_Names c))"

definition saUsesStaleImage :: "as_container \<Rightarrow> self_info \<Rightarrow> ManagedSARecipe \<Rightarrow> bool" where
  "saUsesStaleImage sa self recipe \<longleftrightarrow>
     (if sr_Image recipe \<noteq> [] then False
      else if as_ImageID sa = [] \<or> si_ImageID self = [] then False
      else as_ImageID sa \<noteq> si_ImageID self)"

fun stale_loop :: "string \<Rightarrow> as_container \<Rightarrow> as_container list \<Rightarrow> bool" where
  "stale_loop ref target [] = True"
| "stale_loop ref target (c # cs) =
     (if as_ID c = ref \<or> (12 \<le> length ref \<and> has_prefix (as_ID c) ref) then as_ID c \<noteq> as_ID target
      else if list_ex (\<lambda>n. trim_prefix n ''/'' = ref) (as_Names c) then as_ID c \<noteq> as_ID target
      else stale_loop ref target cs)"

definition saTargetsStaleNetns :: "as_container \<Rightarrow> as_container \<Rightarrow> as_container list \<Rightarrow> bool" where
  "saTargetsStaleNetns sa target all =
     (case cut_prefix (as_NetworkMode sa) ''container:'' of None \<Rightarrow> False
      | Some ref0 \<Rightarrow> (let ref = trim_space ref0 in if ref = [] then False else stale_loop ref target all))"

definition findOrphanCandidates :: "as_container list \<Rightarrow> as_container \<Rightarrow> as_container list" where
  "findOrphanCandidates all sa =
     (let refs = referencesFor sa in
      if refs = {} then []
      else filter (\<lambda>c. as_ID c \<noteq> as_ID sa
             \<and> (case cut_prefix (as_NetworkMode c) ''container:'' of None \<Rightarrow> False
                | Some ref \<Rightarrow> trim_space ref \<in> refs)) all)"

subsection \<open>The managed service anchor\<close>

datatype spec_error = NoImage | SharedNetworkUnknown | NoIPOnShared string

definition put_all :: "(string, string) gomap \<Rightarrow> (string, string) gomap \<Rightarrow> (string, string) gomap" where
  "put_all extra m = foldl (\<lambda>m (k, v). gm_put k v m) m extra"

definition spec_env :: "string \<Rightarrow> (string, string) gomap \<Rightarrow> string list" where
  "spec_env gatewayIP extraEnv =
     (let envMap = put_all extraEnv
            [(''ANCHORD_MODE'', ''service-anchor''), (''ANCHORD_GATEWAY_IP'', gatewayIP),
             (''ANCHORD_LOG_LEVEL'', ''info'')];
          keys = sort (map fst envMap)
      in map (\<lambda>k. k @ ''='' @ str_index (map_of envMap) k) keys)"

definition spec_gateway :: "as_watcher \<Rightarrow> self_info \<Rightarrow> dk_history \<Rightarrow> spec_error + string" where
  "spec_gateway w self h =
     (if sr_GatewayIP (as_recipe w) \<noteq> [] then Inr (sr_GatewayIP (as_recipe w))
      else let shared = as_sharedNet w h in
           if shared = [] then Inl SharedNetworkUnknown
           else let ip = str_index (IPsByNetwork self) shared in
                if ip = [] then Inl (NoIPOnShared shared) else Inr ip)"

definition assemble_spec :: "ManagedSARecipe \<Rightarrow> string \<Rightarrow> string \<Rightarrow> create_spec" where
  "assemble_spec recipe img gatewayIP =
     \<lparr>sp_Name = sr_Name recipe, sp_Image = img,
      sp_Env = spec_env gatewayIP (sr_ExtraEnv recipe),
      sp_Labels = gm_put ''anchord.managed-by'' ''f45'' (put_all (sr_Labels recipe) []),
      sp_NetworkMode = ''container:'' @ sr_Target recipe,
      sp_CapAdd = [''NET_ADMIN''], sp_Restart = ''unless-stopped''\<rparr>"

definition buildSpec :: "as_watcher \<Rightarrow> self_info \<Rightarrow> dk_history \<Rightarrow> spec_error + create_spec" where
  "buildSpec w self h =
     (let recipe = as_recipe w;
          img = (if sr_Image recipe = [] then si_Image self else sr_Image recipe) in
      if img = [] then Inl NoImage
      else case spec_gateway w self h of Inl e \<Rightarrow> Inl e
           | Inr gatewayIP \<Rightarrow> Inr (assemble_spec recipe img gatewayIP))"

definition createAndStartManaged :: "dk_daemon \<Rightarrow> as_watcher \<Rightarrow> dk_history \<Rightarrow> string option \<times> dk_history" where
  "createAndStartManaged D w h =
     (case as_InspectSelf D (as_host w) h of (None, h1) \<Rightarrow> (None, h1)
      | (Some self, h1) \<Rightarrow>
         (case buildSpec w self h1 of Inl e \<Rightarrow> (None, h1)
          | Inr spec \<Rightarrow>
             (case as_Create D spec h1 of (None, h2) \<Rightarrow> (None, h2)
              | (Some i, h2) \<Rightarrow>
                 (case as_Start D i h2 of (ok, h3) \<Rightarrow> (if ok then Some i else None, h3)))))"

primrec rebind_loop :: "dk_daemon \<Rightarrow> string \<Rightarrow> as_container list \<Rightarrow> dk_history \<Rightarrow> dk_history" where
  "rebind_loop D newNetMode [] h = h"
| "rebind_loop D newNetMode (dep # deps) h =
     rebind_loop D newNetMode deps (snd (RecreateWithNetworkMode D (as_ID dep) newNetMode h))"

text \<open>The code tells failure of \<open>createAndStartManaged\<close> by an empty ID; here it is \<open>None\<close>, or an
  empty ID given out by the daemon.\<close>

definition recreateSAWithOrphanRebind :: "dk_daemon \<Rightarrow> as_watcher \<Rightarrow> as_container list \<Rightarrow> string
    \<Rightarrow> as_container option \<Rightarrow> dk_history \<Rightarrow> dk_history" where
  "recreateSAWithOrphanRebind D w all oldSAID oldSA h =
     (let orphans = (case oldSA of None \<Rightarrow> []
                     | Some sa \<Rightarrow> if autoFixDeadNetns w then findOrphanCandidates all sa else []);
          (removed, h1) = (if oldSAID \<noteq> [] then as_Remove D oldSAID h else (True, h)) in
      if \<not> removed then h1
      else case createAndStartManaged D w h1 of (newID, h2) \<Rightarrow>
        (case newID of None \<Rightarrow> h2
         | Some i \<Rightarrow> if i = [] then h2 else rebind_loop D (''container:'' @ i) orphans h2))"

definition maybeManage :: "dk_daemon \<Rightarrow> as_watcher \<Rightarrow> as_container list \<Rightarrow> as_container
    \<Rightarrow> self_info option \<Rightarrow> dk_history \<Rightarrow> dk_history" where
  "maybeManage D w all target self h =
     (if \<not> recipe_Active (as_recipe w) then h
      else if \<not> targetMatchesRecipe target (sr_Target (as_recipe w)) then h
      else case find (\<lambda>c. hasName c (sr_Name (as_recipe w))) all of
        None \<Rightarrow> recreateSAWithOrphanRebind D w all [] None h
      | Some existing \<Rightarrow>
          (let state = to_lower (as_State existing) in
           if state = ''running'' then
             (let stale = saTargetsStaleNetns existing target all;
                  drift = (case self of None \<Rightarrow> False | Some s \<Rightarrow> saUsesStaleImage existing s (as_recipe w)) in
              if \<not> stale \<and> \<not> drift then h
              else recreateSAWithOrphanRebind D w all (as_ID existing) (Some existing) h)
           else if state = ''created'' then h
           else snd (as_Start D (as_ID existing) h)))"

subsection \<open>Events\<close>

primrec start_all :: "dk_daemon \<Rightarrow> string list \<Rightarrow> dk_history \<Rightarrow> dk_history" where
  "start_all D [] h = h"
| "start_all D (i # is) h = start_all D is (snd (as_Start D i h))"

definition handleTargetStart :: "dk_daemon \<Rightarrow> as_watcher \<Rightarrow> as_container \<Rightarrow> dk_history \<Rightarrow> dk_history" where
  "handleTargetStart D w target h =
     (case as_List D h of (None, h1) \<Rightarrow> h1
      | (Some all, h1) \<Rightarrow> maybeManage D w all target None (start_all D (matchSiblings all target) h1))"

definition handleSAGone :: "dk_daemon \<Rightarrow> as_watcher \<Rightarrow> string \<Rightarrow> dk_history \<Rightarrow> dk_history" where
  "handleSAGone D w saName h =
     (if \<not> recipe_Active (as_recipe w) then h
      else if trim_prefix saName ''/'' \<noteq> trim_prefix (sr_Name (as_recipe w)) ''/'' then h
      else case as_List D h of (None, h1) \<Rightarrow> h1
      | (Some all, h1) \<Rightarrow>
         (case find (\<lambda>c. targetMatchesRecipe c (sr_Target (as_recipe w))) all of
            None \<Rightarrow> h1
          | Some target \<Rightarrow> if \<not> equal_fold (as_State target) ''running'' then h1
                           else maybeManage D w all target None h1))"

fun backfill_loop :: "dk_daemon \<Rightarrow> as_watcher \<Rightarrow> as_container list \<Rightarrow> self_info option
    \<Rightarrow> as_container list \<Rightarrow> dk_history \<Rightarrow> dk_history" where
  "backfill_loop D w all self [] h = h"
| "backfill_loop D w all self (t # ts) h =
     (if crashed h then h
      else if as_State t \<noteq> ''running'' then backfill_loop D w all self ts h
      else backfill_loop D w all self ts
             (maybeManage D w all t self (start_all D (matchSiblings all t) h)))"

definition as_backfill :: "dk_daemon \<Rightarrow> as_watcher \<Rightarrow> dk_history \<Rightarrow> dk_history" where
  "as_backfill D w h =
     (case as_List D h of (None, h1) \<Rightarrow> h1
      | (Some all, h1) \<Rightarrow>
         (case (if recipe_Active (as_recipe w) \<and> sr_Image (as_recipe w) = [] then as_InspectSelf D (as_host w) h1
                else (None, h1)) of
            (self, h2) \<Rightarrow> backfill_loop D w all self all h2))"

fun as_consume :: "dk_daemon \<Rightarrow> as_watcher \<Rightarrow> as_event list \<Rightarrow> dk_history \<Rightarrow> dk_history" where
  "as_consume D w [] h = h"
| "as_consume D w (m # ms) h =
     (if crashed h then h
      else as_consume D w ms
        (if Action m = ''start'' then
           handleTargetStart D w \<lparr>as_ID = ActorID m, as_Names = [ActorName m], as_State = ''running'',
             as_NetworkMode = [], as_ImageID = []\<rparr> h
         else if Action m = ''destroy'' then handleSAGone D w (ActorName m) h
         else h))"

text \<open>\<open>Run\<close>: the backfill, then one event stream after the other, two seconds apart.\<close>

primrec as_streams :: "dk_daemon \<Rightarrow> as_watcher \<Rightarrow> as_event list list \<Rightarrow> dk_history \<Rightarrow> dk_history" where
  "as_streams D w [] h = h"
| "as_streams D w (ms # mss) h =
     (let h1 = as_consume D w ms h in if crashed h1 then h1 else as_streams D w mss (h1 @ [CSleep 2000000000]))"

definition as_Run :: "dk_daemon \<Rightarrow> as_watcher \<Rightarrow> as_event list list \<Rightarrow> dk_history \<Rightarrow> dk_history" where
  "as_Run D w mss h = (let h1 = as_backfill D w h in if crashed h1 then h1 else as_streams D w mss h1)"

subsection \<open>The recreate interface\<close>

interpretation as_rec: netmode_recreator RecreateWithNetworkMode "\<lambda>mode cfg. True"
proof unfold_locales
  fix D :: dk_daemon and i mode h res h'
  assume "RecreateWithNetworkMode D i mode h = (res, h')"
  then show "\<exists>new. h' = h @ new \<and> (\<forall>k. CRemove k \<in> set new \<longrightarrow> k = i)"
    by (auto simp: RecreateWithNetworkMode_def Let_def split: option.splits if_splits)
next
  fix D :: dk_daemon and i mode h j h'
  assume "RecreateWithNetworkMode D i mode h = (Some j, h')"
  then show "\<exists>insp r. d_inspect D h i = Some insp \<and> hc_NetworkMode (cr_HostConfig r) = mode
        \<and> cr_Name r = trim_prefix (ci_Name insp) ''/'' \<and> True
        \<and> h' = h @ [CInspect i, CRemove i, CCreate r, CStart j]"
    by (auto simp: RecreateWithNetworkMode_def Let_def split: option.splits if_splits)
next
  fix D :: dk_daemon and i mode h
  assume "d_inspect D h i = None"
  then show "RecreateWithNetworkMode D i mode h = (None, h @ [CInspect i])"
    by (simp add: RecreateWithNetworkMode_def Let_def)
qed

lemma rebind_loop_recreate_all: "rebind_loop D mode deps h = as_rec.recreate_all D mode (map as_ID deps) h"
  by (induction deps arbitrary: h) simp_all

lemma rebind_loop_grows: "\<exists>new. rebind_loop D mode deps h = h @ new"
  unfolding rebind_loop_recreate_all by (rule as_rec.recreate_all_grows)

subsection \<open>Lemmas\<close>

lemma start_all_eq: "start_all D is h = h @ map CStart is"
  by (induction "is" arbitrary: h) (simp_all add: as_Start_def)

lemma matchSiblings_loop_filter:
  "matchSiblings_loop refs all = map as_ID (filter (\<lambda>c. equal_fold (as_State c) ''created''
     \<and> (case cut_prefix (as_NetworkMode c) ''container:'' of None \<Rightarrow> False
        | Some ref \<Rightarrow> trim_prefix ref ''/'' \<in> refs)) all)"
  by (induction all) (auto split: option.split)

lemma matchSiblings_filter:
  "matchSiblings all target = map as_ID (filter (\<lambda>c. equal_fold (as_State c) ''created''
     \<and> (case cut_prefix (as_NetworkMode c) ''container:'' of None \<Rightarrow> False
        | Some ref \<Rightarrow> trim_prefix ref ''/'' \<in> referencesFor target)) all)"
proof (cases "referencesFor target = {}")
  case True
  then show ?thesis by (simp add: matchSiblings_def Let_def filter_empty_conv split: option.split)
next
  case False
  then show ?thesis by (simp add: matchSiblings_def Let_def matchSiblings_loop_filter)
qed

lemma createAndStart_shape:
  assumes "createAndStartManaged D w h = (res, h')"
  shows "\<exists>new. h' = h @ CInspect (as_host w) # new \<and> (\<forall>i. CRemove i \<notin> set new)"
  using assms
  by (auto simp: createAndStartManaged_def as_InspectSelf_def as_Create_def as_Start_def
      split: option.splits sum.splits prod.splits if_splits)

lemma recreateSA_no_remove:
  "\<exists>new. recreateSAWithOrphanRebind D w all [] None h = h @ new"
  using createAndStart_shape [of D w h]
  by (cases "createAndStartManaged D w h"; fastforce simp: recreateSAWithOrphanRebind_def split: option.split)

lemma recreateSA_remove_first:
  assumes "i \<noteq> []"
  shows "\<exists>new. recreateSAWithOrphanRebind D w all i oldSA h = h @ CRemove i # new
    \<and> (new \<noteq> [] \<longrightarrow> d_remove D h i)"
proof (cases "d_remove D h i")
  case True
  obtain res h1 where c: "createAndStartManaged D w (h @ [CRemove i]) = (res, h1)"
    by (cases "createAndStartManaged D w (h @ [CRemove i])")
  obtain new1 where h1: "h1 = (h @ [CRemove i]) @ new1"
    using createAndStart_shape [OF c] by auto
  have "\<exists>new2. recreateSAWithOrphanRebind D w all i oldSA h = h1 @ new2"
    using assms True c rebind_loop_grows
    by (auto simp: recreateSAWithOrphanRebind_def as_Remove_def Let_def split: option.splits)
  with h1 True show ?thesis by auto
next
  case False
  then show ?thesis using assms by (simp add: recreateSAWithOrphanRebind_def as_Remove_def)
qed

lemma find_Some_in: "find P xs = Some x \<Longrightarrow> x \<in> set xs \<and> P x"
  by (auto simp: find_Some_iff)

text \<open>What \<open>maybeManage\<close> adds to the history.\<close>

lemma maybeManage_cases:
  obtains "maybeManage D w all t self h = h"
  | "find (\<lambda>c. hasName c (sr_Name (as_recipe w))) all = None"
    "maybeManage D w all t self h = recreateSAWithOrphanRebind D w all [] None h"
    "recipe_Active (as_recipe w)" "targetMatchesRecipe t (sr_Target (as_recipe w))"
  | sa where "find (\<lambda>c. hasName c (sr_Name (as_recipe w))) all = Some sa"
    "maybeManage D w all t self h = h @ [CStart (as_ID sa)]"
  | sa where "find (\<lambda>c. hasName c (sr_Name (as_recipe w))) all = Some sa"
    "to_lower (as_State sa) = ''running''"
    "saTargetsStaleNetns sa t all \<or> (\<exists>s. self = Some s \<and> saUsesStaleImage sa s (as_recipe w))"
    "maybeManage D w all t self h = recreateSAWithOrphanRebind D w all (as_ID sa) (Some sa) h"
    "recipe_Active (as_recipe w)" "targetMatchesRecipe t (sr_Target (as_recipe w))"
proof -
  show thesis
  proof (cases "recipe_Active (as_recipe w) \<and> targetMatchesRecipe t (sr_Target (as_recipe w))")
    case False
    then show ?thesis using that(1) by (auto simp: maybeManage_def)
  next
    case act: True
    show ?thesis
    proof (cases "find (\<lambda>c. hasName c (sr_Name (as_recipe w))) all")
      case None
      then show ?thesis using that(2) act by (simp add: maybeManage_def)
    next
      case (Some sa)
      let ?drift = "case self of None \<Rightarrow> False | Some s \<Rightarrow> saUsesStaleImage sa s (as_recipe w)"
      have eq: "maybeManage D w all t self h =
          (if to_lower (as_State sa) = ''running'' then
             (if \<not> saTargetsStaleNetns sa t all \<and> \<not> ?drift then h
              else recreateSAWithOrphanRebind D w all (as_ID sa) (Some sa) h)
           else if to_lower (as_State sa) = ''created'' then h else h @ [CStart (as_ID sa)])"
        using Some act by (simp add: maybeManage_def Let_def as_Start_def)
      have drift: "?drift \<longleftrightarrow> (\<exists>s. self = Some s \<and> saUsesStaleImage sa s (as_recipe w))"
        by (simp split: option.split)
      show ?thesis
        using that(1) that(3) [OF Some] that(4) [OF Some] act eq unfolding drift by (metis (full_types))
    qed
  qed
qed

lemma recreateSA_grows: "\<exists>new. recreateSAWithOrphanRebind D w all i oldSA h = h @ new"
proof (cases "i = []")
  case True
  obtain res h1 where c: "createAndStartManaged D w h = (res, h1)" by (cases "createAndStartManaged D w h")
  have "\<exists>new. recreateSAWithOrphanRebind D w all i oldSA h = h1 @ new"
    using True c rebind_loop_grows by (auto simp: recreateSAWithOrphanRebind_def Let_def split: option.splits)
  then show ?thesis using createAndStart_shape [OF c] by auto
next
  case False
  then show ?thesis using recreateSA_remove_first by blast
qed

lemma maybeManage_grows: "\<exists>new. maybeManage D w all t self h = h @ new"
proof (cases rule: maybeManage_cases [of D w all t self h])
qed (auto simp: recreateSA_grows)

lemma lower_created: "equal_fold s ''created'' \<longleftrightarrow> to_lower s = ''created''"
proof -
  have "to_lower ''created'' = ''created''" by code_simp
  then show ?thesis by (simp add: equal_fold_def)
qed

lemma maybeManage_inactive:
  assumes "\<not> (recipe_Active (as_recipe w) \<and> targetMatchesRecipe t (sr_Target (as_recipe w)))"
  shows "maybeManage D w all t self h = h"
  using assms by (auto simp: maybeManage_def)

subsection \<open>Properties\<close>

text \<open>What a network mode \<open>container:ref\<close> may name a container by: its ID, the first 12 characters of
  it, or one of its names, written without the leading slash.\<close>

definition names_container :: "string \<Rightarrow> as_container \<Rightarrow> bool" where
  "names_container ref c \<longleftrightarrow> (as_ID c \<noteq> [] \<and> (ref = as_ID c \<or> 12 \<le> length (as_ID c) \<and> ref = take 12 (as_ID c)))
     \<or> (\<exists>n \<in> set (as_Names c). ref = trim_prefix n ''/'')"

lemma in_referencesFor: "ref \<in> referencesFor c \<longleftrightarrow> names_container ref c"
  by (auto simp: referencesFor_def names_container_def)

text \<open>C37. When a container starts, exactly the listed containers in state created whose network mode
  names it are started, in the order of the list, before anything else is done; and nothing else is
  done unless it is the target of an active recipe. When the list cannot be read nothing is done.\<close>

theorem handleTargetStart_starts:
  "\<exists>new. handleTargetStart D w t h = h @ CList # new
     \<and> (case d_list D h of None \<Rightarrow> new = []
        | Some l \<Rightarrow> \<exists>rest ids. new = map CStart ids @ rest
            \<and> ids = map cs_ID (filter (\<lambda>c. to_lower (cs_State c) = ''created''
                 \<and> (\<exists>ref. cs_NetworkMode c = ''container:'' @ ref \<and> names_container (trim_prefix ref ''/'') t)) l)
            \<and> (\<not> (recipe_Active (as_recipe w) \<and> targetMatchesRecipe t (sr_Target (as_recipe w))) \<longrightarrow> rest = []))"
proof (cases "d_list D h")
  case None
  then show ?thesis by (simp add: handleTargetStart_def as_List_def)
next
  case (Some l)
  have ids: "matchSiblings (map as_info l) t = map cs_ID (filter (\<lambda>c. to_lower (cs_State c) = ''created''
       \<and> (\<exists>ref. cs_NetworkMode c = ''container:'' @ ref \<and> names_container (trim_prefix ref ''/'') t)) l)"
    (is "_ = ?ids")
    unfolding matchSiblings_filter filter_map map_map
    by (intro map_cong filter_cong)
      (auto simp: as_info_def lower_created in_referencesFor cut_prefix_Some_iff cut_prefix_None_iff
        has_prefix_iff split: option.split)
  let ?h = "h @ CList # map CStart ?ids"
  have eq: "handleTargetStart D w t h = maybeManage D w (map as_info l) t None ?h"
    using Some ids by (simp add: handleTargetStart_def as_List_def start_all_eq)
  obtain rest where rest: "maybeManage D w (map as_info l) t None ?h = ?h @ rest"
    using maybeManage_grows by blast
  have "rest = []" if "\<not> (recipe_Active (as_recipe w) \<and> targetMatchesRecipe t (sr_Target (as_recipe w)))"
    using rest maybeManage_inactive [OF that] by simp
  then have "\<exists>new. handleTargetStart D w t h = h @ CList # new
      \<and> (\<exists>rest ids. new = map CStart ids @ rest \<and> ids = ?ids
           \<and> (\<not> (recipe_Active (as_recipe w) \<and> targetMatchesRecipe t (sr_Target (as_recipe w))) \<longrightarrow> rest = []))"
    unfolding eq rest by (intro exI [of _ "map CStart ?ids @ rest"] conjI exI [of _ rest]) simp_all
  then show ?thesis unfolding Some option.case .
qed

definition demo_watcher :: as_watcher where
  "demo_watcher = \<lparr>as_recipe = \<lparr>sr_Target = ''app'', sr_Name = ''sa'', sr_Image = [], sr_GatewayIP = [],
       sr_ExtraEnv = [], sr_Labels = []\<rparr>,
     sharedNetFn = Some (\<lambda>h. ''transit''), autoFixDeadNetns = True, as_host = ''self''\<rparr>"

definition demo_app :: as_container where
  "demo_app = as_info (demo_ct ''app'' ''running'' ''bridge'')"

definition demo_sa :: as_container where
  "demo_sa = \<lparr>as_ID = ''0123456789ab'', as_Names = [''/sa''], as_State = ''running'',
    as_NetworkMode = ''container:gone'', as_ImageID = []\<rparr>"

lemmas demo_docker_simps = demo_docker_def demo_inspect_def demo_ct_def demo_watcher_def
theorem handleTargetStart_starts_witness:
  "set (handleTargetStart (demo_docker [demo_ct ''x'' ''created'' ''container:db'', demo_ct ''y'' ''created'' ''host''])
     demo_watcher (as_info (demo_ct ''db'' ''running'' ''bridge'')) []) = {CList, CStart ''x''}"
proof -
  let ?D = "demo_docker [demo_ct ''x'' ''created'' ''container:db'', demo_ct ''y'' ''created'' ''host'']"
  let ?t = "as_info (demo_ct ''db'' ''running'' ''bridge'')"
  have inactive: "\<not> targetMatchesRecipe ?t (sr_Target (as_recipe demo_watcher))" by code_simp
  have low: "to_lower ''created'' = ''created''" by code_simp
  have names: "names_container (trim_prefix ''db'' ''/'') ?t" by code_simp
  show ?thesis
    using handleTargetStart_starts [of ?D demo_watcher ?t "[]"] inactive low names
    by (auto simp: demo_docker_simps)
qed

text \<open>C35. A container under the managed name is created only for a matching target of an active recipe,
  and only when the list holds no container of that name, or when the one it holds runs in a
  namespace that is not the target's (or on another image than its parent) and the daemon has
  removed it first, as the first call: the running anchor is never dropped without reason, and
  a failed removal changes nothing else.\<close>

theorem maybeManage_safe:
  "\<exists>new. maybeManage D w all t self h = h @ new
     \<and> ((\<exists>r. CCreate r \<in> set new) \<or> (\<exists>i. CRemove i \<in> set new) \<longrightarrow>
          recipe_Active (as_recipe w) \<and> targetMatchesRecipe t (sr_Target (as_recipe w))
          \<and> ((\<forall>c \<in> set all. \<not> hasName c (sr_Name (as_recipe w)))
             \<or> (\<exists>sa \<in> set all. hasName sa (sr_Name (as_recipe w)) \<and> to_lower (as_State sa) = ''running''
                \<and> (saTargetsStaleNetns sa t all \<or> (\<exists>s. self = Some s \<and> saUsesStaleImage sa s (as_recipe w)))
                \<and> (as_ID sa \<noteq> [] \<longrightarrow> (\<exists>rest. new = CRemove (as_ID sa) # rest
                     \<and> (rest \<noteq> [] \<longrightarrow> d_remove D h (as_ID sa)))))))"
proof (cases rule: maybeManage_cases [of D w all t self h])
  case 2
  then have "\<forall>c \<in> set all. \<not> hasName c (sr_Name (as_recipe w))" by (auto simp: find_None_iff)
  with 2 show ?thesis using recreateSA_grows by metis
next
  case (4 sa)
  then have sa: "sa \<in> set all" "hasName sa (sr_Name (as_recipe w))" by (auto dest: find_Some_in)
  show ?thesis
  proof (cases "as_ID sa = []")
    case True
    with 4 sa show ?thesis using recreateSA_grows by metis
  next
    case False
    with 4 sa show ?thesis using recreateSA_remove_first [OF False] by metis
  qed
qed auto

theorem maybeManage_safe_witness:
  "CRemove ''0123456789ab'' \<in> set (maybeManage (demo_docker []) demo_watcher [demo_app, demo_sa] demo_app None [])
   \<and> saTargetsStaleNetns demo_sa demo_app [demo_app, demo_sa]"
proof -
  have run: "CRemove ''0123456789ab'' \<in> set (maybeManage (demo_docker []) demo_watcher [demo_app, demo_sa] demo_app None [])"
    by code_simp
  moreover have "\<not> hasName demo_app (sr_Name (as_recipe demo_watcher))"
      "hasName demo_sa (sr_Name (as_recipe demo_watcher))" by code_simp+
  ultimately show ?thesis
    using maybeManage_safe [of "demo_docker []" demo_watcher "[demo_app, demo_sa]" demo_app None "[]"] by auto
qed
subsubsection \<open>The specification\<close>

lemma gm_put_foldl:
  assumes "gm_ok m"
  shows "gm_ok (put_all extra m)" and "gm_ok extra \<Longrightarrow> map_of (put_all extra m) = map_of m ++ map_of extra"
proof -
  show "gm_ok (put_all extra m)"
    using assms unfolding put_all_def by (induction extra arbitrary: m) auto
  show "map_of (put_all extra m) = map_of m ++ map_of extra" if "gm_ok extra"
    using that unfolding put_all_def
  proof (induction extra arbitrary: m)
    case (Cons kv extra)
    obtain k v where kv: "kv = (k, v)" by force
    then have k: "k \<notin> dom (map_of extra)" and ok: "gm_ok extra"
      using Cons.prems by (auto simp: gm_ok_def dom_map_of_conv_image_fst)
    have "map_of (foldl (\<lambda>m (k, v). gm_put k v m) m (kv # extra)) = (map_of m)(k \<mapsto> v) ++ map_of extra"
      unfolding kv foldl_Cons prod.case Cons.IH [OF ok] map_of_gm_put by (rule refl)
    also have "\<dots> = map_of m ++ map_of (kv # extra)"
      unfolding map_add_upd_left [OF k] by (simp add: kv)
    finally show ?case .
  qed simp
qed

text \<open>The environment the managed anchor gets: the three built-in variables, which the operator's
  variables override.\<close>

definition managed_env :: "string \<Rightarrow> (string, string) gomap \<Rightarrow> string \<rightharpoonup> string" where
  "managed_env gw extra =
     [''ANCHORD_MODE'' \<mapsto> ''service-anchor'', ''ANCHORD_GATEWAY_IP'' \<mapsto> gw, ''ANCHORD_LOG_LEVEL'' \<mapsto> ''info'']
     ++ map_of extra"

lemma spec_env_eq:
  assumes "gm_ok extra"
  shows "\<exists>ks. sorted ks \<and> distinct ks \<and> set ks = dom (managed_env gw extra)
    \<and> spec_env gw extra = map (\<lambda>k. k @ ''='' @ the (managed_env gw extra k)) ks"
proof -
  let ?start = "[(''ANCHORD_MODE'', ''service-anchor''), (''ANCHORD_GATEWAY_IP'', gw), (''ANCHORD_LOG_LEVEL'', ''info'')]"
  let ?m = "put_all extra ?start"
  have ok: "gm_ok ?start" by (simp add: gm_ok_def)
  have m: "map_of ?m = managed_env gw extra"
    unfolding gm_put_foldl(2) [OF ok assms] managed_env_def by (rule arg_cong [of _ _ "\<lambda>f. f ++ _"]) auto
  let ?ks = "sort (map fst ?m)"
  have s: "set ?ks = dom (managed_env gw extra)" by (simp flip: m add: dom_map_of_conv_image_fst)
  have "gm_ok ?m" by (rule gm_put_foldl(1) [OF ok])
  then have d: "distinct ?ks" unfolding gm_ok_def distinct_sort .
  have e: "spec_env gw extra = map (\<lambda>k. k @ ''='' @ the (managed_env gw extra k)) ?ks"
    unfolding spec_env_def Let_def m
    by (rule map_cong [OF refl]) (use s in \<open>auto simp: str_index_def split: option.split\<close>)
  show ?thesis by (intro exI [of _ ?ks] conjI sorted_sort s d e)
qed

text \<open>The image and the gateway address the anchor should get.\<close>

definition wanted_image :: "as_watcher \<Rightarrow> self_info \<Rightarrow> string" where
  "wanted_image w self = (if sr_Image (as_recipe w) = [] then si_Image self else sr_Image (as_recipe w))"

definition wanted_gateway :: "as_watcher \<Rightarrow> self_info \<Rightarrow> dk_history \<Rightarrow> string" where
  "wanted_gateway w self h =
     (if sr_GatewayIP (as_recipe w) \<noteq> [] then sr_GatewayIP (as_recipe w)
      else if as_sharedNet w h = [] then []
      else str_index (IPsByNetwork self) (as_sharedNet w h))"

lemma buildSpec_Inr:
  "buildSpec w self h = Inr s \<longleftrightarrow>
     wanted_image w self \<noteq> [] \<and> wanted_gateway w self h \<noteq> []
     \<and> s = assemble_spec (as_recipe w) (wanted_image w self) (wanted_gateway w self h)"
proof -
  have gw: "spec_gateway w self h = Inr g \<longleftrightarrow> g = wanted_gateway w self h \<and> g \<noteq> []" for g
    by (auto simp: spec_gateway_def wanted_gateway_def Let_def)
  have "buildSpec w self h = (if wanted_image w self = [] then Inl NoImage
      else case spec_gateway w self h of Inl e \<Rightarrow> Inl e
           | Inr g \<Rightarrow> Inr (assemble_spec (as_recipe w) (wanted_image w self) g))"
    by (simp only: buildSpec_def Let_def wanted_image_def)
  then show ?thesis
    using gw [of "wanted_gateway w self h"] by (cases "spec_gateway w self h") (auto dest: gw [THEN iffD1])
qed

text \<open>The specification of the managed anchor. It can be built exactly when an image is configured or
  known from the parent, and a gateway address is configured or the parent has one on the network
  the picker has chosen; then it shares the target's namespace under the recipe's name, its
  environment lists every built-in and operator variable once, sorted by name, with the operator's
  value winning, and its labels are the operator's with the managed-by label set to \<open>f45\<close>.\<close>

theorem buildSpec_exact:
  assumes "gm_ok (sr_ExtraEnv (as_recipe w))" "gm_ok (sr_Labels (as_recipe w))"
  shows "if wanted_image w self = [] \<or> wanted_gateway w self h = [] then \<exists>e. buildSpec w self h = Inl e
    else \<exists>s ks. buildSpec w self h = Inr s
      \<and> sp_Name s = sr_Name (as_recipe w) \<and> sp_Image s = wanted_image w self
      \<and> sp_NetworkMode s = ''container:'' @ sr_Target (as_recipe w)
      \<and> map_of (sp_Labels s) = (map_of (sr_Labels (as_recipe w)))(''anchord.managed-by'' \<mapsto> ''f45'')
      \<and> sorted ks \<and> distinct ks
      \<and> set ks = dom (managed_env (wanted_gateway w self h) (sr_ExtraEnv (as_recipe w)))
      \<and> sp_Env s = map (\<lambda>k. k @ ''='' @ the (managed_env (wanted_gateway w self h) (sr_ExtraEnv (as_recipe w)) k)) ks
      \<and> sp_CapAdd s = [''NET_ADMIN''] \<and> sp_Restart s = ''unless-stopped''"
proof (cases "wanted_image w self = [] \<or> wanted_gateway w self h = []")
  case True
  then have "buildSpec w self h \<noteq> Inr s" for s using buildSpec_Inr by blast
  then have "\<exists>e. buildSpec w self h = Inl e" by (cases "buildSpec w self h") auto
  with True show ?thesis by simp
next
  case False
  have labels: "map_of (put_all (sr_Labels (as_recipe w)) []) = map_of (sr_Labels (as_recipe w))"
    using gm_put_foldl(2) [OF gm_ok_Nil assms(2)] by simp
  obtain ks where ks: "sorted ks \<and> distinct ks
      \<and> set ks = dom (managed_env (wanted_gateway w self h) (sr_ExtraEnv (as_recipe w)))
      \<and> spec_env (wanted_gateway w self h) (sr_ExtraEnv (as_recipe w))
        = map (\<lambda>k. k @ ''='' @ the (managed_env (wanted_gateway w self h) (sr_ExtraEnv (as_recipe w)) k)) ks"
    using spec_env_eq [OF assms(1)] by blast
  have "buildSpec w self h = Inr (assemble_spec (as_recipe w) (wanted_image w self) (wanted_gateway w self h))"
    using False buildSpec_Inr by blast
  then show ?thesis
    unfolding if_not_P [OF False]
    by (intro exI conjI, assumption) (use ks labels in \<open>simp_all add: assemble_spec_def\<close>)
qed

theorem buildSpec_exact_witness:
  "\<exists>s. buildSpec demo_watcher \<lparr>si_Image = ''anchord'', si_ImageID = [], IPsByNetwork = [''transit'' \<mapsto> ''10.0.0.2'']\<rparr> [] = Inr s
     \<and> sp_NetworkMode s = ''container:app''"
proof -
  let ?self = "\<lparr>si_Image = ''anchord'', si_ImageID = [], IPsByNetwork = [''transit'' \<mapsto> ''10.0.0.2'']\<rparr>"
  have ok: "gm_ok (sr_ExtraEnv (as_recipe demo_watcher))" "gm_ok (sr_Labels (as_recipe demo_watcher))"
    by (simp_all add: demo_watcher_def)
  have "\<not> (wanted_image demo_watcher ?self = [] \<or> wanted_gateway demo_watcher ?self [] = [])"
    by (simp add: demo_watcher_def wanted_image_def wanted_gateway_def as_sharedNet_def str_index_def)
  moreover have "sr_Target (as_recipe demo_watcher) = ''app''" by (simp add: demo_watcher_def)
  ultimately show ?thesis
    using buildSpec_exact [OF ok, of ?self "[]"] by auto
qed
subsubsection \<open>Rebinding the dependents\<close>

lemma mem_findOrphanCandidates:
  "c \<in> set (findOrphanCandidates all sa) \<longleftrightarrow> c \<in> set all \<and> as_ID c \<noteq> as_ID sa
     \<and> (\<exists>ref. as_NetworkMode c = ''container:'' @ ref \<and> names_container (trim_space ref) sa)"
proof -
  have "(case cut_prefix m ''container:'' of None \<Rightarrow> False | Some ref \<Rightarrow> trim_space ref \<in> referencesFor sa)
      \<longleftrightarrow> (\<exists>ref. m = ''container:'' @ ref \<and> names_container (trim_space ref) sa)" for m
    by (auto simp: in_referencesFor cut_prefix_Some_iff cut_prefix_None_iff has_prefix_iff split: option.split)
  moreover have "referencesFor sa = {} \<Longrightarrow> \<not> names_container ref sa" for ref
    by (simp flip: in_referencesFor)
  ultimately show ?thesis unfolding findOrphanCandidates_def Let_def by (auto simp del: append_Cons)
qed

lemma createAndStart_started:
  assumes "createAndStartManaged D w h = (Some n, h')"
  shows "\<exists>new. h' = h @ new \<and> CStart n \<in> set new \<and> (\<forall>i. CRemove i \<notin> set new)"
  using assms
  by (auto simp: createAndStartManaged_def as_InspectSelf_def as_Create_def as_Start_def
      split: option.splits sum.splits prod.splits if_splits)

text \<open>
  What the daemon lets the rebinding do to one dependent: nothing when it cannot be inspected, or is reported without its
  configuration; otherwise it is removed, and when that succeeds created again under its own name, with its
  configuration unchanged and the given network mode, and started exactly when it has been created.
\<close>

definition rebind_step :: "dk_daemon \<Rightarrow> string \<Rightarrow> dk_history \<Rightarrow> string \<Rightarrow> dk_history \<Rightarrow> bool" where
  "rebind_step D mode h i step \<longleftrightarrow>
     (\<exists>rest. step = CInspect i # rest
        \<and> (if \<exists>insp cfg hc. d_inspect D h i = Some insp \<and> ci_Config insp = Some cfg \<and> ci_HostConfig insp = Some hc
           then \<exists>more. rest = CRemove i # more
             \<and> (if d_remove D (h @ [CInspect i]) i
                then \<exists>r insp start. more = CCreate r # start \<and> d_inspect D h i = Some insp
                   \<and> cr_Name r = trim_prefix (ci_Name insp) ''/'' \<and> Some (cr_Config r) = ci_Config insp
                   \<and> Some (cr_HostConfig r) = map_option (\<lambda>hc. hc\<lparr>hc_NetworkMode := mode\<rparr>) (ci_HostConfig insp)
                   \<and> start = (case d_create D (h @ [CInspect i, CRemove i]) r of None \<Rightarrow> [] | Some j \<Rightarrow> [CStart j])
                else more = [])
           else rest = []))"

lemma Recreate_rebind_step: "\<exists>step. snd (RecreateWithNetworkMode D i mode h) = h @ step \<and> rebind_step D mode h i step"
proof (cases "\<exists>insp cfg hc. d_inspect D h i = Some insp \<and> ci_Config insp = Some cfg \<and> ci_HostConfig insp = Some hc")
  case True
  then show ?thesis
    by (auto simp: RecreateWithNetworkMode_def rebind_step_def Let_def split: option.split)
next
  case False
  then have "snd (RecreateWithNetworkMode D i mode h) = h @ [CInspect i]"
    by (auto simp: RecreateWithNetworkMode_def Let_def split: option.split)
  with False show ?thesis by (simp add: rebind_step_def)
qed

text \<open>Docker refuses a host name together with the namespace of another container, as package \<open>wraprebinder\<close> says.\<close>

definition refuses_host_names :: "dk_daemon \<Rightarrow> bool" where
  "refuses_host_names D \<longleftrightarrow> (\<forall>h r. has_prefix (hc_NetworkMode (cr_HostConfig r)) ''container:'' \<and> cc_Hostname (cr_Config r) \<noteq> []
      \<longrightarrow> d_create D h r = None)"

lemma rebind_step_lost:
  assumes "refuses_host_names D" "rebind_step D (''container:'' @ n) h i step"
    and "d_inspect D h i = Some insp" "ci_Config insp = Some cfg" "cc_Hostname cfg \<noteq> []"
  shows "CStart j \<notin> set step"
proof
  assume start: "CStart j \<in> set step"
  then obtain r where r: "Some (cr_Config r) = ci_Config insp" "d_create D (h @ [CInspect i, CRemove i]) r = Some j"
      "Some (cr_HostConfig r) = map_option (\<lambda>hc. hc\<lparr>hc_NetworkMode := ''container:'' @ n\<rparr>) (ci_HostConfig insp)"
    using assms(2,3) by (auto simp: rebind_step_def split: if_splits option.splits)
  from r(3) obtain hc where "cr_HostConfig r = hc\<lparr>hc_NetworkMode := ''container:'' @ n\<rparr>"
    by (cases "ci_HostConfig insp") (auto simp del: append_Cons)
  then have "hc_NetworkMode (cr_HostConfig r) = ''container:'' @ n" by (simp del: append_Cons)
  moreover have "cc_Hostname (cr_Config r) \<noteq> []" using r(1) assms(4,5) by simp
  ultimately have "d_create D (h @ [CInspect i, CRemove i]) r = None"
    using assms(1) unfolding refuses_host_names_def has_prefix_iff by blast
  with r(2) show False by simp
qed

lemma findOrphanCandidates_filter:
  "findOrphanCandidates all sa = filter (\<lambda>c. as_ID c \<noteq> as_ID sa
     \<and> (\<exists>ref. as_NetworkMode c = ''container:'' @ ref \<and> names_container (trim_space ref) sa)) all"
proof -
  have "findOrphanCandidates all sa = filter (\<lambda>c. c \<in> set (findOrphanCandidates all sa)) all"
    unfolding findOrphanCandidates_def Let_def by (auto intro: filter_cong)
  then show ?thesis by (simp add: mem_findOrphanCandidates cong: filter_cong)
qed


text \<open>A daemon that does refuse host names: the dependent is removed, and not created again.\<close>

definition strict_docker :: dk_daemon where
  "strict_docker = (demo_docker [])\<lparr>d_create := \<lambda>h r.
     if has_prefix (hc_NetworkMode (cr_HostConfig r)) ''container:'' \<and> cc_Hostname (cr_Config r) \<noteq> [] then None else Some ''new''\<rparr>"


text \<open>A recipe whose target is written with a leading slash is matched by \<open>targetMatchesRecipe\<close>, which
  strips the slash, but the network mode \<open>buildSpec\<close> writes for it is stale for every target:
  \<open>saTargetsStaleNetns\<close> strips the slash of the names only. The anchor is recreated at every start
  of its target.\<close>

lemma slash_target_always_stale:
  assumes "buildSpec w self h = Inr s" "sr_Target (as_recipe w) = ''/app''"
    and "as_NetworkMode sa = sp_NetworkMode s"
    and "\<And>c n. c \<in> set all \<Longrightarrow> n \<in> set (as_Names c) \<Longrightarrow> \<exists>m. n = ''/'' @ m \<and> \<not> has_prefix m ''/''"
    and "\<And>c. c \<in> set all \<Longrightarrow> as_ID c \<noteq> ''/app''"
  shows "saTargetsStaleNetns sa t all"
proof -
  have mode: "as_NetworkMode sa = ''container:'' @ ''/app''"
    using assms(1-3) by (auto simp: buildSpec_Inr assemble_spec_def)
  have trim: "trim_space ''/app'' = ''/app''" by code_simp
  have "stale_loop ''/app'' t all"
    using assms(4,5)
  proof (induction all)
    case (Cons c cs)
    have "trim_prefix n ''/'' \<noteq> ''/app''" if "n \<in> set (as_Names c)" for n
      using Cons.prems(1) [of c n] that by (auto simp: trim_prefix_def has_prefix_def)
    then show ?case using Cons by (auto simp: list_ex_iff)
  qed simp
  moreover have "cut_prefix (as_NetworkMode sa) ''container:'' = Some ''/app''"
    using mode by (simp only: cut_prefix_Some_iff)
  ultimately show ?thesis by (simp add: saTargetsStaleNetns_def Let_def trim)
qed

end
