(* ===== verification/Rebinder.thy ===== *)
theory Rebinder
  imports DockerApi Config
begin

section \<open>Package rebinder: a follower of a network that is recreated\<close>

text \<open>
  \<open>src/internal/rebinder/rebinder.go\<close>, over the daemon of theory \<open>DockerApi\<close>. The watcher carries
  its flag \<open>parked\<close>; the rest of it never changes. Durations of the settle loop are integers of
  nanoseconds. The loop of \<open>waitForSettle\<close> has no bound of its own when the poll interval is zero,
  so it is a partial function, \<open>None\<close> meaning that it does not return.

  Shown: with the production settings the settle wait returns, within 91 probes, and reports a
  settled target only after three equal, non-zero probes in a row; the follower is released only
  when it is the only member of the network; an address collision is retried three times at most,
  and the flag is cleared exactly by a successful connect.
\<close>

subsection \<open>Data\<close>

record rb_container =
  rc_ID :: string
  rc_Names :: "string list"
  rc_Labels :: "string \<rightharpoonup> string"
  rc_Networks :: "string \<rightharpoonup> string"

record rb_network =
  rn_ID :: string
  rn_Name :: string
  Members :: "(string, string) gomap"

record rb_event =
  re_Action :: string
  re_NetworkID :: string
  re_Name :: string
  re_ContainerID :: string

record rb_watcher =
  rw_cfg :: cfg_rebinder
  settlePollInterval :: int
  settleQuietWindow :: int
  settleMaxWait :: int
  connectAttempts :: int
  parked :: bool

definition defaultSettlePollInterval :: int where "defaultSettlePollInterval = 1 * 1000000000"
definition defaultSettleQuietWindow :: int where "defaultSettleQuietWindow = 3 * 1000000000"
definition defaultSettleMaxWait :: int where "defaultSettleMaxWait = 90 * 1000000000"
definition defaultConnectAttempts :: int where "defaultConnectAttempts = 4"

definition rb_New :: "cfg_rebinder \<Rightarrow> rb_watcher" where
  "rb_New cfg = \<lparr>rw_cfg = cfg, settlePollInterval = defaultSettlePollInterval,
     settleQuietWindow = defaultSettleQuietWindow, settleMaxWait = defaultSettleMaxWait,
     connectAttempts = defaultConnectAttempts, parked = False\<rparr>"

subsection \<open>Pure functions\<close>

definition resolveFollower :: "rb_container list \<Rightarrow> string \<Rightarrow> string \<Rightarrow> string" where
  "resolveFollower all target0 selfProject =
     (let target = trim_prefix target0 ''/'';
          by_service = (if selfProject = [] then None
            else find (\<lambda>c. str_index (rc_Labels c) ''com.docker.compose.project'' = selfProject
                         \<and> str_index (rc_Labels c) ''com.docker.compose.service'' = target) all);
          by_name = find (\<lambda>c. list_ex (\<lambda>n. trim_prefix n ''/'' = target) (rc_Names c)) all in
      if target = [] then []
      else case by_service of Some c \<Rightarrow> rc_ID c
      | None \<Rightarrow> (case by_name of Some c \<Rightarrow> rc_ID c | None \<Rightarrow> []))"

definition idMatch :: "string \<Rightarrow> string \<Rightarrow> bool" where
  "idMatch a b \<longleftrightarrow>
     (if a = [] \<or> b = [] then False
      else a = b \<or> (12 \<le> length a \<and> has_prefix b a) \<or> (12 \<le> length b \<and> has_prefix a b))"

definition isAlreadyConnected :: "string option \<Rightarrow> bool" where
  "isAlreadyConnected err = (case err of None \<Rightarrow> False
     | Some e \<Rightarrow> (let s = to_lower e in contains_str s ''already exists''
         \<or> contains_str s ''endpoint with name'' \<and> contains_str s ''exists''))"

definition isAlreadyNotAttached :: "string option \<Rightarrow> bool" where
  "isAlreadyNotAttached err = (case err of None \<Rightarrow> False
     | Some e \<Rightarrow> (let s = to_lower e in contains_str s ''is not connected''
         \<or> contains_str s ''not connected to network'' \<or> contains_str s ''no such network endpoint''))"

definition isAddressInUse :: "string option \<Rightarrow> bool" where
  "isAddressInUse err = (case err of None \<Rightarrow> False
     | Some e \<Rightarrow> (let s = to_lower e in contains_str s ''address already in use''
         \<or> contains_str s ''address is in use'' \<or> contains_str s ''no available ipv4 addresses''))"

subsection \<open>The adapter\<close>

definition rb_NetworkInspectByName :: "dk_daemon \<Rightarrow> string \<Rightarrow> dk_history \<Rightarrow> rb_network option \<times> dk_history" where
  "rb_NetworkInspectByName D name h =
     (map_option (\<lambda>n. \<lparr>rn_ID = ni_ID n, rn_Name = ni_Name n,
          Members = map (\<lambda>(i, m). (i, trim_prefix m ''/'')) (ni_Containers n)\<rparr>) (d_net_inspect D h name),
      h @ [CNetInspect name])"

definition rb_ContainerList :: "dk_daemon \<Rightarrow> dk_history \<Rightarrow> rb_container list option \<times> dk_history" where
  "rb_ContainerList D h =
     (map_option (map (\<lambda>c. \<lparr>rc_ID = cs_ID c, rc_Names = cs_Names c, rc_Labels = cs_Labels c,
          rc_Networks = Map.empty\<rparr>)) (d_list D h),
      h @ [CList])"

definition rb_ContainerInspect :: "dk_daemon \<Rightarrow> string \<Rightarrow> dk_history \<Rightarrow> rb_container option \<times> dk_history" where
  "rb_ContainerInspect D i h =
     (map_option (\<lambda>insp. \<lparr>rc_ID = ci_ID insp,
          rc_Names = (if ci_Name insp \<noteq> [] then [ci_Name insp] else []),
          rc_Labels = (case ci_Config insp of None \<Rightarrow> Map.empty | Some cfg \<Rightarrow> map_of (cc_Labels cfg)),
          rc_Networks = (\<lambda>name. case ci_Networks insp of None \<Rightarrow> None
             | Some nets \<Rightarrow> (case map_of nets name of Some (Some n) \<Rightarrow> Some (ne_NetworkID n) | _ \<Rightarrow> None))\<rparr>)
        (d_inspect D h i),
      h @ [CInspect i])"

definition rb_NetworkConnect :: "dk_daemon \<Rightarrow> string \<Rightarrow> string \<Rightarrow> dk_history \<Rightarrow> string option \<times> dk_history" where
  "rb_NetworkConnect D networkID i h = (d_connect D h networkID i, h @ [CNetConnect networkID i])"

definition rb_NetworkDisconnect :: "dk_daemon \<Rightarrow> string \<Rightarrow> string \<Rightarrow> dk_history \<Rightarrow> string option \<times> dk_history" where
  "rb_NetworkDisconnect D networkName i h = (d_disconnect D h networkName i, h @ [CNetDisconnect networkName i])"

definition rb_ContainerRestart :: "dk_daemon \<Rightarrow> string \<Rightarrow> dk_history \<Rightarrow> bool \<times> dk_history" where
  "rb_ContainerRestart D i h = (d_restart D h i, h @ [CRestart i])"

definition ctxSleep :: "int \<Rightarrow> dk_history \<Rightarrow> dk_history" where
  "ctxSleep d h = (if d \<le> 0 then h else h @ [CSleep d])"

subsection \<open>Membership and parking\<close>

record membership =
  netID :: string
  followerID :: string
  followerAttached :: bool
  foreignCount :: int

primrec member_loop :: "string \<Rightarrow> string list \<Rightarrow> bool \<times> int \<Rightarrow> bool \<times> int" where
  "member_loop fid [] m = m"
| "member_loop fid (i # is) m =
     member_loop fid is (if fid \<noteq> [] \<and> idMatch i fid then (True, snd m) else (fst m, snd m + 1))"

definition rb_resolve :: "rb_watcher \<Rightarrow> rb_container list \<Rightarrow> string" where
  "rb_resolve w all = resolveFollower all (rb_FollowTarget (rw_cfg w)) (rb_SelfProject (rw_cfg w))"

definition inspectMembership :: "dk_daemon \<Rightarrow> rb_watcher \<Rightarrow> dk_history \<Rightarrow> membership option \<times> dk_history" where
  "inspectMembership D w h =
     (case rb_NetworkInspectByName D (rb_FollowNetwork (rw_cfg w)) h of (None, h1) \<Rightarrow> (None, h1)
      | (Some netInfo, h1) \<Rightarrow>
         (case rb_ContainerList D h1 of (None, h2) \<Rightarrow> (None, h2)
          | (Some all, h2) \<Rightarrow>
             (let fid = rb_resolve w all;
                  (attached, foreign) = member_loop fid (map fst (Members netInfo)) (False, 0)
              in (Some \<lparr>netID = rn_ID netInfo, followerID = fid, followerAttached = attached,
                        foreignCount = foreign\<rparr>, h2))))"

definition releaseFollower :: "dk_daemon \<Rightarrow> string \<Rightarrow> rb_watcher \<times> dk_history \<Rightarrow> rb_watcher \<times> dk_history" where
  "releaseFollower D fid = (\<lambda>(w, h).
     (case rb_NetworkDisconnect D (rb_FollowNetwork (rw_cfg w)) fid h of (err, h1) \<Rightarrow>
        if err \<noteq> None \<and> \<not> isAlreadyNotAttached err then (w, h1)
        else (w\<lparr>parked := True\<rparr>, h1)))"

definition maybePark :: "dk_daemon \<Rightarrow> rb_watcher \<times> dk_history \<Rightarrow> rb_watcher \<times> dk_history" where
  "maybePark D = (\<lambda>(w, h).
     (if parked w then (w, h)
      else case inspectMembership D w h of (None, h1) \<Rightarrow> (w, h1)
      | (Some m, h1) \<Rightarrow>
          if \<not> followerAttached m then (w\<lparr>parked := True\<rparr>, h1)
          else if foreignCount m > 0 then (w, h1)
          else releaseFollower D (followerID m) (w, h1)))"

subsection \<open>Settling\<close>

datatype settleOutcome = settleReady | settleTimedOut | settleAborted | settleCancelled

partial_function (option) settle_loop :: "dk_daemon \<Rightarrow> rb_watcher \<Rightarrow> int \<Rightarrow> int \<Rightarrow> int \<Rightarrow> dk_history
    \<Rightarrow> (settleOutcome \<times> dk_history) option" where
  [code]: "settle_loop D w prev quiet elapsed h =
     (case inspectMembership D w h of (None, h1) \<Rightarrow> Some (settleAborted, h1)
      | (Some m, h1) \<Rightarrow>
          (let c = foreignCount m; same = (c > 0 \<and> c = prev);
               quiet' = (if same then quiet + settlePollInterval w else 0) in
           if same \<and> quiet' \<ge> settleQuietWindow w then Some (settleReady, h1)
           else if elapsed \<ge> settleMaxWait w then Some (settleTimedOut, h1)
           else let h2 = ctxSleep (settlePollInterval w) h1 in
                if d_done D h2 then Some (settleCancelled, h2)
                else settle_loop D w c quiet' (elapsed + settlePollInterval w) h2))"

definition waitForSettle :: "dk_daemon \<Rightarrow> rb_watcher \<Rightarrow> dk_history \<Rightarrow> (settleOutcome \<times> dk_history) option" where
  "waitForSettle D w h =
     (let d = sint (rb_EventBackoff (rw_cfg w)); h1 = ctxSleep d h in
      if d > 0 \<and> d_done D h1 then Some (settleCancelled, h1)
      else settle_loop D w (-1) 0 0 h1)"

subsection \<open>Reattaching\<close>

function connect_loop :: "dk_daemon \<Rightarrow> rb_watcher \<Rightarrow> int \<Rightarrow> string \<Rightarrow> string \<Rightarrow> dk_history \<Rightarrow> bool \<times> dk_history" where
  "connect_loop D w attempt networkID fid h =
     (case rb_NetworkConnect D networkID fid h of (err, h1) \<Rightarrow>
        if err = None \<or> isAlreadyConnected err then (True, h1)
        else if isAddressInUse err \<and> attempt < connectAttempts w then
          (let h2 = ctxSleep (sint (rb_EventBackoff (rw_cfg w))) h1 in
           if d_done D h2 then (False, h2)
           else case rb_NetworkInspectByName D (rb_FollowNetwork (rw_cfg w)) h2 of
                  (ni, h3) \<Rightarrow> connect_loop D w (attempt + 1)
                                (case ni of Some n \<Rightarrow> rn_ID n | None \<Rightarrow> networkID) fid h3)
        else (False, h1))"
  by pat_completeness auto
termination by (relation "measure (\<lambda>(D, w, attempt, networkID, fid, h). nat (connectAttempts w - attempt))") auto

definition connectWithRetry :: "dk_daemon \<Rightarrow> rb_watcher \<Rightarrow> string \<Rightarrow> string \<Rightarrow> dk_history \<Rightarrow> bool \<times> dk_history" where
  "connectWithRetry D w networkID fid h = connect_loop D w 1 networkID fid h"

definition reattach :: "dk_daemon \<Rightarrow> rb_watcher \<times> dk_history \<Rightarrow> rb_watcher \<times> dk_history" where
  "reattach D = (\<lambda>(w, h).
     (case rb_NetworkInspectByName D (rb_FollowNetwork (rw_cfg w)) h of (None, h1) \<Rightarrow> (w, h1)
      | (Some netInfo, h1) \<Rightarrow>
         (case rb_ContainerList D h1 of (None, h2) \<Rightarrow> (w, h2)
          | (Some all, h2) \<Rightarrow>
             (let fid = rb_resolve w all in
              if fid = [] then (w, h2)
              else let (err, h3) = rb_NetworkDisconnect D (rb_FollowNetwork (rw_cfg w)) fid h2;
                       (ok, h4) = connectWithRetry D w (rn_ID netInfo) fid h3 in
              if \<not> ok then (w, h4)
              else if rb_Restart (rw_cfg w) then (w\<lparr>parked := False\<rparr>, snd (rb_ContainerRestart D fid h4))
              else (w\<lparr>parked := False\<rparr>, h4)))))"

definition settleAndReattach :: "dk_daemon \<Rightarrow> rb_watcher \<times> dk_history \<Rightarrow> (rb_watcher \<times> dk_history) option" where
  "settleAndReattach D = (\<lambda>(w, h).
     (case waitForSettle D w h of None \<Rightarrow> None
      | Some (settleCancelled, h1) \<Rightarrow> Some (w, h1)
      | Some (settleAborted, h1) \<Rightarrow> Some (w, h1)
      | Some (settleTimedOut, h1) \<Rightarrow> Some (reattach D (w, h1))
      | Some (settleReady, h1) \<Rightarrow> Some (reattach D (w, h1))))"

subsection \<open>Startup and events\<close>

definition rb_bootstrapRecheck :: "dk_daemon \<Rightarrow> rb_watcher \<times> dk_history \<Rightarrow> rb_watcher \<times> dk_history" where
  "rb_bootstrapRecheck D = (\<lambda>(w, h).
     (case rb_NetworkInspectByName D (rb_FollowNetwork (rw_cfg w)) h of (None, h1) \<Rightarrow> (w, h1)
      | (Some netInfo, h1) \<Rightarrow>
         (case rb_ContainerList D h1 of (None, h2) \<Rightarrow> (w, h2)
          | (Some all, h2) \<Rightarrow>
             (let fid = rb_resolve w all in
              if fid = [] then (w, h2)
              else case rb_ContainerInspect D fid h2 of (None, h3) \<Rightarrow> (w, h3)
              | (Some follower, h3) \<Rightarrow>
                  if rc_Networks follower (rb_FollowNetwork (rw_cfg w)) = Some (rn_ID netInfo) then (w, h3)
                  else reattach D (w, h3)))))"

definition rb_handle :: "dk_daemon \<Rightarrow> rb_event \<Rightarrow> rb_watcher \<times> dk_history \<Rightarrow> (rb_watcher \<times> dk_history) option" where
  "rb_handle D msg = (\<lambda>(w, h).
     (if re_Name msg \<noteq> rb_FollowNetwork (rw_cfg w) then Some (w, h)
      else if re_Action msg = ''create'' then settleAndReattach D (w, h)
      else if re_Action msg = ''destroy'' then Some (w\<lparr>parked := True\<rparr>, h)
      else if re_Action msg = ''disconnect'' then Some (maybePark D (w, h))
      else if re_Action msg = ''connect'' \<and> parked w then settleAndReattach D (w, h)
      else Some (w, h)))"

text \<open>\<open>consume\<close> returns when the process is told to stop; the check after a settle wait is the one
  at the head of the loop.\<close>

primrec rb_consume :: "dk_daemon \<Rightarrow> rb_event list \<Rightarrow> rb_watcher \<times> dk_history \<Rightarrow> (rb_watcher \<times> dk_history) option" where
  "rb_consume D [] s = Some s"
| "rb_consume D (m # ms) s =
     (if d_done D (snd s) then Some s
      else case rb_handle D m s of None \<Rightarrow> None | Some s' \<Rightarrow> rb_consume D ms s')"

primrec rb_streams :: "dk_daemon \<Rightarrow> rb_event list list \<Rightarrow> rb_watcher \<times> dk_history \<Rightarrow> (rb_watcher \<times> dk_history) option" where
  "rb_streams D [] s = Some s"
| "rb_streams D (ms # mss) s =
     (case rb_consume D ms s of None \<Rightarrow> None
      | Some s' \<Rightarrow> if d_done D (snd s') then Some s' else rb_streams D mss (fst s', snd s' @ [CSleep 2000000000]))"

definition rb_Run :: "dk_daemon \<Rightarrow> rb_event list list \<Rightarrow> rb_watcher \<times> dk_history \<Rightarrow> (rb_watcher \<times> dk_history) option" where
  "rb_Run D mss s = rb_streams D mss (rb_bootstrapRecheck D s)"

subsection \<open>The settle wait\<close>

lemma settle_loop_step:
  "settle_loop D w prev quiet elapsed h =
     (case inspectMembership D w h of (None, h1) \<Rightarrow> Some (settleAborted, h1)
      | (Some m, h1) \<Rightarrow>
          (let c = foreignCount m; same = (c > 0 \<and> c = prev);
               quiet' = (if same then quiet + settlePollInterval w else 0) in
           if same \<and> quiet' \<ge> settleQuietWindow w then Some (settleReady, h1)
           else if elapsed \<ge> settleMaxWait w then Some (settleTimedOut, h1)
           else let h2 = ctxSleep (settlePollInterval w) h1 in
                if d_done D h2 then Some (settleCancelled, h2)
                else settle_loop D w c quiet' (elapsed + settlePollInterval w) h2))"
  by (rule settle_loop.simps)

text \<open>The foreign endpoints a probe sees, and the history at the \<open>i\<close>-th probe.\<close>

definition probe :: "dk_daemon \<Rightarrow> rb_watcher \<Rightarrow> dk_history \<Rightarrow> int option" where
  "probe D w h = map_option foreignCount (fst (inspectMembership D w h))"

primrec probe_hist :: "rb_watcher \<Rightarrow> dk_history \<Rightarrow> nat \<Rightarrow> dk_history" where
  "probe_hist w h 0 = h"
| "probe_hist w h (Suc i) =
     probe_hist w (ctxSleep (settlePollInterval w) (h @ [CNetInspect (rb_FollowNetwork (rw_cfg w)), CList])) i"

definition net_probes :: "rb_watcher \<Rightarrow> dk_history \<Rightarrow> nat" where
  "net_probes w new = length (filter ((=) (CNetInspect (rb_FollowNetwork (rw_cfg w)))) new)"

lemma inspectMembership_Some:
  assumes "inspectMembership D w h = (Some m, h1)"
  shows "h1 = h @ [CNetInspect (rb_FollowNetwork (rw_cfg w)), CList]"
  using assms
  by (auto simp: inspectMembership_def rb_NetworkInspectByName_def rb_ContainerList_def Let_def
      split: option.splits prod.splits)

lemma inspectMembership_None:
  assumes "inspectMembership D w h = (None, h1)"
  shows "\<exists>new. h1 = h @ new \<and> net_probes w new = 1 \<and> (\<forall>x \<in> set new. \<not> is_write x)"
  using assms
  by (auto simp: inspectMembership_def rb_NetworkInspectByName_def rb_ContainerList_def Let_def net_probes_def
      split: option.splits prod.splits)

lemma ctxSleep_append: "\<exists>s. ctxSleep d h = h @ s \<and> net_probes w s = 0 \<and> (\<forall>x \<in> set s. \<not> is_write x)"
  by (simp add: ctxSleep_def net_probes_def)

lemma net_probes_append [simp]: "net_probes w (a @ b) = net_probes w a + net_probes w b"
  by (simp add: net_probes_def)

lemma net_probes_simps [simp]:
  "net_probes w [] = 0"
  "net_probes w (x # xs) = (if x = CNetInspect (rb_FollowNetwork (rw_cfg w)) then 1 else 0) + net_probes w xs"
  by (auto simp: net_probes_def)

lemma settle_loop_returns:
  assumes "0 < settlePollInterval w"
  shows "settleMaxWait w - elapsed \<le> int n * settlePollInterval w \<Longrightarrow>
    \<exists>out new. settle_loop D w prev quiet elapsed h = Some (out, h @ new) \<and> net_probes w new \<le> Suc n
      \<and> (\<forall>x \<in> set new. \<not> is_write x)"
proof (induction n arbitrary: prev quiet elapsed h)
  case 0
  obtain om h1 where m: "inspectMembership D w h = (om, h1)" by (cases "inspectMembership D w h")
  show ?case
  proof (cases om)
    case None
    then show ?thesis using m inspectMembership_None [of D w h h1] settle_loop_step [of D w prev quiet elapsed h] by auto
  next
    case (Some m')
    then have h1: "h1 = h @ [CNetInspect (rb_FollowNetwork (rw_cfg w)), CList]" using m inspectMembership_Some by blast
    have "\<exists>out. settle_loop D w prev quiet elapsed h = Some (out, h1)"
      using m Some 0 settle_loop_step [of D w prev quiet elapsed h] by (auto simp: Let_def)
    then show ?thesis unfolding h1 by (auto simp: net_probes_def intro!: exI [of _ "[CNetInspect (rb_FollowNetwork (rw_cfg w)), CList]"])
  qed
next
  case (Suc n)
  obtain om h1 where m: "inspectMembership D w h = (om, h1)" by (cases "inspectMembership D w h")
  show ?case
  proof (cases om)
    case None
    then show ?thesis using m inspectMembership_None [of D w h h1] settle_loop_step [of D w prev quiet elapsed h] by fastforce
  next
    case (Some m')
    let ?c = "foreignCount m'"
    let ?q = "if ?c > 0 \<and> ?c = prev then quiet + settlePollInterval w else 0"
    let ?p = "[CNetInspect (rb_FollowNetwork (rw_cfg w)), CList]"
    have h1: "h1 = h @ ?p" using m Some inspectMembership_Some by blast
    obtain s where s: "ctxSleep (settlePollInterval w) h1 = h1 @ s" "net_probes w s = 0" "\<forall>x \<in> set s. \<not> is_write x"
      using ctxSleep_append by blast
    have one: "net_probes w ?p = 1" "\<forall>x \<in> set ?p. \<not> is_write x" by (simp_all add: net_probes_def)
    have step: "settle_loop D w prev quiet elapsed h =
        (if (?c > 0 \<and> ?c = prev) \<and> ?q \<ge> settleQuietWindow w then Some (settleReady, h1)
         else if elapsed \<ge> settleMaxWait w then Some (settleTimedOut, h1)
         else if d_done D (h1 @ s) then Some (settleCancelled, h1 @ s)
         else settle_loop D w ?c ?q (elapsed + settlePollInterval w) (h1 @ s))"
      using settle_loop_step [of D w prev quiet elapsed h]
      unfolding m Some prod.case option.case Let_def s(1) .
    have "settleMaxWait w - (elapsed + settlePollInterval w) \<le> int n * settlePollInterval w"
      using Suc.prems by (simp add: algebra_simps)
    then obtain out new where rest:
        "settle_loop D w ?c ?q (elapsed + settlePollInterval w) (h1 @ s) = Some (out, (h1 @ s) @ new)"
        "net_probes w new \<le> Suc n" "\<forall>x \<in> set new. \<not> is_write x"
      using Suc.IH [of "elapsed + settlePollInterval w" ?c ?q "h1 @ s"] by blast
    consider "\<exists>out. settle_loop D w prev quiet elapsed h = Some (out, h @ ?p)"
      | "\<exists>out. settle_loop D w prev quiet elapsed h = Some (out, h @ ?p @ s)"
      | "settle_loop D w prev quiet elapsed h = Some (out, h @ ?p @ s @ new)"
      using step rest(1) h1 by (auto split: if_splits)
    then show ?thesis
    proof cases
      case 1
      then show ?thesis using one by fastforce
    next
      case 2
      moreover have "net_probes w (?p @ s) \<le> Suc (Suc n)" "\<forall>x \<in> set (?p @ s). \<not> is_write x"
        using one s by auto
      ultimately show ?thesis by blast
    next
      case 3
      moreover have "net_probes w (?p @ s @ new) \<le> Suc (Suc n)" "\<forall>x \<in> set (?p @ s @ new). \<not> is_write x"
        using one s rest by auto
      ultimately show ?thesis by blast
    qed
  qed
qed

text \<open>A target reported as settled has shown the same, non-zero number of foreign endpoints in the last
  \<open>q + 1\<close> probes, the loop's counter of equal probes included.\<close>

definition streak :: "dk_daemon \<Rightarrow> rb_watcher \<Rightarrow> dk_history \<Rightarrow> nat \<Rightarrow> nat \<Rightarrow> int \<Rightarrow> bool" where
  "streak D w h a b c \<longleftrightarrow> c > 0 \<and> (\<forall>i. a \<le> i \<and> i \<le> b \<longrightarrow> probe D w (probe_hist w h i) = Some c)"

lemma streak_shift:
  assumes "streak D w (ctxSleep (settlePollInterval w) (h @ [CNetInspect (rb_FollowNetwork (rw_cfg w)), CList])) a b c"
  shows "streak D w h (Suc a) (Suc b) c"
  unfolding streak_def
proof (intro conjI allI impI)
  show "c > 0" using assms by (simp add: streak_def)
  fix i
  assume i: "Suc a \<le> i \<and> i \<le> Suc b"
  then obtain j where "i = Suc j" "a \<le> j" "j \<le> b" by (cases i) auto
  then show "probe D w (probe_hist w h i) = Some c" using assms by (simp add: streak_def)
qed

lemma streak_extend:
  assumes "streak D w h 1 b c" "probe D w h = Some c"
  shows "streak D w h 0 b c"
  unfolding streak_def
proof (intro conjI allI impI)
  show "c > 0" using assms by (simp add: streak_def)
  fix i
  assume "0 \<le> i \<and> i \<le> b"
  then show "probe D w (probe_hist w h i) = Some c" using assms by (cases i) (auto simp: streak_def)
qed

definition ready_ok :: "dk_daemon \<Rightarrow> rb_watcher \<Rightarrow> int \<Rightarrow> int \<Rightarrow> dk_history \<Rightarrow> settleOutcome \<times> dk_history \<Rightarrow> bool" where
  "ready_ok D w prev quiet h r \<longleftrightarrow>
     (\<forall>q j. 0 < settlePollInterval w \<longrightarrow> int q * settlePollInterval w < settleQuietWindow w
        \<longrightarrow> quiet = int j * settlePollInterval w \<longrightarrow> fst r = settleReady
        \<longrightarrow> (\<exists>k. streak D w h 0 k prev \<and> q \<le> j + k) \<or> (\<exists>s k c. streak D w h s k c \<and> s + q < k))"

lemma ready_ok_step:
  assumes IH: "\<And>prev quiet elapsed h r. rec prev quiet elapsed h = Some r \<Longrightarrow> ready_ok D w prev quiet h r"
    and body: "(case inspectMembership D w h of (None, h1) \<Rightarrow> Some (settleAborted, h1)
      | (Some m, h1) \<Rightarrow>
          (let c = foreignCount m; same = (c > 0 \<and> c = prev);
               quiet' = (if same then quiet + settlePollInterval w else 0) in
           if same \<and> quiet' \<ge> settleQuietWindow w then Some (settleReady, h1)
           else if elapsed \<ge> settleMaxWait w then Some (settleTimedOut, h1)
           else let h2 = ctxSleep (settlePollInterval w) h1 in
                if d_done D h2 then Some (settleCancelled, h2)
                else rec c quiet' (elapsed + settlePollInterval w) h2)) = Some r"
  shows "ready_ok D w prev quiet h r"
  unfolding ready_ok_def
proof (intro allI impI)
  fix q j
  assume pos: "0 < settlePollInterval w" and q: "int q * settlePollInterval w < settleQuietWindow w"
    and j: "quiet = int j * settlePollInterval w" and ready: "fst r = settleReady"
  let ?p = "[CNetInspect (rb_FollowNetwork (rw_cfg w)), CList]"
  obtain m where m: "inspectMembership D w h = (Some m, h @ ?p)"
    using body ready inspectMembership_Some by (auto split: prod.splits option.splits)
  let ?c = "foreignCount m"
  have probe: "probe D w h = Some ?c" by (simp add: probe_def m)
  let ?h2 = "ctxSleep (settlePollInterval w) (h @ ?p)"
  have rest: "ready_ok D w ?c q' ?h2 r" if "rec ?c q' (elapsed + settlePollInterval w) ?h2 = Some r" for q'
    using IH that .
  show "(\<exists>k. streak D w h 0 k prev \<and> q \<le> j + k) \<or> (\<exists>s k c. streak D w h s k c \<and> s + q < k)"
  proof (cases "?c > 0 \<and> ?c = prev")
    case True
    have one: "streak D w h 0 0 prev" using True probe by (simp add: streak_def)
    have q': "quiet + settlePollInterval w = int (Suc j) * settlePollInterval w" using j by (simp add: algebra_simps)
    show ?thesis
    proof (cases "settleQuietWindow w \<le> quiet + settlePollInterval w")
      case ge: True
      then have "int q * settlePollInterval w < int (Suc j) * settlePollInterval w" using q q' by linarith
      then have "q \<le> j" using pos by (simp only: mult_less_cancel_right_pos of_nat_less_iff less_Suc_eq_le)
      then show ?thesis using one by auto
    next
      case lt: False
      then have "rec ?c (quiet + settlePollInterval w) (elapsed + settlePollInterval w) ?h2 = Some r"
        using body True ready unfolding m prod.case option.case Let_def by (auto split: if_splits)
      from rest [OF this] consider k where "streak D w ?h2 0 k ?c" "q \<le> Suc j + k"
        | s k c where "streak D w ?h2 s k c" "s + q < k"
        unfolding ready_ok_def using pos q q' ready by blast
      then show ?thesis
      proof cases
        case 1
        then have "streak D w h 1 (Suc k) prev" using streak_shift True by fastforce
        then have "streak D w h 0 (Suc k) prev" using streak_extend probe True by blast
        then show ?thesis using 1 by (intro disjI1 exI [of _ "Suc k"]) simp
      next
        case 2
        then show ?thesis using streak_shift [OF 2(1)] by (intro disjI2) (metis add_Suc Suc_less_eq)
      qed
    qed
  next
    case False
    then have "rec ?c 0 (elapsed + settlePollInterval w) ?h2 = Some r"
      using body ready unfolding m prod.case option.case Let_def by (auto split: if_splits)
    then have "(\<exists>k. streak D w ?h2 0 k ?c \<and> q \<le> 0 + k) \<or> (\<exists>s k c. streak D w ?h2 s k c \<and> s + q < k)"
      by (intro rest [unfolded ready_ok_def, rule_format, of 0 q 0]) (simp_all add: pos q ready)
    then consider k where "streak D w ?h2 0 k ?c" "q \<le> k"
      | s k c where "streak D w ?h2 s k c" "s + q < k" by auto
    then show ?thesis
    proof cases
      case 1
      then have "streak D w h 1 (Suc k) ?c" using streak_shift by fastforce
      then have "streak D w h 0 (Suc k) ?c" using streak_extend probe by blast
      then show ?thesis using 1 by (intro disjI2 exI [of _ 0] exI [of _ "Suc k"] exI [of _ ?c]) simp
    next
      case 2
      then show ?thesis using streak_shift [OF 2(1)] by (intro disjI2) (metis add_Suc Suc_less_eq)
    qed
  qed
qed

lemma settle_loop_ready_ok:
  assumes "settle_loop D w prev quiet elapsed h = Some r"
  shows "ready_ok D w prev quiet h r"
  by (rule settle_loop.raw_induct [OF _ assms], rule ready_ok_step, assumption, assumption)

subsection \<open>Properties\<close>

text \<open>The settings of \<open>New\<close>, whatever the flag.\<close>

definition production :: "rb_watcher \<Rightarrow> bool" where
  "production w \<longleftrightarrow> (\<exists>cfg p. w = (rb_New cfg)\<lparr>parked := p\<rparr>)"

lemmas rb_defaults = rb_New_def defaultSettlePollInterval_def defaultSettleQuietWindow_def
  defaultSettleMaxWait_def defaultConnectAttempts_def

lemma production_settings:
  assumes "production w"
  shows "settlePollInterval w = 1000000000" "settleQuietWindow w = 3000000000"
    "settleMaxWait w = 90000000000" "connectAttempts w = 4"
  using assms by (auto simp: production_def rb_defaults)

text \<open>C38. With the production settings the settle wait always returns, after at most 91 inspections of the
  network and without changing anything; and when it reports the target as settled, four probes in a
  row, a second apart, saw the same non-zero number of containers other than the follower.\<close>

theorem waitForSettle_settles:
  assumes "production w"
  shows "\<exists>outcome new. waitForSettle D w h = Some (outcome, h @ new) \<and> net_probes w new \<le> 91
    \<and> (\<forall>x \<in> set new. \<not> is_write x)
    \<and> (outcome = settleReady \<longrightarrow>
         (\<exists>s c. c > 0 \<and> (\<forall>i. s \<le> i \<and> i \<le> s + 3 \<longrightarrow>
            probe D w (probe_hist w (ctxSleep (sint (rb_EventBackoff (rw_cfg w))) h) i) = Some c)))"
proof -
  note set = production_settings [OF assms]
  let ?d = "sint (rb_EventBackoff (rw_cfg w))"
  obtain s where s: "ctxSleep ?d h = h @ s" "net_probes w s = 0" "\<forall>x \<in> set s. \<not> is_write x"
    using ctxSleep_append by blast
  obtain outcome new where loop: "settle_loop D w (-1) 0 0 (h @ s) = Some (outcome, (h @ s) @ new)"
      "net_probes w new \<le> Suc 90" "\<forall>x \<in> set new. \<not> is_write x"
    using settle_loop_returns [where w = w and n = 90 and elapsed = 0 and D = D and prev = "-1" and quiet = 0
        and h = "h @ s"] set by auto
  have "\<exists>s' c. c > 0 \<and> (\<forall>i. s' \<le> i \<and> i \<le> s' + 3 \<longrightarrow> probe D w (probe_hist w (h @ s) i) = Some c)"
    if "outcome = settleReady"
  proof -
    have "(\<exists>k. streak D w (h @ s) 0 k (-1) \<and> 2 \<le> 0 + k) \<or> (\<exists>s' k c. streak D w (h @ s) s' k c \<and> s' + 2 < k)"
      by (rule settle_loop_ready_ok [OF loop(1), unfolded ready_ok_def, rule_format, of 2 0])
        (simp_all add: set that)
    then obtain s' k c where "streak D w (h @ s) s' k c" "s' + 2 < k" by (auto simp: streak_def)
    then show ?thesis by (intro exI [of _ s'] exI [of _ c]) (simp add: streak_def)
  qed
  then show ?thesis
    using loop s unfolding waitForSettle_def Let_def s(1)
    by (cases "?d > 0 \<and> d_done D (h @ s)") auto
qed

text \<open>The members a probe of the daemon would see, and whether one of them is another container.\<close>

definition is_other :: "string \<Rightarrow> string \<Rightarrow> bool" where
  "is_other fid i \<longleftrightarrow> fid = [] \<or> \<not> idMatch i fid"

lemma member_loop_eq:
  "member_loop fid is (b, n) =
     (b \<or> (\<exists>i \<in> set is. \<not> is_other fid i), n + int (length (filter (is_other fid) is)))"
  by (induction "is" arbitrary: b n) (auto simp: is_other_def)

lemma inspectMembership_answer:
  assumes "d_net_inspect D h (rb_FollowNetwork (rw_cfg w)) = Some n"
    and "rb_ContainerList D (h @ [CNetInspect (rb_FollowNetwork (rw_cfg w))]) = (Some l, h1)"
  shows "inspectMembership D w h =
    (Some \<lparr>netID = ni_ID n, followerID = rb_resolve w l,
       followerAttached = (\<exists>i \<in> set (map fst (ni_Containers n)). \<not> is_other (rb_resolve w l) i),
       foreignCount = int (length (filter (is_other (rb_resolve w l)) (map fst (ni_Containers n))))\<rparr>, h1)"
proof -
  have keys: "fst \<circ> (\<lambda>(i, m). (i, trim_prefix m ''/'')) = (fst :: string \<times> string \<Rightarrow> string)"
    by auto
  show ?thesis
    using assms unfolding inspectMembership_def rb_NetworkInspectByName_def
    by (simp add: member_loop_eq keys Let_def)
qed

text \<open>C39. When a container leaves the network and the follower is not already released, the follower is
  disconnected if and only if it is a member of the network and the only one; it then counts as
  released when the daemon confirms (or says it was not attached), and it counts as released
  without any call when it is no member any more. Otherwise nothing changes.\<close>

theorem maybePark_sole_member:
  assumes "\<not> parked w" and "d_net_inspect D h net = Some n" "net = rb_FollowNetwork (rw_cfg w)"
    and "rb_ContainerList D (h @ [CNetInspect net]) = (Some l, h1)" "fid = rb_resolve w l"
  shows "maybePark D (w, h) =
    (if \<forall>i \<in> fst ` set (ni_Containers n). is_other fid i then (w\<lparr>parked := True\<rparr>, h1)
     else if \<exists>i \<in> fst ` set (ni_Containers n). is_other fid i then (w, h1)
     else (w\<lparr>parked := d_disconnect D h1 net fid = None \<or> isAlreadyNotAttached (d_disconnect D h1 net fid)\<rparr>,
           h1 @ [CNetDisconnect net fid]))"
proof -
  have w: "w\<lparr>parked := False\<rparr> = w" using assms(1) by simp
  note m = inspectMembership_answer [OF assms(2) [unfolded assms(3)] assms(4) [unfolded assms(3)]]
  show ?thesis
    using assms(1) w unfolding maybePark_def prod.case m assms(3,5)
    by (auto simp: filter_empty_conv releaseFollower_def rb_NetworkDisconnect_def)
qed

text \<open>Attempts to connect.\<close>

fun is_connect :: "dk_call \<Rightarrow> bool" where
  "is_connect (CNetConnect n i) = True"
| "is_connect x = False"

declare connect_loop.simps [simp del]

lemma is_connect_write: "is_connect x \<Longrightarrow> is_write x"
  by (cases x) auto

lemma connect_loop_bounded:
  assumes "connect_loop D w attempt networkID fid h = (ok, h')" "attempt \<le> connectAttempts w"
  shows "\<exists>pre nid post. h' = h @ pre @ CNetConnect nid fid # post \<and> (\<forall>x \<in> set post. \<not> is_write x)
    \<and> (\<forall>x \<in> set pre. is_write x \<longrightarrow> is_connect x)
    \<and> int (length (filter is_connect (pre @ [CNetConnect nid fid]))) \<le> connectAttempts w - attempt + 1
    \<and> hd (filter is_connect (pre @ [CNetConnect nid fid])) = CNetConnect networkID fid
    \<and> (ok \<longleftrightarrow> (let err = d_connect D (h @ pre) nid fid in err = None \<or> isAlreadyConnected err))"
  using assms
proof (induction D w attempt networkID fid h arbitrary: ok h' rule: connect_loop.induct)
  case (1 D w attempt networkID fid h)
  let ?err = "d_connect D h networkID fid"
  let ?h1 = "h @ [CNetConnect networkID fid]"
  obtain s where s: "ctxSleep (sint (rb_EventBackoff (rw_cfg w))) ?h1 = ?h1 @ s" "\<forall>x \<in> set s. \<not> is_write x"
    using ctxSleep_append by blast
  have c: "rb_NetworkConnect D networkID fid h = (?err, ?h1)" by (simp add: rb_NetworkConnect_def)
  have step: "connect_loop D w attempt networkID fid h =
     (if ?err = None \<or> isAlreadyConnected ?err then (True, ?h1)
      else if isAddressInUse ?err \<and> attempt < connectAttempts w then
        (if d_done D (?h1 @ s) then (False, ?h1 @ s)
         else case rb_NetworkInspectByName D (rb_FollowNetwork (rw_cfg w)) (?h1 @ s) of
                (ni, h3) \<Rightarrow> connect_loop D w (attempt + 1)
                              (case ni of Some n \<Rightarrow> rn_ID n | None \<Rightarrow> networkID) fid h3)
      else (False, ?h1))"
    by (subst connect_loop.simps) (simp only: c prod.case s(1) Let_def)
  consider (now) "(ok, h') = (True, ?h1)" "?err = None \<or> isAlreadyConnected ?err"
    | (no) "(ok, h') = (False, ?h1)" "\<not> (?err = None \<or> isAlreadyConnected ?err)"
    | (stop) "(ok, h') = (False, ?h1 @ s)" "\<not> (?err = None \<or> isAlreadyConnected ?err)"
    | (retry) ni h3 where "\<not> (?err = None \<or> isAlreadyConnected ?err)" "isAddressInUse ?err"
        "attempt < connectAttempts w" "\<not> d_done D (?h1 @ s)"
        "rb_NetworkInspectByName D (rb_FollowNetwork (rw_cfg w)) (?h1 @ s) = (ni, h3)"
        "connect_loop D w (attempt + 1) (case ni of Some n \<Rightarrow> rn_ID n | None \<Rightarrow> networkID) fid h3 = (ok, h')"
    using 1(2) step by (auto split: if_splits prod.splits)
  then show ?case
  proof cases
    case now
    then show ?thesis using 1(3) by (intro exI [of _ "[]"] exI [of _ networkID]) (auto simp: Let_def)
  next
    case no
    then show ?thesis using 1(3) by (intro exI [of _ "[]"] exI [of _ networkID]) (auto simp: Let_def)
  next
    case stop
    then show ?thesis using 1(3) s(2) by (intro exI [of _ "[]"] exI [of _ networkID] exI [of _ s]) (auto simp: Let_def)
  next
    case (retry ni h3)
    have h3: "h3 = ?h1 @ s @ [CNetInspect (rb_FollowNetwork (rw_cfg w))]"
      using retry(5) by (auto simp: rb_NetworkInspectByName_def)
    obtain pre nid post where IH: "h' = h3 @ pre @ CNetConnect nid fid # post" "\<forall>x \<in> set post. \<not> is_write x"
        "\<forall>x \<in> set pre. is_write x \<longrightarrow> is_connect x"
        "int (length (filter is_connect (pre @ [CNetConnect nid fid]))) \<le> connectAttempts w - (attempt + 1) + 1"
        "ok \<longleftrightarrow> (let err = d_connect D (h3 @ pre) nid fid in err = None \<or> isAlreadyConnected err)"
      using 1(1) [OF c [symmetric] retry(1) _ s(1) [symmetric] retry(4) retry(5) [symmetric] retry(6)] retry(2,3) by auto
    let ?pre = "CNetConnect networkID fid # s @ CNetInspect (rb_FollowNetwork (rw_cfg w)) # pre"
    have no_con: "filter is_connect s = []" using s(2) is_connect_write by (auto simp: filter_empty_conv)
    show ?thesis
      using IH s(2) no_con unfolding h3
      by (intro exI [of _ ?pre] exI [of _ nid] exI [of _ post]) auto
  qed
qed

text \<open>A reattach that can see the network and finds the follower disconnects it by name, connects it
  by the ID the network has now, and repeats the connect - only the connect - at most three times;
  if the last attempt succeeds (or the follower is connected already) the watcher counts it as
  attached, and restarts it when configured to; if it fails, nothing else is done and the flag
  stays as it was.\<close>

theorem reattach_outcome:
  assumes "production w" "d_net_inspect D h net = Some n" "net = rb_FollowNetwork (rw_cfg w)"
    and "rb_ContainerList D (h @ [CNetInspect net]) = (Some l, h2)" "fid = rb_resolve w l" "fid \<noteq> []"
  shows "\<exists>pre nid post w'.
    reattach D (w, h) = (w', h2 @ CNetDisconnect net fid # pre @ CNetConnect nid fid # post)
    \<and> (\<forall>x \<in> set pre. is_write x \<longrightarrow> is_connect x) \<and> length (filter is_connect pre) \<le> 3
    \<and> hd (filter is_connect (pre @ [CNetConnect nid fid])) = CNetConnect (ni_ID n) fid
    \<and> (let err = d_connect D (h2 @ CNetDisconnect net fid # pre) nid fid in
       if err = None \<or> isAlreadyConnected err
       then w' = w\<lparr>parked := False\<rparr> \<and> filter is_write post = (if rb_Restart (rw_cfg w) then [CRestart fid] else [])
       else w' = w \<and> filter is_write post = [])"
proof -
  let ?h3 = "h2 @ [CNetDisconnect net fid]"
  obtain ok h4 where c: "connect_loop D w 1 (ni_ID n) fid ?h3 = (ok, h4)"
    by (cases "connect_loop D w 1 (ni_ID n) fid ?h3")
  obtain pre nid post where loop: "h4 = ?h3 @ pre @ CNetConnect nid fid # post" "\<forall>x \<in> set post. \<not> is_write x"
      "\<forall>x \<in> set pre. is_write x \<longrightarrow> is_connect x"
      "int (length (filter is_connect (pre @ [CNetConnect nid fid]))) \<le> connectAttempts w - 1 + 1"
      "hd (filter is_connect (pre @ [CNetConnect nid fid])) = CNetConnect (ni_ID n) fid"
      "ok \<longleftrightarrow> (let err = d_connect D (?h3 @ pre) nid fid in err = None \<or> isAlreadyConnected err)"
    using connect_loop_bounded [OF c] production_settings(4) [OF assms(1)] by auto
  have re: "reattach D (w, h) = (if \<not> ok then (w, h4)
      else (w\<lparr>parked := False\<rparr>, if rb_Restart (rw_cfg w) then h4 @ [CRestart fid] else h4))"
    using assms(2-6) c
    by (simp add: reattach_def rb_NetworkInspectByName_def rb_NetworkDisconnect_def connectWithRetry_def
        rb_ContainerRestart_def Let_def)
  have len: "length (filter is_connect pre) \<le> 3"
    using loop(4) production_settings(4) [OF assms(1)] by simp
  have none: "filter is_write post = []" using loop(2) by (simp add: filter_empty_conv)
  define w' where "w' = (if ok then w\<lparr>parked := False\<rparr> else w)"
  define post' where "post' = (if ok \<and> rb_Restart (rw_cfg w) then post @ [CRestart fid] else post)"
  have "reattach D (w, h) = (w', h2 @ CNetDisconnect net fid # pre @ CNetConnect nid fid # post')"
    using re loop(1) by (simp add: w'_def post'_def)
  moreover have "let err = d_connect D (h2 @ CNetDisconnect net fid # pre) nid fid in
       if err = None \<or> isAlreadyConnected err
       then w' = w\<lparr>parked := False\<rparr> \<and> filter is_write post' = (if rb_Restart (rw_cfg w) then [CRestart fid] else [])
       else w' = w \<and> filter is_write post' = []"
    using loop(6) none by (simp add: Let_def w'_def post'_def)
  ultimately show ?thesis using loop(3,5) len by blast
qed

subsubsection \<open>Witnesses\<close>

definition mail_cfg :: cfg_rebinder where
  "mail_cfg = \<lparr>rb_FollowNetwork = ''mail'', rb_FollowTarget = ''sync'', rb_Restart = True, rb_EventBackoff = 0,
     rb_SelfProject = [], rb_DockerHost = [], rb_LogLevel = [], rb_MetricsAddr = []\<rparr>"

definition mail_docker :: "(string \<times> string) list \<Rightarrow> dk_daemon" where
  "mail_docker members = \<lparr>
     d_list = (\<lambda>h. Some [\<lparr>cs_ID = ''sync1'', cs_Names = [''/sync''], cs_State = ''running'',
       cs_NetworkMode = ''bridge'', cs_ImageID = [], cs_Labels = Map.empty\<rparr>]),
     d_inspect = (\<lambda>h i. None), d_start = (\<lambda>h i. True), d_remove = (\<lambda>h i. True), d_create = (\<lambda>h r. None),
     d_restart = (\<lambda>h i. True),
     d_net_inspect = (\<lambda>h n. Some \<lparr>ni_ID = ''n2'', ni_Name = n, ni_Containers = members\<rparr>),
     d_connect = (\<lambda>h n i. if CSleep 1000000000 \<in> set h then None else Some ''Address already in use''),
     d_disconnect = (\<lambda>h n i. None), d_done = (\<lambda>h. False), d_now = (\<lambda>h. 0)\<rparr>"

lemma mail_production: "production (rb_New mail_cfg)"
  unfolding production_def by (intro exI [of _ mail_cfg] exI [of _ False]) (simp add: rb_New_def)

lemma mail_list: "rb_ContainerList (mail_docker m) h =
    (Some [\<lparr>rc_ID = ''sync1'', rc_Names = [''/sync''], rc_Labels = Map.empty, rc_Networks = Map.empty\<rparr>], h @ [CList])"
  by (simp add: rb_ContainerList_def mail_docker_def)

lemma mail_resolve: "rb_resolve (rb_New mail_cfg)
    [\<lparr>rc_ID = ''sync1'', rc_Names = [''/sync''], rc_Labels = Map.empty, rc_Networks = Map.empty\<rparr>] = ''sync1''"
  by code_simp

theorem waitForSettle_settles_witness:
  "\<exists>new. waitForSettle (mail_docker [(''smtp'', ''smtp''), (''sync1'', ''sync'')]) (rb_New mail_cfg) [] = Some (settleReady, new)
     \<and> net_probes (rb_New mail_cfg) new \<le> 91"
proof -
  let ?D = "mail_docker [(''smtp'', ''smtp''), (''sync1'', ''sync'')]"
  have "map_option fst (waitForSettle ?D (rb_New mail_cfg) []) = Some settleReady" by code_simp
  then show ?thesis using waitForSettle_settles [OF mail_production, of ?D "[]"] by auto
qed

theorem maybePark_sole_member_witness:
  "maybePark (mail_docker [(''sync1'', ''sync'')]) (rb_New mail_cfg, []) =
     ((rb_New mail_cfg)\<lparr>parked := True\<rparr>, [CNetInspect ''mail'', CList, CNetDisconnect ''mail'' ''sync1''])"
proof -
  have *: "\<not> parked (rb_New mail_cfg)"
      "d_net_inspect (mail_docker [(''sync1'', ''sync'')]) [] ''mail'' =
        Some \<lparr>ni_ID = ''n2'', ni_Name = ''mail'', ni_Containers = [(''sync1'', ''sync'')]\<rparr>"
      "''mail'' = rb_FollowNetwork (rw_cfg (rb_New mail_cfg))"
      "d_disconnect (mail_docker [(''sync1'', ''sync'')]) h n i = None" for h n i
    by (simp_all add: rb_New_def mail_cfg_def mail_docker_def)
  have "\<not> is_other ''sync1'' ''sync1''" by code_simp
  then show ?thesis
    using maybePark_sole_member [OF *(1-3) mail_list mail_resolve [symmetric]] *(4) by simp
qed

theorem reattach_outcome_witness:
  "\<exists>w' pre post. reattach (mail_docker []) (rb_New mail_cfg, []) =
     (w', [CNetInspect ''mail'', CList, CNetDisconnect ''mail'' ''sync1''] @ pre @ post)
     \<and> hd (filter is_connect (pre @ post)) = CNetConnect ''n2'' ''sync1''"
proof -
  have *: "d_net_inspect (mail_docker []) [] ''mail'' = Some \<lparr>ni_ID = ''n2'', ni_Name = ''mail'', ni_Containers = []\<rparr>"
      "''mail'' = rb_FollowNetwork (rw_cfg (rb_New mail_cfg))"
    by (simp_all add: rb_New_def mail_cfg_def mail_docker_def)
  obtain pre nid post w' where r: "reattach (mail_docker []) (rb_New mail_cfg, []) =
        (w', ([] @ [CNetInspect ''mail'']) @ [CList] @ CNetDisconnect ''mail'' ''sync1'' # pre @ CNetConnect nid ''sync1'' # post)"
      "hd (filter is_connect (pre @ [CNetConnect nid ''sync1''])) = CNetConnect ''n2'' ''sync1''"
    using reattach_outcome [OF mail_production * mail_list mail_resolve [symmetric]] by auto
  then have "hd (filter is_connect (pre @ CNetConnect nid ''sync1'' # post)) = CNetConnect ''n2'' ''sync1''"
    by (cases "filter is_connect pre") auto
  with r(1) show ?thesis by (intro exI [of _ w'] exI [of _ pre] exI [of _ "CNetConnect nid ''sync1'' # post"]) simp
qed

end
