(* ===== verification/WrapRebinder.thy ===== *)
theory WrapRebinder
  imports DockerApi Config
begin

section \<open>Package wraprebinder: anchors of a wrapped target that is recreated\<close>

text \<open>
  \<open>src/internal/wraprebinder/wraprebinder.go\<close>, over the daemon of theory \<open>DockerApi\<close>. The
  watcher's mutex guards fields only this goroutine uses, so it is left out; the two reads of the
  clock in \<open>recreateAnchor\<close> are one. Go's order of ranging over the pool is the parameter \<open>rng\<close>.

  Shown: the pool maps a name to exactly the anchors of the own project whose network mode refers
  to the container of that name; when a tracked target starts, every anchor of it is removed,
  created again in the namespace of that name, without the settings Docker refuses there, and
  started. An anchor whose target is absent while the pool is rebuilt is not tracked afterwards.
\<close>

subsection \<open>Data\<close>

record wr_container =
  wc_ID :: string
  wc_Names :: "string list"
  wc_State :: string
  wc_NetworkMode :: string
  wc_Labels :: "string \<rightharpoonup> string"

record wr_event =
  we_Action :: string
  we_ContainerID :: string
  we_ContainerName :: string
  we_Project :: string

type_synonym target_pool = "(string, string list) gomap"

record orphan_anchor =
  oa_anchorID :: string
  oa_storedRef :: string

record wr_watcher =
  ww_cfg :: cfg_wrap_rebinder
  ww_selfID :: string
  ww_pool :: target_pool
  lastRestartedAt :: "string \<rightharpoonup> int"

definition rapidRestartWindow :: int where "rapidRestartWindow = 1 * 1000000000"

definition wr_New :: "cfg_wrap_rebinder \<Rightarrow> wr_watcher" where
  "wr_New cfg = \<lparr>ww_cfg = cfg, ww_selfID = [], ww_pool = [], lastRestartedAt = Map.empty\<rparr>"

subsection \<open>The adapter\<close>

definition wr_info :: "ct_summary \<Rightarrow> wr_container" where
  "wr_info c = \<lparr>wc_ID = cs_ID c, wc_Names = cs_Names c, wc_State = cs_State c,
     wc_NetworkMode = cs_NetworkMode c, wc_Labels = cs_Labels c\<rparr>"

definition wr_ContainerList :: "dk_daemon \<Rightarrow> dk_history \<Rightarrow> wr_container list option \<times> dk_history" where
  "wr_ContainerList D h = (map_option (map wr_info) (d_list D h), h @ [CList])"

text \<open>The timeout is turned into seconds and not used further.\<close>

definition wr_Recreate :: "duration \<Rightarrow> dk_daemon \<Rightarrow> string \<Rightarrow> string \<Rightarrow> dk_history \<Rightarrow> string option \<times> dk_history" where
  "wr_Recreate timeout D i newNetMode h =
     (let h1 = h @ [CInspect i] in
      case d_inspect D h i of None \<Rightarrow> (None, h1)
      | Some insp \<Rightarrow>
         (case (ci_Config insp, ci_HostConfig insp) of
            (Some cfg, Some hostCfg) \<Rightarrow>
              (let newHostConfig = hostCfg\<lparr>hc_NetworkMode := newNetMode\<rparr>;
                   newConfig = (if has_prefix newNetMode ''container:''
                                then cfg\<lparr>cc_Hostname := [], cc_Domainname := [], cc_MacAddress := [], cc_ExposedPorts := []\<rparr>
                                else cfg);
                   name = trim_prefix (ci_Name insp) ''/'';
                   h2 = h1 @ [CRemove i];
                   req = \<lparr>cr_Config = newConfig, cr_HostConfig = newHostConfig, cr_Name = name\<rparr>;
                   h3 = h2 @ [CCreate req] in
               if \<not> d_remove D h1 i then (None, h2)
               else (case d_create D h2 req of None \<Rightarrow> (None, h3)
                     | Some j \<Rightarrow> if \<not> d_start D h3 j then (None, h3 @ [CStart j])
                                 else (Some j, h3 @ [CStart j])))
          | _ \<Rightarrow> (None, h1)))"

subsection \<open>Resolving references\<close>

definition wr_firstName :: "wr_container \<Rightarrow> string" where
  "wr_firstName c = (case find (\<lambda>n. n \<noteq> []) (wc_Names c) of Some n \<Rightarrow> trim_prefix n ''/'' | None \<Rightarrow> [])"

text \<open>The three passes: by ID, by a prefix of it, by name.\<close>

definition resolveTargetName :: "wr_container list \<Rightarrow> string \<Rightarrow> string" where
  "resolveTargetName all ref =
     (case find (\<lambda>c. wc_ID c = ref) all of Some c \<Rightarrow> wr_firstName c
      | None \<Rightarrow>
         (case (if 12 \<le> length ref then find (\<lambda>c. has_prefix (wc_ID c) ref) all else None) of
            Some c \<Rightarrow> wr_firstName c
          | None \<Rightarrow>
             (case find (\<lambda>c. list_ex (\<lambda>n. trim_prefix n ''/'' = ref) (wc_Names c)) all of
                Some c \<Rightarrow> ref
              | None \<Rightarrow> [])))"

definition resolveContainerByName :: "wr_container list \<Rightarrow> string \<Rightarrow> string" where
  "resolveContainerByName all name0 =
     (let name = trim_prefix name0 ''/'' in
      if name = [] then []
      else case find (\<lambda>c. wc_ID c = name) all of Some c \<Rightarrow> wc_ID c
      | None \<Rightarrow>
         (case (if 12 \<le> length name then find (\<lambda>c. has_prefix (wc_ID c) name) all else None) of
            Some c \<Rightarrow> wc_ID c
          | None \<Rightarrow>
             (case find (\<lambda>c. list_ex (\<lambda>n. trim_prefix n ''/'' = name) (wc_Names c)) all of
                Some c \<Rightarrow> wc_ID c
              | None \<Rightarrow> [])))"

definition findByID :: "wr_container list \<Rightarrow> string \<Rightarrow> wr_container option" where
  "findByID all i = find (\<lambda>c. wc_ID c = i) all"

subsection \<open>The pool\<close>

definition pool_at :: "target_pool \<Rightarrow> string \<Rightarrow> string list" where
  "pool_at pool name = (case map_of pool name of None \<Rightarrow> [] | Some ids \<Rightarrow> ids)"

fun pool_loop :: "wr_container list \<Rightarrow> string \<Rightarrow> string \<Rightarrow> wr_container list
    \<Rightarrow> target_pool \<times> orphan_anchor list \<Rightarrow> target_pool \<times> orphan_anchor list" where
  "pool_loop all selfProject selfID [] acc = acc"
| "pool_loop all selfProject selfID (c # cs) (pool, orphans) =
     (if wc_ID c = selfID then pool_loop all selfProject selfID cs (pool, orphans)
      else if str_index (wc_Labels c) ''com.docker.compose.project'' \<noteq> selfProject
        then pool_loop all selfProject selfID cs (pool, orphans)
      else case cut_prefix (wc_NetworkMode c) ''container:'' of
             None \<Rightarrow> pool_loop all selfProject selfID cs (pool, orphans)
           | Some ref0 \<Rightarrow>
              (let ref = trim_space ref0 in
               if ref = [] then pool_loop all selfProject selfID cs (pool, orphans)
               else let targetName = resolveTargetName all ref in
                    if targetName = [] then
                      pool_loop all selfProject selfID cs
                        (pool, orphans @ [\<lparr>oa_anchorID = wc_ID c, oa_storedRef = ref\<rparr>])
                    else pool_loop all selfProject selfID cs
                        (gm_put targetName (pool_at pool targetName @ [wc_ID c]) pool, orphans)))"

definition buildTargetPool :: "wr_container list \<Rightarrow> string \<Rightarrow> string \<Rightarrow> target_pool \<times> orphan_anchor list" where
  "buildTargetPool all selfProject selfID = pool_loop all selfProject selfID all ([], [])"

definition enumerateTargetPool :: "dk_daemon \<Rightarrow> wr_watcher \<times> dk_history \<Rightarrow> wr_watcher \<times> dk_history" where
  "enumerateTargetPool D = (\<lambda>(w, h).
     (case wr_ContainerList D h of (None, h1) \<Rightarrow> (w, h1)
      | (Some all, h1) \<Rightarrow>
         (case buildTargetPool all (wr_SelfProject (ww_cfg w)) (ww_selfID w) of
            (pool, orphans) \<Rightarrow> (w\<lparr>ww_pool := pool\<rparr>, h1))))"

definition lookupAnchors :: "wr_watcher \<Rightarrow> string \<Rightarrow> string list" where
  "lookupAnchors w targetName = (case map_of (ww_pool w) targetName of None \<Rightarrow> [] | Some src \<Rightarrow> src)"

subsection \<open>Recreating anchors\<close>

definition dedup_key :: "string \<Rightarrow> string \<Rightarrow> string" where
  "dedup_key targetName anchorID = ''target:'' @ targetName @ ''|anchor:'' @ anchorID"

definition recreateAnchor :: "dk_daemon \<Rightarrow> string \<Rightarrow> string \<Rightarrow> wr_watcher \<times> dk_history \<Rightarrow> wr_watcher \<times> dk_history" where
  "recreateAnchor D anchorID targetName = (\<lambda>(w, h).
     (let dedupKey = dedup_key targetName anchorID;
          suppressed = (case lastRestartedAt w dedupKey of None \<Rightarrow> False
                        | Some t \<Rightarrow> d_now D h - t < rapidRestartWindow) in
      if suppressed then (w, h)
      else (w\<lparr>lastRestartedAt := (lastRestartedAt w)(dedupKey \<mapsto> d_now D h)\<rparr>,
            snd (wr_Recreate (wr_RestartTimeout (ww_cfg w)) D anchorID (''container:'' @ targetName) h))))"

primrec recreate_anchors :: "dk_daemon \<Rightarrow> string \<Rightarrow> string list \<Rightarrow> wr_watcher \<times> dk_history \<Rightarrow> wr_watcher \<times> dk_history" where
  "recreate_anchors D targetName [] s = s"
| "recreate_anchors D targetName (a # as) s = recreate_anchors D targetName as (recreateAnchor D a targetName s)"

primrec recheck_anchors :: "dk_daemon \<Rightarrow> wr_container list \<Rightarrow> string \<Rightarrow> string \<Rightarrow> string list
    \<Rightarrow> wr_watcher \<times> dk_history \<Rightarrow> wr_watcher \<times> dk_history" where
  "recheck_anchors D all targetName currentID [] s = s"
| "recheck_anchors D all targetName currentID (a # as) s =
     recheck_anchors D all targetName currentID as
       (case findByID all a of None \<Rightarrow> s
        | Some anchor \<Rightarrow>
           (case cut_prefix (wc_NetworkMode anchor) ''container:'' of None \<Rightarrow> s
            | Some ref0 \<Rightarrow>
               (let storedRef = trim_space ref0 in
                if storedRef = currentID \<or> storedRef = targetName then s
                else recreateAnchor D a targetName s)))"

fun recheck_pool :: "dk_daemon \<Rightarrow> wr_container list \<Rightarrow> target_pool \<Rightarrow> wr_watcher \<times> dk_history \<Rightarrow> wr_watcher \<times> dk_history" where
  "recheck_pool D all [] s = s"
| "recheck_pool D all ((targetName, anchors) # rest) s =
     (let currentID = resolveContainerByName all targetName in
      recheck_pool D all rest
        (if currentID = [] then s else recheck_anchors D all targetName currentID anchors s))"

definition wr_bootstrapRecheck :: "dk_daemon \<Rightarrow> (target_pool \<Rightarrow> target_pool) \<Rightarrow> wr_watcher \<times> dk_history \<Rightarrow> wr_watcher \<times> dk_history" where
  "wr_bootstrapRecheck D rng = (\<lambda>(w, h).
     (if ww_pool w = [] then (w, h)
      else case wr_ContainerList D h of (None, h1) \<Rightarrow> (w, h1)
      | (Some all, h1) \<Rightarrow> recheck_pool D all (rng (ww_pool w)) (w, h1)))"

definition enumerateAndRecheck :: "dk_daemon \<Rightarrow> (target_pool \<Rightarrow> target_pool) \<Rightarrow> wr_watcher \<times> dk_history \<Rightarrow> wr_watcher \<times> dk_history" where
  "enumerateAndRecheck D rng s = wr_bootstrapRecheck D rng (enumerateTargetPool D s)"

subsection \<open>Events\<close>

definition handleStart :: "dk_daemon \<Rightarrow> wr_event \<Rightarrow> wr_watcher \<times> dk_history \<Rightarrow> wr_watcher \<times> dk_history" where
  "handleStart D msg s =
     (let s1 = recreate_anchors D (we_ContainerName msg) (lookupAnchors (fst s) (we_ContainerName msg)) s in
      if we_Project msg = wr_SelfProject (ww_cfg (fst s)) then enumerateTargetPool D s1 else s1)"

datatype wr_input = WrPoll | WrMsg wr_event

primrec wr_consume :: "dk_daemon \<Rightarrow> (target_pool \<Rightarrow> target_pool) \<Rightarrow> wr_input list \<Rightarrow> wr_watcher \<times> dk_history \<Rightarrow> wr_watcher \<times> dk_history" where
  "wr_consume D rng [] s = s"
| "wr_consume D rng (i # is) s =
     (if d_done D (snd s) then s
      else wr_consume D rng is
        (case i of WrPoll \<Rightarrow> enumerateAndRecheck D rng s
         | WrMsg msg \<Rightarrow> if we_Action msg \<noteq> ''start'' then s else handleStart D msg s))"

primrec wr_streams :: "dk_daemon \<Rightarrow> (target_pool \<Rightarrow> target_pool) \<Rightarrow> wr_input list list \<Rightarrow> wr_watcher \<times> dk_history \<Rightarrow> wr_watcher \<times> dk_history" where
  "wr_streams D rng [] s = s"
| "wr_streams D rng (is # iss) s =
     (let s1 = wr_consume D rng is s in
      if d_done D (snd s1) then s1 else wr_streams D rng iss (fst s1, snd s1 @ [CSleep 2000000000]))"

definition wr_Run :: "dk_daemon \<Rightarrow> (target_pool \<Rightarrow> target_pool) \<Rightarrow> string \<Rightarrow> wr_input list list
    \<Rightarrow> wr_watcher \<times> dk_history \<Rightarrow> wr_watcher \<times> dk_history" where
  "wr_Run D rng hostname iss s =
     (let w = fst s; w1 = (if ww_selfID w = [] then w\<lparr>ww_selfID := hostname\<rparr> else w) in
      wr_streams D rng iss (enumerateAndRecheck D rng (w1, snd s)))"

subsection \<open>The recreate interface\<close>

text \<open>What Docker demands of a container in another's namespace.\<close>

definition netns_guest :: "string \<Rightarrow> ct_config \<Rightarrow> bool" where
  "netns_guest mode cfg \<longleftrightarrow> (has_prefix mode ''container:'' \<longrightarrow>
     cc_Hostname cfg = [] \<and> cc_Domainname cfg = [] \<and> cc_MacAddress cfg = [] \<and> cc_ExposedPorts cfg = [])"

interpretation wr_rec: netmode_recreator "wr_Recreate timeout" netns_guest for timeout
proof unfold_locales
  fix D :: dk_daemon and i mode h res h'
  assume "wr_Recreate timeout D i mode h = (res, h')"
  then show "\<exists>new. h' = h @ new \<and> (\<forall>k. CRemove k \<in> set new \<longrightarrow> k = i)"
    by (auto simp: wr_Recreate_def Let_def split: option.splits if_splits)
next
  fix D :: dk_daemon and i mode h j h'
  assume "wr_Recreate timeout D i mode h = (Some j, h')"
  then show "\<exists>insp r. d_inspect D h i = Some insp \<and> hc_NetworkMode (cr_HostConfig r) = mode
        \<and> cr_Name r = trim_prefix (ci_Name insp) ''/'' \<and> netns_guest mode (cr_Config r)
        \<and> h' = h @ [CInspect i, CRemove i, CCreate r, CStart j]"
    by (auto simp: wr_Recreate_def netns_guest_def Let_def split: option.splits if_splits)
next
  fix D :: dk_daemon and i mode h
  assume "d_inspect D h i = None"
  then show "wr_Recreate timeout D i mode h = (None, h @ [CInspect i])"
    by (simp add: wr_Recreate_def Let_def)
qed

subsection \<open>Properties\<close>

text \<open>The target an anchor waits for: the name of the container its network mode refers to, empty when
  there is none.\<close>

definition target_of :: "wr_container list \<Rightarrow> wr_container \<Rightarrow> string option" where
  "target_of all c = (case cut_prefix (wc_NetworkMode c) ''container:'' of None \<Rightarrow> None
     | Some ref0 \<Rightarrow> if trim_space ref0 = [] then None else Some (resolveTargetName all (trim_space ref0)))"

definition own_sibling :: "string \<Rightarrow> string \<Rightarrow> wr_container \<Rightarrow> bool" where
  "own_sibling project self c \<longleftrightarrow>
     wc_ID c \<noteq> self \<and> str_index (wc_Labels c) ''com.docker.compose.project'' = project"

lemma pool_at_put [simp]: "pool_at (gm_put n ids pool) m = (if m = n then ids else pool_at pool m)"
  by (simp add: pool_at_def)

lemma pool_loop_eq:
  "name \<noteq> [] \<Longrightarrow> pool_at (fst (pool_loop all project self cs (pool, orphans))) name
     = pool_at pool name @ map wc_ID (filter (\<lambda>c. own_sibling project self c \<and> target_of all c = Some name) cs)"
  "map oa_anchorID (snd (pool_loop all project self cs (pool, orphans)))
     = map oa_anchorID orphans @ map wc_ID (filter (\<lambda>c. own_sibling project self c \<and> target_of all c = Some []) cs)"
  by (induction cs arbitrary: pool orphans)
    (auto simp: own_sibling_def target_of_def Let_def split: option.split)

text \<open>The pool maps a name to exactly the containers of the own project, other than the watcher's own,
  whose network mode refers to the container of that name, in the order of the list; those that
  refer to no container are reported as orphans and are in no entry of the pool.\<close>

theorem buildTargetPool_exact:
  assumes "buildTargetPool all project self = (pool, orphans)" "name \<noteq> []"
  shows "pool_at pool name = map wc_ID (filter (\<lambda>c. own_sibling project self c \<and> target_of all c = Some name) all)
    \<and> map oa_anchorID orphans = map wc_ID (filter (\<lambda>c. own_sibling project self c \<and> target_of all c = Some []) all)"
  using assms pool_loop_eq(1) [of name all project self all "[]" "[]"] pool_loop_eq(2) [of all project self all "[]" "[]"]
  by (simp add: buildTargetPool_def pool_at_def)

definition wrap_ct :: "string \<Rightarrow> string \<Rightarrow> wr_container" where
  "wrap_ct i mode = \<lparr>wc_ID = i, wc_Names = [''/'' @ i], wc_State = ''running'', wc_NetworkMode = mode,
     wc_Labels = [''com.docker.compose.project'' \<mapsto> ''wrap'']\<rparr>"

theorem buildTargetPool_exact_witness:
  "pool_at (fst (buildTargetPool [wrap_ct ''ldap'' ''bridge'', wrap_ct ''sa'' ''container:ldap''] ''wrap'' [])) ''ldap'' = [''sa'']"
proof -
  let ?all = "[wrap_ct ''ldap'' ''bridge'', wrap_ct ''sa'' ''container:ldap'']"
  obtain pool orphans where b: "buildTargetPool ?all ''wrap'' [] = (pool, orphans)"
    by (cases "buildTargetPool ?all ''wrap'' []")
  have "map wc_ID (filter (\<lambda>c. own_sibling ''wrap'' [] c \<and> target_of ?all c = Some ''ldap'') ?all) = [''sa'']"
    by code_simp
  then show ?thesis using buildTargetPool_exact [OF b, of "''ldap''"] b by simp
qed

text \<open>A reference to no container of the list resolves to no name.\<close>

lemma resolveTargetName_absent:
  assumes "\<And>c. c \<in> set all \<Longrightarrow> wc_ID c \<noteq> ref \<and> \<not> (12 \<le> length ref \<and> has_prefix (wc_ID c) ref)"
    and "\<And>c n. c \<in> set all \<Longrightarrow> n \<in> set (wc_Names c) \<Longrightarrow> trim_prefix n ''/'' \<noteq> ref"
  shows "resolveTargetName all ref = []"
proof -
  have "find (\<lambda>c. wc_ID c = ref) all = None" "find (\<lambda>c. list_ex (\<lambda>n. trim_prefix n ''/'' = ref) (wc_Names c)) all = None"
    using assms by (auto simp: find_None_iff list_ex_iff)
  moreover have "12 \<le> length ref \<Longrightarrow> find (\<lambda>c. has_prefix (wc_ID c) ref) all = None"
    using assms by (auto simp: find_None_iff)
  ultimately show ?thesis by (simp add: resolveTargetName_def)
qed

text \<open>So an anchor whose target is absent while the pool is rebuilt - by a poll or by the start of any
  container of the project, between the removal of the target and its new start - is tracked under
  no name, and the start of the target does not recreate it.\<close>

lemma lookupAnchors_pool: "lookupAnchors w name = pool_at (ww_pool w) name"
  by (simp add: lookupAnchors_def pool_at_def)

lemma recreate_anchors_remove:
  assumes "a \<notin> set as" "recreate_anchors D name as (w, h) = (w', h')"
  shows "\<exists>new. h' = h @ new \<and> CRemove a \<notin> set new"
  using assms
proof (induction "as" arbitrary: w h)
  case (Cons b bs)
  obtain w1 h1 where r: "recreateAnchor D b name (w, h) = (w1, h1)" by (cases "recreateAnchor D b name (w, h)")
  have "\<exists>new. h1 = h @ new \<and> CRemove a \<notin> set new"
  proof (cases "h1 = h")
    case False
    then obtain res where "wr_Recreate (wr_RestartTimeout (ww_cfg w)) D b (''container:'' @ name) h = (res, h1)"
      using r by (cases "wr_Recreate (wr_RestartTimeout (ww_cfg w)) D b (''container:'' @ name) h")
        (auto simp: recreateAnchor_def Let_def split: if_splits)
    from wr_rec.recreate_grows [OF this] show ?thesis using Cons.prems by auto
  qed auto
  then show ?case using Cons r by fastforce
qed simp

lemma rebuild_loses_anchor:
  assumes "d_list D h = Some l" "name \<noteq> []"
    and "\<And>c. c \<in> set l \<Longrightarrow> cs_ID c = a \<Longrightarrow> target_of (map wr_info l) (wr_info c) = Some []"
    and "enumerateTargetPool D (w, h) = (w1, h1)" "we_ContainerName msg = name"
    and "handleStart D msg (w1, h1) = (w2, h2)"
  shows "\<exists>new. h2 = h1 @ new \<and> CRemove a \<notin> set new"
proof -
  let ?all = "map wr_info l"
  have "pool_at (ww_pool w1) name = map wc_ID (filter (\<lambda>c. own_sibling (wr_SelfProject (ww_cfg w)) (ww_selfID w) c
      \<and> target_of ?all c = Some name) ?all)"
    using assms(1,2,4) pool_loop_eq(1) [of name ?all "wr_SelfProject (ww_cfg w)" "ww_selfID w" ?all "[]" "[]"]
    by (auto simp: enumerateTargetPool_def wr_ContainerList_def buildTargetPool_def pool_at_def split: prod.splits)
  moreover have "wc_ID (wr_info c) = cs_ID c" for c by (simp add: wr_info_def)
  ultimately have a: "a \<notin> set (lookupAnchors w1 name)"
    using assms(2,3) by (auto simp: lookupAnchors_pool)
  obtain w3 h3 where r: "recreate_anchors D name (lookupAnchors w1 name) (w1, h1) = (w3, h3)"
    by (cases "recreate_anchors D name (lookupAnchors w1 name) (w1, h1)")
  obtain new where "h3 = h1 @ new" "CRemove a \<notin> set new" using recreate_anchors_remove [OF a r] by blast
  moreover have "h2 = h3 \<or> h2 = h3 @ [CList]"
    using assms(5,6) r
    by (auto simp: handleStart_def Let_def enumerateTargetPool_def wr_ContainerList_def split: if_splits option.splits prod.splits)
  ultimately show ?thesis by auto
qed

lemma recreate_anchors_all:
  assumes "distinct as" "\<And>a. a \<in> set as \<Longrightarrow> lastRestartedAt w (dedup_key name a) = None"
  shows "snd (recreate_anchors D name as (w, h))
    = wr_rec.recreate_all (wr_RestartTimeout (ww_cfg w)) D (''container:'' @ name) as h"
  using assms
proof (induction "as" arbitrary: w h)
  case (Cons a as)
  let ?w = "w\<lparr>lastRestartedAt := (lastRestartedAt w)(dedup_key name a \<mapsto> d_now D h)\<rparr>"
  have "recreateAnchor D a name (w, h) =
      (?w, snd (wr_Recreate (wr_RestartTimeout (ww_cfg w)) D a (''container:'' @ name) h))"
    using Cons.prems(2) [of a] by (simp add: recreateAnchor_def Let_def)
  moreover have "lastRestartedAt ?w (dedup_key name b) = None" if "b \<in> set as" for b
    using Cons.prems that by (auto simp: dedup_key_def)
  ultimately show ?case using Cons.IH [of ?w] Cons.prems by simp
qed simp

text \<open>When a container starts whose name tracks anchors that were not recreated under it before (an
  anchor's ID changes when it is recreated), every one of them is inspected, removed, created again under its own name in the
  namespace of the started container, without host name, domain name, MAC address and exposed
  ports, and started; an anchor the daemon does not let through does not keep the others from it.\<close>

theorem handleStart_recreates:
  assumes "distinct (lookupAnchors w name)" "a \<in> set (lookupAnchors w name)" "we_ContainerName msg = name"
    and "\<And>b. b \<in> set (lookupAnchors w name) \<Longrightarrow> lastRestartedAt w (dedup_key name b) = None"
    and "CRemove a \<notin> set h"
    and "\<And>h'. CRemove a \<notin> set h' \<Longrightarrow>
      fst (wr_Recreate (wr_RestartTimeout (ww_cfg w)) D a (''container:'' @ name) h') \<noteq> None"
  shows "\<exists>pre post insp r j. snd (handleStart D msg (w, h))
      = pre @ [CInspect a, CRemove a, CCreate r, CStart j] @ post
    \<and> d_inspect D pre a = Some insp \<and> cr_Name r = trim_prefix (ci_Name insp) ''/''
    \<and> hc_NetworkMode (cr_HostConfig r) = ''container:'' @ name
    \<and> cc_Hostname (cr_Config r) = [] \<and> cc_Domainname (cr_Config r) = []
    \<and> cc_MacAddress (cr_Config r) = [] \<and> cc_ExposedPorts (cr_Config r) = []"
proof -
  let ?t = "wr_RestartTimeout (ww_cfg w)"
  obtain w1 h1 where r: "recreate_anchors D name (lookupAnchors w name) (w, h) = (w1, h1)"
    by (cases "recreate_anchors D name (lookupAnchors w name) (w, h)")
  have h1: "h1 = wr_rec.recreate_all ?t D (''container:'' @ name) (lookupAnchors w name) h"
    using recreate_anchors_all [OF assms(1,4), where D = D and h = h] r by simp
  obtain pre post insp q j where block: "h1 = pre @ [CInspect a, CRemove a, CCreate q, CStart j] @ post"
      "d_inspect D pre a = Some insp" "cr_Name q = trim_prefix (ci_Name insp) ''/''"
      "hc_NetworkMode (cr_HostConfig q) = ''container:'' @ name" "netns_guest (''container:'' @ name) (cr_Config q)"
    unfolding h1 using wr_rec.recreate_all_ok [OF assms(2,6,5)] by blast
  have "snd (handleStart D msg (w, h)) = h1 \<or> snd (handleStart D msg (w, h)) = h1 @ [CList]"
    using r assms(3)
    by (auto simp: handleStart_def Let_def enumerateTargetPool_def wr_ContainerList_def split: option.split prod.split)
  then obtain more where "snd (handleStart D msg (w, h)) = pre @ [CInspect a, CRemove a, CCreate q, CStart j] @ post @ more"
    using block(1) by fastforce
  moreover have "has_prefix (''container:'' @ name) ''container:''" by (simp add: has_prefix_iff)
  ultimately show ?thesis using block(2-5) unfolding netns_guest_def by blast
qed

definition wrap_watcher :: wr_watcher where
  "wrap_watcher = \<lparr>ww_cfg = \<lparr>wr_SelfProject = ''wrap'', wr_PollInterval = 0, wr_RestartTimeout = 0,
       wr_DockerHost = [], wr_LogLevel = [], wr_MetricsAddr = []\<rparr>,
     ww_selfID = [], ww_pool = [(''ldap'', [''sa''])], lastRestartedAt = Map.empty\<rparr>"

theorem handleStart_recreates_witness:
  "\<exists>pre post r j. snd (handleStart (demo_docker [])
      \<lparr>we_Action = ''start'', we_ContainerID = ''l2'', we_ContainerName = ''ldap'', we_Project = ''other''\<rparr> (wrap_watcher, []))
      = pre @ [CInspect ''sa'', CRemove ''sa'', CCreate r, CStart j] @ post
    \<and> hc_NetworkMode (cr_HostConfig r) = ''container:ldap'' \<and> cc_Hostname (cr_Config r) = []"
proof -
  let ?D = "demo_docker []"
  let ?msg = "\<lparr>we_Action = ''start'', we_ContainerID = ''l2'', we_ContainerName = ''ldap'', we_Project = ''other''\<rparr>"
  have anchors: "lookupAnchors wrap_watcher ''ldap'' = [''sa'']"
      "lastRestartedAt wrap_watcher (dedup_key ''ldap'' b) = None" for b
    by (simp_all add: wrap_watcher_def lookupAnchors_def)
  have rec: "fst (wr_Recreate (wr_RestartTimeout (ww_cfg wrap_watcher)) ?D ''sa'' (''container:'' @ ''ldap'') h') \<noteq> None"
    if "CRemove ''sa'' \<notin> set h'" for h'
    using that by (simp add: wr_Recreate_def Let_def demo_docker_def demo_inspect_def)
  have "\<exists>pre post insp r j. snd (handleStart ?D ?msg (wrap_watcher, []))
      = pre @ [CInspect ''sa'', CRemove ''sa'', CCreate r, CStart j] @ post
    \<and> d_inspect ?D pre ''sa'' = Some insp \<and> cr_Name r = trim_prefix (ci_Name insp) ''/''
    \<and> hc_NetworkMode (cr_HostConfig r) = ''container:'' @ ''ldap''
    \<and> cc_Hostname (cr_Config r) = [] \<and> cc_Domainname (cr_Config r) = []
    \<and> cc_MacAddress (cr_Config r) = [] \<and> cc_ExposedPorts (cr_Config r) = []"
    by (rule handleStart_recreates) (use anchors rec in \<open>simp_all del: append_Cons\<close>)
  then show ?thesis by auto
qed

end
