(* ===== verification/ExtIface.thy ===== *)
theory ExtIface
  imports DockerApi
begin

section \<open>Package extiface: the external interface by network name\<close>

text \<open>
  \<open>src/internal/extiface/extiface.go\<close>, over the daemon of theory \<open>DockerApi\<close>; the links of the
  namespace are a parameter, a name and a hardware address each, or nothing when netlink fails.
  The retry loop ends by the clock, so it is a partial function, \<open>None\<close> meaning that it does not
  return.

  Shown: with a clock that advances by at least the pauses asked for, the loop returns after at
  most ten attempts, with the result of the first one that succeeds, or with the error of the last;
  an attempt finds exactly the first link whose address is the one Docker reports.
\<close>

subsection \<open>Go's \<open>net.ParseMAC\<close>\<close>

definition mac_nibble :: "char \<Rightarrow> byte option" where
  "mac_nibble c =
     (if is_digit c then Some (of_nat (digit_val c))
      else let l = lower_char c in
           if l \<in> set ''abcdef'' then Some (of_nat (of_char l - of_char (CHR ''a'') + 10)) else None)"

text \<open>Two digits and what follows them must be the separator, or the end.\<close>

fun mac_bytes :: "char \<Rightarrow> string \<Rightarrow> byte list option" where
  "mac_bytes sep [a, b] =
     (case (mac_nibble a, mac_nibble b) of (Some x, Some y) \<Rightarrow> Some [16 * x + y] | _ \<Rightarrow> None)"
| "mac_bytes sep (a # b # c # rest) =
     (case (mac_nibble a, mac_nibble b) of
        (Some x, Some y) \<Rightarrow> if c = sep then map_option ((#) (16 * x + y)) (mac_bytes sep rest) else None
      | _ \<Rightarrow> None)"
| "mac_bytes sep s = None"

text \<open>The dotted form, four digits to a group.\<close>

fun mac_quads :: "string \<Rightarrow> byte list option" where
  "mac_quads [a, b, c, d] =
     (case (mac_nibble a, mac_nibble b, mac_nibble c, mac_nibble d) of
        (Some w, Some x, Some y, Some z) \<Rightarrow> Some [16 * w + x, 16 * y + z] | _ \<Rightarrow> None)"
| "mac_quads (a # b # c # d # e # rest) =
     (case (mac_nibble a, mac_nibble b, mac_nibble c, mac_nibble d) of
        (Some w, Some x, Some y, Some z) \<Rightarrow>
           if e = CHR ''.'' then map_option (\<lambda>bs. (16 * w + x) # (16 * y + z) # bs) (mac_quads rest) else None
      | _ \<Rightarrow> None)"
| "mac_quads s = None"

definition parse_mac :: "string \<Rightarrow> byte list option" where
  "parse_mac s =
     (if length s < 14 then None
      else if s ! 2 = CHR '':'' \<or> s ! 2 = CHR ''-'' then
        (if length s \<in> {17, 23, 59} then mac_bytes (s ! 2) s else None)
      else if s ! 4 = CHR ''.'' then (if length s \<in> {14, 19, 49} then mac_quads s else None)
      else None)"

subsection \<open>The resolver\<close>

datatype ei_error =
    ExtNetworkEmpty
  | DockerUnreachable
  | NetworkNotFound string
  | NoMACYet string
  | ParseMACFailed string
  | MACNotFound string

type_synonym links = "dk_history \<Rightarrow> (string \<times> byte list) list option"

record resolver =
  ei_selfHost :: string
  ei_deadline :: int

definition DefaultDeadline :: int where "DefaultDeadline = 10 * 1000000000"

definition ei_New :: "string \<Rightarrow> resolver" where
  "ei_New selfHost = \<lparr>ei_selfHost = selfHost, ei_deadline = DefaultDeadline\<rparr>"

definition inspectFromDocker :: "dk_daemon \<Rightarrow> dk_history \<Rightarrow> string \<Rightarrow> (string \<rightharpoonup> string) option" where
  "inspectFromDocker D h i =
     map_option (\<lambda>insp. (\<lambda>name. case ci_Networks insp of None \<Rightarrow> None
        | Some nets \<Rightarrow> (case map_of nets name of Some (Some n) \<Rightarrow> Some (ne_MacAddress n) | _ \<Rightarrow> None)))
       (d_inspect D h i)"

text \<open>The scan of the links: the variables \<open>first\<close> and \<open>hits\<close>.\<close>

fun mac_loop :: "byte list \<Rightarrow> (string \<times> byte list) list \<Rightarrow> string \<Rightarrow> nat \<Rightarrow> string \<times> nat" where
  "mac_loop mac [] first hits = (first, hits)"
| "mac_loop mac ((name, hw) # ls) first hits =
     (if hw = mac then mac_loop mac ls (if first = [] then name else first) (Suc hits)
      else mac_loop mac ls first hits)"

definition resolveByMAC :: "(string \<times> byte list) list option \<Rightarrow> byte list \<Rightarrow> string option" where
  "resolveByMAC links mac =
     (case links of None \<Rightarrow> None
      | Some ls \<Rightarrow> (case mac_loop mac ls [] 0 of (first, hits) \<Rightarrow> if hits = 0 then None else Some first))"

definition ei_attempt :: "dk_daemon \<Rightarrow> links \<Rightarrow> resolver \<Rightarrow> string \<Rightarrow> dk_history \<Rightarrow> (ei_error + string) \<times> dk_history" where
  "ei_attempt D links r network h =
     (let h1 = h @ [CInspect (ei_selfHost r)] in
      ((case inspectFromDocker D h (ei_selfHost r) of None \<Rightarrow> Inl DockerUnreachable
       | Some nets \<Rightarrow>
          (case nets network of None \<Rightarrow> Inl (NetworkNotFound network)
           | Some macStr \<Rightarrow>
              if macStr = [] then Inl (NoMACYet network)
              else case parse_mac macStr of None \<Rightarrow> Inl (ParseMACFailed macStr)
              | Some mac \<Rightarrow>
                 (case resolveByMAC (links h1) mac of None \<Rightarrow> Inl (MACNotFound macStr)
                  | Some iface \<Rightarrow> Inr iface))),
       h1))"

partial_function (option) resolve_loop :: "dk_daemon \<Rightarrow> links \<Rightarrow> resolver \<Rightarrow> string \<Rightarrow> int \<Rightarrow> int \<Rightarrow> dk_history
    \<Rightarrow> ((ei_error + string) \<times> dk_history) option" where
  [code]: "resolve_loop D links r network deadline backoff h =
     (case ei_attempt D links r network h of (res, h1) \<Rightarrow>
        (case res of Inr iface \<Rightarrow> Some (Inr iface, h1)
         | Inl err \<Rightarrow>
            if d_now D h1 > deadline then Some (Inl err, h1)
            else let h2 = h1 @ [CSleep backoff] in
                 if d_done D h2 then Some (Inl err, h2)
                 else resolve_loop D links r network deadline
                        (if backoff * 2 > 2 * 1000000000 then 2 * 1000000000 else backoff * 2) h2))"

definition Resolve :: "dk_daemon \<Rightarrow> links \<Rightarrow> resolver \<Rightarrow> string \<Rightarrow> dk_history
    \<Rightarrow> ((ei_error + string) \<times> dk_history) option" where
  "Resolve D links r network h =
     (if network = [] then Some (Inl ExtNetworkEmpty, h)
      else resolve_loop D links r network (d_now D h + ei_deadline r) (100 * 1000000) h)"

subsection \<open>Lemmas\<close>

text \<open>The pause after the \<open>i\<close>-th attempt, and the history before it.\<close>

primrec ei_backoff :: "nat \<Rightarrow> int" where
  "ei_backoff 0 = 100 * 1000000"
| "ei_backoff (Suc i) = (if ei_backoff i * 2 > 2 * 1000000000 then 2 * 1000000000 else ei_backoff i * 2)"

primrec ei_hist :: "resolver \<Rightarrow> dk_history \<Rightarrow> nat \<Rightarrow> dk_history" where
  "ei_hist r h 0 = h"
| "ei_hist r h (Suc i) = ei_hist r h i @ [CInspect (ei_selfHost r), CSleep (ei_backoff i)]"

primrec ei_elapsed :: "nat \<Rightarrow> int" where
  "ei_elapsed 0 = 0"
| "ei_elapsed (Suc i) = ei_elapsed i + ei_backoff i"

text \<open>What the program relies on: time does not run backwards, and a pause lasts at least as long as
  asked for.\<close>

definition clock_ok :: "dk_daemon \<Rightarrow> bool" where
  "clock_ok D \<longleftrightarrow> (\<forall>h c. d_now D h \<le> d_now D (h @ [c])) \<and> (\<forall>h d. d_now D h + d \<le> d_now D (h @ [CSleep d]))"

lemma clock_elapsed:
  assumes "clock_ok D"
  shows "d_now D h + ei_elapsed i \<le> d_now D (ei_hist r h i)"
proof (induction i)
  case (Suc i)
  have "d_now D (ei_hist r h i) \<le> d_now D (ei_hist r h i @ [CInspect (ei_selfHost r)])"
    using assms by (simp add: clock_ok_def)
  also have "\<dots> + ei_backoff i \<le> d_now D ((ei_hist r h i @ [CInspect (ei_selfHost r)]) @ [CSleep (ei_backoff i)])"
    using assms unfolding clock_ok_def by blast
  finally show ?case using Suc by simp
qed simp

lemma ei_attempt_hist: "snd (ei_attempt D links r network h) = h @ [CInspect (ei_selfHost r)]"
  by (simp add: ei_attempt_def Let_def)

text \<open>The budget: nine pauses add up to more than ten seconds.\<close>

lemma ei_elapsed_9: "ei_elapsed 9 = 11100000000"
  by (simp add: eval_nat_numeral)

definition resolved_at :: "dk_daemon \<Rightarrow> links \<Rightarrow> resolver \<Rightarrow> string \<Rightarrow> int \<Rightarrow> dk_history \<Rightarrow> nat \<Rightarrow> nat
    \<Rightarrow> ei_error + string \<Rightarrow> dk_history \<Rightarrow> bool" where
  "resolved_at D links r network deadline h i k res h' \<longleftrightarrow>
     i \<le> k \<and> (\<forall>j. i \<le> j \<and> j < k \<longrightarrow> (\<exists>e. fst (ei_attempt D links r network (ei_hist r h j)) = Inl e))
     \<and> res = fst (ei_attempt D links r network (ei_hist r h k))
     \<and> (if \<exists>iface. res = Inr iface then h' = ei_hist r h k @ [CInspect (ei_selfHost r)]
        else if d_now D (ei_hist r h k @ [CInspect (ei_selfHost r)]) > deadline
          then h' = ei_hist r h k @ [CInspect (ei_selfHost r)]
        else h' = ei_hist r h (Suc k) \<and> d_done D h')"

lemma resolve_loop_returns:
  assumes "clock_ok D" "deadline \<le> d_now D h + 10 * 1000000000"
  shows "i \<le> 9 \<Longrightarrow> \<exists>k res h'. k \<le> 9
    \<and> resolve_loop D links r network deadline (ei_backoff i) (ei_hist r h i) = Some (res, h')
    \<and> resolved_at D links r network deadline h i k res h'"
proof (induction "9 - i" arbitrary: i)
  case 0
  then have i: "i = 9" by simp
  let ?h1 = "ei_hist r h 9 @ [CInspect (ei_selfHost r)]"
  obtain res where a: "ei_attempt D links r network (ei_hist r h 9) = (res, ?h1)"
    using ei_attempt_hist by (metis prod.collapse)
  have "d_now D h + ei_elapsed 9 \<le> d_now D (ei_hist r h 9)" by (rule clock_elapsed [OF assms(1)])
  also have "\<dots> \<le> d_now D ?h1" using assms(1) unfolding clock_ok_def by blast
  finally have late: "deadline < d_now D ?h1" using assms(2) unfolding ei_elapsed_9 by linarith
  have "resolve_loop D links r network deadline (ei_backoff 9) (ei_hist r h 9) = Some (res, ?h1)"
    by (subst resolve_loop.simps) (use a late in \<open>auto split: sum.split\<close>)
  moreover have "resolved_at D links r network deadline h 9 9 res ?h1"
    using a late by (auto simp: resolved_at_def)
  ultimately show ?case unfolding i by blast
next
  case (Suc n)
  let ?h1 = "ei_hist r h i @ [CInspect (ei_selfHost r)]"
  obtain res where a: "ei_attempt D links r network (ei_hist r h i) = (res, ?h1)"
    using ei_attempt_hist by (metis prod.collapse)
  have step: "resolve_loop D links r network deadline (ei_backoff i) (ei_hist r h i) =
      (case res of Inr iface \<Rightarrow> Some (Inr iface, ?h1)
       | Inl err \<Rightarrow> if d_now D ?h1 > deadline then Some (Inl err, ?h1)
          else if d_done D (ei_hist r h (Suc i)) then Some (Inl err, ei_hist r h (Suc i))
          else resolve_loop D links r network deadline (ei_backoff (Suc i)) (ei_hist r h (Suc i)))"
    by (subst resolve_loop.simps) (cases res; simp add: a Let_def)
  show ?case
  proof (cases "(\<exists>iface. res = Inr iface) \<or> d_now D ?h1 > deadline \<or> d_done D (ei_hist r h (Suc i))")
    case True
    then have "\<exists>h'. resolve_loop D links r network deadline (ei_backoff i) (ei_hist r h i) = Some (res, h')
        \<and> resolved_at D links r network deadline h i i res h'"
      unfolding step resolved_at_def using a by (cases res) auto
    then show ?thesis using Suc.prems by blast
  next
    case False
    then obtain e where e: "res = Inl e" by (cases res) auto
    have "n = 9 - Suc i" "Suc i \<le> 9" using Suc.hyps(2) by simp_all
    from Suc.hyps(1) [OF this] obtain k res' h' where k: "k \<le> 9"
        "resolve_loop D links r network deadline (ei_backoff (Suc i)) (ei_hist r h (Suc i)) = Some (res', h')"
        "resolved_at D links r network deadline h (Suc i) k res' h'" by blast
    have "resolve_loop D links r network deadline (ei_backoff i) (ei_hist r h i) = Some (res', h')"
      using step False e k(2) by simp
    moreover have "resolved_at D links r network deadline h i k res' h'"
      using k(3) a e unfolding resolved_at_def by (metis Suc_le_eq fst_conv le_neq_implies_less less_imp_le)
    ultimately show ?thesis using k(1) by blast
  qed
qed

lemma find_split:
  "find P xs = Some x \<longleftrightarrow> (\<exists>pre post. xs = pre @ x # post \<and> P x \<and> (\<forall>y \<in> set pre. \<not> P y))"
  (is "?l \<longleftrightarrow> (\<exists>pre post. ?r xs pre post)")
proof
  assume ?l
  then show "\<exists>pre post. ?r xs pre post"
  proof (induction xs)
    case (Cons a xs)
    show ?case
    proof (cases "P a")
      case True
      then show ?thesis using Cons.prems by (intro exI [of _ "[]"] exI [of _ xs]) simp
    next
      case False
      then obtain pre post where "?r xs pre post" using Cons by auto
      then show ?thesis using False by (intro exI [of _ "a # pre"] exI [of _ post]) simp
    qed
  qed simp
next
  assume "\<exists>pre post. ?r xs pre post"
  then obtain pre post where "?r xs pre post" by blast
  then show ?l by (induction pre arbitrary: xs) auto
qed

lemma find_Some_snd: "find (\<lambda>l. snd l = mac) ls = Some l \<Longrightarrow> snd l = mac"
  by (auto simp: find_split)

lemma mac_loop_first:
  assumes "\<forall>(n, hw) \<in> set ls. n \<noteq> []"
  shows "mac_loop mac ls first hits = (f, k) \<Longrightarrow>
    k = hits + length (filter (\<lambda>l. snd l = mac) ls)
    \<and> f = (if first \<noteq> [] then first
           else case find (\<lambda>l. snd l = mac) ls of None \<Rightarrow> [] | Some l \<Rightarrow> fst l)"
  using assms
proof (induction mac ls first hits rule: mac_loop.induct)
  case (2 mac name hw ls first hits)
  then show ?case by (cases "hw = mac") (auto split: if_splits)
qed simp

lemma resolveByMAC_first:
  assumes "\<forall>(n, hw) \<in> set ls. n \<noteq> []"
  shows "resolveByMAC (Some ls) mac = map_option fst (find (\<lambda>l. snd l = mac) ls)"
proof -
  obtain f k where l: "mac_loop mac ls [] 0 = (f, k)" by (cases "mac_loop mac ls [] 0")
  have "k = 0 \<longleftrightarrow> find (\<lambda>l. snd l = mac) ls = None"
    using mac_loop_first [OF assms l] by (auto simp: find_None_iff filter_empty_conv)
  then show ?thesis
    using mac_loop_first [OF assms l] l by (auto simp: resolveByMAC_def split: option.split)
qed

subsection \<open>Properties\<close>

text \<open>C27. The resolution of the external interface always returns, after at most ten attempts: with the
  interface the first successful attempt found, or, when all failed, with the error of the last one
  - which was made after the deadline, or was followed by a request to stop.\<close>

theorem Resolve_returns:
  assumes "clock_ok D" "network \<noteq> []"
  shows "\<exists>k res h'. k < 10 \<and> Resolve D links (ei_New host) network h = Some (res, h')
    \<and> (\<forall>j < k. \<exists>e. fst (ei_attempt D links (ei_New host) network (ei_hist (ei_New host) h j)) = Inl e)
    \<and> res = fst (ei_attempt D links (ei_New host) network (ei_hist (ei_New host) h k))
    \<and> length (filter ((=) (CInspect host)) h') = length (filter ((=) (CInspect host)) h) + Suc k
    \<and> ((\<exists>iface. res = Inr iface) \<or> d_now D (ei_hist (ei_New host) h k @ [CInspect host]) > d_now D h + 10000000000
       \<or> d_done D h')"
proof -
  let ?r = "ei_New host"
  have dl: "ei_deadline ?r = 10 * 1000000000" and host: "ei_selfHost ?r = host"
    by (simp_all add: ei_New_def DefaultDeadline_def)
  have count: "length (filter ((=) (CInspect host)) (ei_hist ?r h k)) = length (filter ((=) (CInspect host)) h) + k" for k
    by (induction k) (simp_all add: host)
  obtain k res h' where k: "k \<le> 9"
      "resolve_loop D links ?r network (d_now D h + 10 * 1000000000) (ei_backoff 0) (ei_hist ?r h 0) = Some (res, h')"
      "resolved_at D links ?r network (d_now D h + 10 * 1000000000) h 0 k res h'"
    using resolve_loop_returns [OF assms(1) order_refl, of 0] by blast
  have "Resolve D links ?r network h = Some (res, h')"
    using assms(2) k(2) by (simp add: Resolve_def dl)
  moreover have "length (filter ((=) (CInspect host)) h') = length (filter ((=) (CInspect host)) h) + Suc k"
    using k(3) count [of k] by (auto simp: resolved_at_def host split: if_splits)
  moreover have "(\<exists>iface. res = Inr iface) \<or> d_now D (ei_hist ?r h k @ [CInspect host]) > d_now D h + 10000000000
       \<or> d_done D h'"
    using k(3) by (auto simp: resolved_at_def host split: if_splits)
  ultimately show ?thesis
    using k(1,3) unfolding resolved_at_def by (intro exI [of _ k] exI [of _ res] exI [of _ h']) auto
qed

text \<open>An attempt yields an interface exactly when Docker reports an address for the network that
  parses and that a link carries, and it yields the first such link.\<close>

theorem ei_attempt_exact:
  assumes "\<And>h ls. links h = Some ls \<Longrightarrow> \<forall>(n, hw) \<in> set ls. n \<noteq> []"
  shows "fst (ei_attempt D links r network h) = Inr iface \<longleftrightarrow>
    (\<exists>insp nets ep mac ls pre post. d_inspect D h (ei_selfHost r) = Some insp \<and> ci_Networks insp = Some nets
       \<and> map_of nets network = Some (Some ep) \<and> ne_MacAddress ep \<noteq> [] \<and> parse_mac (ne_MacAddress ep) = Some mac
       \<and> links (h @ [CInspect (ei_selfHost r)]) = Some ls
       \<and> ls = pre @ (iface, mac) # post \<and> (\<forall>l \<in> set pre. snd l \<noteq> mac))"
proof -
  have find: "map_option fst (find (\<lambda>l. snd l = mac) ls) = Some iface
      \<longleftrightarrow> (\<exists>pre post. ls = pre @ (iface, mac) # post \<and> (\<forall>l \<in> set pre. snd l \<noteq> mac))" for mac :: "byte list" and ls
  proof -
    have "map_option fst (find (\<lambda>l. snd l = mac) ls) = Some iface
        \<longleftrightarrow> find (\<lambda>l. snd l = mac) ls = Some (iface, mac)"
      using find_Some_snd [of mac ls] by auto
    then show ?thesis by (simp add: find_split)
  qed
  have attempt: "fst (ei_attempt D links r network h) = Inr iface \<longleftrightarrow>
      (\<exists>insp nets ep mac. d_inspect D h (ei_selfHost r) = Some insp \<and> ci_Networks insp = Some nets
         \<and> map_of nets network = Some (Some ep) \<and> ne_MacAddress ep \<noteq> [] \<and> parse_mac (ne_MacAddress ep) = Some mac
         \<and> resolveByMAC (links (h @ [CInspect (ei_selfHost r)])) mac = Some iface)"
    by (auto simp: ei_attempt_def Let_def inspectFromDocker_def split: option.splits)
  have "resolveByMAC (links (h @ [CInspect (ei_selfHost r)])) mac = Some iface \<longleftrightarrow>
      (\<exists>ls pre post. links (h @ [CInspect (ei_selfHost r)]) = Some ls
         \<and> ls = pre @ (iface, mac) # post \<and> (\<forall>l \<in> set pre. snd l \<noteq> mac))" for mac
  proof (cases "links (h @ [CInspect (ei_selfHost r)])")
    case None
    then show ?thesis by (simp add: resolveByMAC_def)
  next
    case (Some ls)
    show ?thesis unfolding Some resolveByMAC_first [OF assms [OF Some]] find by simp
  qed
  then show ?thesis unfolding attempt by simp
qed

subsubsection \<open>Witnesses\<close>

text \<open>A daemon that never knows the network, and a clock that only pauses move.\<close>

definition pause_clock :: "dk_history \<Rightarrow> int" where
  "pause_clock h = sum_list (map (\<lambda>c. case c of CSleep d \<Rightarrow> \<bar>d\<bar> | _ \<Rightarrow> 0) h)"

definition ei_docker :: dk_daemon where
  "ei_docker = \<lparr>d_list = (\<lambda>h. None),
     d_inspect = (\<lambda>h i. Some \<lparr>ci_ID = i, ci_Name = i, ci_Image = [], ci_Config = None, ci_HostConfig = None,
       ci_Networks = Some (if length h < 3 then [] else
         [(''dmz'', Some \<lparr>ne_IPAddress = [], ne_NetworkID = [], ne_MacAddress = ''02:42:ac:12:00:05''\<rparr>)])\<rparr>),
     d_start = (\<lambda>h i. True), d_remove = (\<lambda>h i. True), d_create = (\<lambda>h r. None), d_restart = (\<lambda>h i. True),
     d_net_inspect = (\<lambda>h n. None), d_connect = (\<lambda>h n i. None), d_disconnect = (\<lambda>h n i. None),
     d_done = (\<lambda>h. False), d_now = pause_clock\<rparr>"

definition ei_links :: links where
  "ei_links = (\<lambda>h. Some [(''lo'', []), (''eth1'', [2, 66, 172, 18, 0, 5])])"

lemma ei_clock: "clock_ok ei_docker"
  by (auto simp: clock_ok_def ei_docker_def pause_clock_def split: dk_call.split)

theorem Resolve_returns_witness:
  "\<exists>res h'. Resolve ei_docker ei_links (ei_New ''self'') ''dmz'' [] = Some (res, h')
     \<and> length (filter ((=) (CInspect ''self'')) h') \<le> 10"
proof -
  have "''dmz'' \<noteq> []" by simp
  from Resolve_returns [OF ei_clock this, of ei_links "''self''" "[]"] show ?thesis by auto
qed

lemma ei_demo_mac: "parse_mac ''02:42:ac:12:00:05'' = Some [2, 66, 172, 18, 0, 5]"
  by code_simp

theorem ei_attempt_exact_witness:
  "fst (ei_attempt ei_docker ei_links (ei_New ''self'') ''dmz'' [CList, CList, CList]) = Inr ''eth1''"
proof -
  have hyp: "ei_links h = Some ls \<Longrightarrow> \<forall>(n, hw) \<in> set ls. n \<noteq> []" for h ls
    by (auto simp: ei_links_def)
  show ?thesis
    by (rule iffD2 [OF ei_attempt_exact], erule hyp)
      (simp add: ei_docker_def ei_demo_mac ei_links_def ei_New_def, rule exI [of _ "[(''lo'', [])]"], simp)
qed

end
