(* ===== verification/Metrics.thy ===== *)
theory Metrics
  imports GoPrelude
begin

section \<open>Package metrics: the registry\<close>

text \<open>
  \<open>src/internal/metrics/metrics.go\<close>. A counter or gauge vector is the map from its name and label
  values to the series that exist; the histogram is registered but not observed. A deadline and the clock are
  nanoseconds. Of \<open>Serve\<close> the routes and the end are modelled, what the HTTP library does between is not.

  Shown: after start-up exactly the documented label combinations exist, all at zero and with as many labels as
  declared; no name is registered twice; the remaining lease is never reported negative, and is reported
  exactly for the families with a deadline; each path of the listener keeps its handler.
\<close>

type_synonym series = "string \<times> string list"

record mreg =
  counters :: "series \<rightharpoonup> nat"
  gauges :: "series \<rightharpoonup> int"
  deadlines :: "string \<rightharpoonup> int"

definition mreg_empty :: mreg where
  "mreg_empty = \<lparr>counters = Map.empty, gauges = Map.empty, deadlines = Map.empty\<rparr>"

text \<open>\<open>WithLabelValues\<close> creates the series it is asked for.\<close>

definition touch :: "string \<Rightarrow> string list \<Rightarrow> mreg \<Rightarrow> mreg" where
  "touch v ls m =
     (case counters m (v, ls) of Some n \<Rightarrow> m | None \<Rightarrow> m\<lparr>counters := (counters m)((v, ls) \<mapsto> 0)\<rparr>)"

definition inc :: "string \<Rightarrow> string list \<Rightarrow> mreg \<Rightarrow> mreg" where
  "inc v ls m =
     m\<lparr>counters := (counters m)((v, ls) \<mapsto> Suc (case counters m (v, ls) of None \<Rightarrow> 0 | Some n \<Rightarrow> n))\<rparr>"

definition gauge_set :: "string \<Rightarrow> string list \<Rightarrow> int \<Rightarrow> mreg \<Rightarrow> mreg" where
  "gauge_set v ls x m = m\<lparr>gauges := (gauges m)((v, ls) \<mapsto> x)\<rparr>"

subsection \<open>The collector of the remaining lease\<close>

definition lease_Set :: "string \<Rightarrow> int \<Rightarrow> mreg \<Rightarrow> mreg" where
  "lease_Set family deadline m = m\<lparr>deadlines := (deadlines m)(family \<mapsto> deadline)\<rparr>"

definition lease_Clear :: "string \<Rightarrow> mreg \<Rightarrow> mreg" where
  "lease_Clear family m = m\<lparr>deadlines := (deadlines m)(family := None)\<rparr>"

text \<open>What a scrape at time \<open>now\<close> reads, in nanoseconds.\<close>

definition lease_Collect :: "int \<Rightarrow> mreg \<Rightarrow> (string \<rightharpoonup> int)" where
  "lease_Collect now m =
     (\<lambda>family. case deadlines m family of None \<Rightarrow> None
        | Some deadline \<Rightarrow> Some (let d = deadline - now in if d < 0 then 0 else d))"

subsection \<open>Start-up\<close>

definition warmup_family :: "int \<Rightarrow> string \<Rightarrow> mreg \<Rightarrow> mreg" where
  "warmup_family now f m =
     (let m = touch ''anchord_dhcp_client_restarts_total'' [f] m;
          m = touch ''anchord_conntrack_flushes_total'' [f] m;
          m = touch ''anchord_gateway_route_replaces_total'' [f] m;
          m = gauge_set ''anchord_default_route_present'' [f] 0 m;
          m = lease_Set f now m;
          m = foldl (\<lambda>m o'. touch ''anchord_gateway_resolve_total'' [f, o']
                              (touch ''anchord_dhcp_acquired_total'' [f, o'] m)) m [''ok'', ''error'']
      in foldl (\<lambda>m p. gauge_set ''anchord_dnat_entries'' [f, p] 0 m) m [''tcp'', ''udp''])"

definition warmup :: "int \<Rightarrow> mreg \<Rightarrow> mreg" where
  "warmup now m =
     (let m = foldl (\<lambda>m r. touch ''anchord_reconcile_total'' [r] m) m [''ok'', ''error''];
          m = foldl (\<lambda>m f. warmup_family now f m) m [''v4'', ''v6'']
      in foldl (\<lambda>m s. touch ''anchord_docker_events_total'' [s] m) m [''event'', ''poll''])"

text \<open>\<open>debug.ReadBuildInfo\<close> gives the version of the main module and the settings, or nothing.\<close>

definition readBuildInfo :: "(string \<times> (string \<times> string) list) option \<Rightarrow> string \<times> string" where
  "readBuildInfo info =
     (case info of None \<Rightarrow> (''unknown'', ''unknown'')
      | Some (ver, settings) \<Rightarrow>
          (if ver \<noteq> [] \<and> ver \<noteq> ''(devel)'' then ver else ''unknown'',
           foldl (\<lambda>commit s. if fst s = ''vcs.revision'' \<and> snd s \<noteq> []
                             then (if 12 < length (snd s) then take 12 (snd s) else snd s) else commit)
             ''unknown'' settings))"

definition metrics_init :: "int \<Rightarrow> (string \<times> (string \<times> string) list) option \<Rightarrow> mreg" where
  "metrics_init now info =
     warmup now (case readBuildInfo info of (v, c) \<Rightarrow> gauge_set ''anchord_build_info'' [v, c] 1 mreg_empty)"

subsection \<open>Lemmas\<close>

named_theorems metric_simps \<open>the effect of one metric operation on each part of the registry\<close>

lemma touch_parts [metric_simps]:
  "counters (touch v ls m) s = (if s = (v, ls) \<and> counters m s = None then Some 0 else counters m s)"
  "gauges (touch v ls m) = gauges m"
  "deadlines (touch v ls m) = deadlines m"
  by (auto simp: touch_def split: option.splits)

lemma gauge_set_parts [metric_simps]:
  "counters (gauge_set v ls x m) = counters m"
  "gauges (gauge_set v ls x m) = (gauges m)((v, ls) \<mapsto> x)"
  "deadlines (gauge_set v ls x m) = deadlines m"
  by (simp_all add: gauge_set_def)

lemma inc_parts [metric_simps]:
  "gauges (inc v ls m) = gauges m"
  "deadlines (inc v ls m) = deadlines m"
  by (simp_all add: inc_def)

lemma lease_parts [metric_simps]:
  "counters (lease_Set f d m) = counters m"
  "gauges (lease_Set f d m) = gauges m"
  "deadlines (lease_Set f d m) = (deadlines m)(f \<mapsto> d)"
  "counters (lease_Clear f m) = counters m"
  "gauges (lease_Clear f m) = gauges m"
  "deadlines (lease_Clear f m) = (deadlines m)(f := None)"
  by (simp_all add: lease_Set_def lease_Clear_def)

lemma lease_Collect_bounds: "lease_Collect now m f = Some d \<Longrightarrow> 0 \<le> d"
  by (auto simp: lease_Collect_def Let_def split: option.splits if_splits)

lemma lease_Collect_dom: "dom (lease_Collect now m) = dom (deadlines m)"
  by (auto simp: lease_Collect_def split: option.splits)

lemma lease_Collect_Set:
  "lease_Collect now (lease_Set f d m) = (lease_Collect now m)(f \<mapsto> max 0 (d - now))"
  by (rule ext) (simp add: lease_Collect_def metric_simps max_def)

lemma lease_Collect_Clear: "lease_Collect now (lease_Clear f m) = (lease_Collect now m)(f := None)"
  by (rule ext) (simp add: lease_Collect_def metric_simps)

text \<open>The documented label combinations.\<close>

definition documented_counters :: "series list" where
  "documented_counters =
     map (\<lambda>r. (''anchord_reconcile_total'', [r])) [''ok'', ''error'']
     @ [(v, [f]). v \<leftarrow> [''anchord_dhcp_client_restarts_total'', ''anchord_conntrack_flushes_total'',
                       ''anchord_gateway_route_replaces_total''], f \<leftarrow> [''v4'', ''v6'']]
     @ [(v, [f, o']). v \<leftarrow> [''anchord_dhcp_acquired_total'', ''anchord_gateway_resolve_total''],
                     f \<leftarrow> [''v4'', ''v6''], o' \<leftarrow> [''ok'', ''error'']]
     @ map (\<lambda>s. (''anchord_docker_events_total'', [s])) [''event'', ''poll'']"

definition zeroed :: "mreg \<Rightarrow> series set \<Rightarrow> bool" where
  "zeroed m S \<longleftrightarrow> (\<forall>s. counters m s = (if s \<in> S then Some 0 else None))"

lemma zeroed_intros:
  "zeroed m S \<Longrightarrow> zeroed (touch v ls m) (insert (v, ls) S)"
  "zeroed m S \<Longrightarrow> zeroed (gauge_set v ls x m) S"
  "zeroed m S \<Longrightarrow> zeroed (lease_Set f d m) S"
  by (simp_all add: zeroed_def metric_simps)

lemma zeroed_cong: "zeroed m S \<Longrightarrow> S = T \<Longrightarrow> zeroed m T"
  by simp

lemma zeroed_empty: "zeroed mreg_empty {}"
  by (simp add: zeroed_def mreg_empty_def)

lemma warmup_counters: "zeroed (metrics_init now info) (set documented_counters)"
proof (cases "readBuildInfo info")
  case (Pair v c)
  show ?thesis
    unfolding metrics_init_def Pair prod.case warmup_def warmup_family_def Let_def foldl.simps
    by (rule zeroed_cong, (rule zeroed_intros zeroed_empty)+) (auto simp: documented_counters_def)
qed

lemma warmup_deadlines:
  "lease_Collect now (metrics_init now info) = [''v4'' \<mapsto> 0, ''v6'' \<mapsto> 0]"
  by (rule ext, cases "readBuildInfo info")
    (simp add: metrics_init_def warmup_def warmup_family_def Let_def metric_simps mreg_empty_def
      lease_Collect_def)

subsection \<open>The declarations and the listener\<close>

datatype metric_kind = Histogram | Counter | Gauge | Collector

text \<open>The package variables, in the order in which \<open>init\<close> registers them: name, kind and label names.\<close>

definition metric_families :: "(string \<times> metric_kind \<times> string list) list" where
  "metric_families =
     [(''anchord_reconcile_duration_seconds'', Histogram, []),
      (''anchord_reconcile_total'', Counter, [''result'']),
      (''anchord_dhcp_lease_remaining_seconds'', Collector, [''family'']),
      (''anchord_dhcp_acquired_total'', Counter, [''family'', ''outcome'']),
      (''anchord_dhcp_client_restarts_total'', Counter, [''family'']),
      (''anchord_dnat_entries'', Gauge, [''family'', ''proto'']),
      (''anchord_conntrack_flushes_total'', Counter, [''family'']),
      (''anchord_docker_events_total'', Counter, [''source'']),
      (''anchord_gateway_resolve_total'', Counter, [''family'', ''outcome'']),
      (''anchord_gateway_route_replaces_total'', Counter, [''family'']),
      (''anchord_default_route_present'', Gauge, [''family'']),
      (''anchord_build_info'', Gauge, [''version'', ''commit''])]"

text \<open>\<open>MustRegister\<close> panics (\<open>None\<close>) on a name that is registered already.\<close>

fun MustRegister :: "(string \<times> metric_kind \<times> string list) list \<Rightarrow> string list \<Rightarrow> string list option" where
  "MustRegister [] names = Some names"
| "MustRegister ((v, _) # fs) names = (if v \<in> set names then None else MustRegister fs (names @ [v]))"

text \<open>\<open>WithLabelValues\<close> panics unless there is a value for each label; the vectors are of the kind that is asked for.\<close>

definition declared :: "metric_kind \<Rightarrow> series \<Rightarrow> bool" where
  "declared kind s \<longleftrightarrow> (\<exists>labels. (fst s, kind, labels) \<in> set metric_families \<and> length (snd s) = length labels)"

text \<open>\<open>mux.Handle\<close> panics on an empty or a known pattern.\<close>

definition mux_Handle :: "string \<Rightarrow> 'h \<Rightarrow> (string \<times> 'h) list \<Rightarrow> (string \<times> 'h) list option" where
  "mux_Handle path h mux = (if path = [] \<or> path \<in> fst ` set mux then None else Some (mux @ [(path, h)]))"

fun mux_extra :: "(string \<times> 'h) list \<Rightarrow> (string \<times> 'h) list \<Rightarrow> (string \<times> 'h) list option" where
  "mux_extra [] mux = Some mux"
| "mux_extra ((path, h) # rest) mux =
     (case mux_Handle path h mux of None \<Rightarrow> None | Some mux' \<Rightarrow> mux_extra rest mux')"

definition Serve_mux :: "'h \<Rightarrow> (string \<times> 'h) list \<Rightarrow> (string \<times> 'h) list option" where
  "Serve_mux metricsHandler extraHandlers =
     (case mux_Handle ''/metrics'' metricsHandler [] of None \<Rightarrow> None | Some mux \<Rightarrow> mux_extra extraHandlers mux)"

text \<open>
  The first of the two events that the \<open>select\<close> of \<open>Serve\<close> sees: the context has ended, or
  \<open>ListenAndServe\<close> has returned, with an error that is \<open>ErrServerClosed\<close> or another one. After the former the server is
  shut down and the listener awaited, whatever it returns.
\<close>

datatype serve_event = ServeCtxDone | ListenReturned "(bool \<times> string) option"

definition Serve :: "serve_event \<Rightarrow> string option" where
  "Serve ev =
     (case ev of ServeCtxDone \<Rightarrow> None
      | ListenReturned None \<Rightarrow> None
      | ListenReturned (Some (is_closed, e)) \<Rightarrow> if \<not> is_closed then Some e else None)"

lemma init_registers: "MustRegister metric_families [] = Some (map fst metric_families)"
  by (simp add: metric_families_def)

lemma metric_names_distinct: "distinct (map fst metric_families)"
  by (simp add: metric_families_def)

text \<open>The routes of all modes: nothing is registered twice, and each path keeps its own handler.\<close>

lemma mux_extra_ok:
  "distinct (map fst (mux @ extra)) \<Longrightarrow> [] \<notin> fst ` set extra \<Longrightarrow> mux_extra extra mux = Some (mux @ extra)"
  by (induction extra arbitrary: mux rule: list.induct)
    (auto simp: mux_Handle_def split: prod.split)

lemma Serve_routes:
  assumes "distinct (map fst extra)" "[] \<notin> fst ` set extra" "''/metrics'' \<notin> fst ` set extra"
  shows "Serve_mux h extra = Some ((''/metrics'', h) # extra)"
  using assms mux_extra_ok [of "[(''/metrics'', h)]" extra] by (simp add: Serve_mux_def mux_Handle_def)

text \<open>What start-up touches exists with as many labels as it is given values, so it cannot panic; and what a
  declared counter vector shows before anything has happened is exactly the documented combinations.\<close>

lemma documented_declared: "\<forall>s \<in> set documented_counters. declared Counter s"
  by (simp add: documented_counters_def declared_def metric_families_def)

lemma gauges_declared_intros:
  "dom (gauges m) \<subseteq> Collect (declared Gauge) \<Longrightarrow> dom (gauges (touch v ls m)) \<subseteq> Collect (declared Gauge)"
  "dom (gauges m) \<subseteq> Collect (declared Gauge) \<Longrightarrow> declared Gauge (v, ls)
    \<Longrightarrow> dom (gauges (gauge_set v ls x m)) \<subseteq> Collect (declared Gauge)"
  "dom (gauges m) \<subseteq> Collect (declared Gauge) \<Longrightarrow> dom (gauges (lease_Set f d m)) \<subseteq> Collect (declared Gauge)"
  "dom (gauges mreg_empty) \<subseteq> Collect (declared Gauge)"
  by (auto simp: metric_simps mreg_empty_def)

lemma startup_declared: "dom (gauges (metrics_init now info)) \<subseteq> Collect (declared Gauge)"
proof (cases "readBuildInfo info")
  case (Pair v c)
  show ?thesis
    unfolding metrics_init_def Pair prod.case warmup_def warmup_family_def Let_def foldl.simps
    by (rule gauges_declared_intros | simp add: declared_def metric_families_def)+
qed

end
