(* ===== verification/Dhcp.thy ===== *)
theory Dhcp
  imports Config Metrics GoNet
begin

section \<open>Package dhcp: the addresses of the external interface\<close>

text \<open>
  \<open>src/internal/dhcp/dhcp.go\<close>. The DHCP clients are libraries: what they return (a lease, a
  message, an error) is an argument. The loops are functions of the sequence of what their
  \<open>select\<close> receives; a drift is anything else that happens to the world between two of these:
  another state of the link, other refusals of the kernel, a later clock, a channel drained.

  Shown: a lease that is applied is the only address of the link; every exit after an acquisition
  releases the freshest lease and removes its address, but a lease that cannot be applied is never
  released; the pauses between two attempts; the watcher emits exactly the changes; a DHCPv6 lease
  is never renewed.
\<close>

subsection \<open>The link\<close>

text \<open>The kernel keeps an address and a prefix length; netlink reads the mask's leading ones, or 0 for
  a mask that is not canonical.\<close>

definition mask_bits :: "byte list \<Rightarrow> bool list" where
  "mask_bits m = concat (map (\<lambda>b. map (bit b) [7, 6, 5, 4, 3, 2, 1, 0]) m)"

definition mask_ones :: "byte list \<Rightarrow> nat" where
  "mask_ones m =
     (let bs = mask_bits m; n = length (takeWhile id bs) in
      if True \<in> set (drop n bs) then 0 else n)"

definition cidr_mask :: "nat \<Rightarrow> byte list" where
  "cidr_mask n = map (\<lambda>i. push_bit (8 - min 8 (n - 8 * i)) 255) [0..<4]"

type_synonym v4_addr = "net_ip \<times> nat"

record v4_link =
  il_exists :: bool
  il_list_fails :: bool
  il_addrs :: "v4_addr list"
  il_add_fails :: "v4_addr \<Rightarrow> bool"
  il_del_fails :: "v4_addr \<Rightarrow> bool"

definition AddrDel :: "v4_addr \<Rightarrow> v4_link \<Rightarrow> bool \<times> v4_link" where
  "AddrDel a l =
     (if il_del_fails l a \<or> a \<notin> set (il_addrs l) then (False, l)
      else (True, l\<lparr>il_addrs := remove1 a (il_addrs l)\<rparr>))"

definition AddrAdd :: "v4_addr \<Rightarrow> v4_link \<Rightarrow> bool \<times> v4_link" where
  "AddrAdd a l =
     (if il_add_fails l a \<or> a \<in> set (il_addrs l) then (False, l)
      else (True, l\<lparr>il_addrs := il_addrs l @ [a]\<rparr>))"

text \<open>The /128 addresses of the link; \<open>AddrReplace\<close> adds one that is not there.\<close>

record v6_link =
  l6_exists :: bool
  l6_addrs :: "net_ip list"
  l6_add_fails :: "net_ip \<Rightarrow> bool"
  l6_del_fails :: "net_ip \<Rightarrow> bool"

definition AddrReplace6 :: "net_ip \<Rightarrow> v6_link \<Rightarrow> bool \<times> v6_link" where
  "AddrReplace6 ip l =
     (if l6_add_fails l ip then (False, l)
      else (True, if ip \<in> set (l6_addrs l) then l else l\<lparr>l6_addrs := l6_addrs l @ [ip]\<rparr>))"

definition AddrDel6 :: "net_ip \<Rightarrow> v6_link \<Rightarrow> bool \<times> v6_link" where
  "AddrDel6 ip l =
     (if l6_del_fails l ip \<or> ip \<notin> set (l6_addrs l) then (False, l)
      else (True, l\<lparr>l6_addrs := remove1 ip (l6_addrs l)\<rparr>))"

subsection \<open>The supervisor\<close>

record supervisor =
  s_mode :: AddressMode
  s_ifaceName :: string
  s_hostname :: string
  s_backoffMax :: duration

definition dhcp_New :: "AddressMode \<Rightarrow> string \<Rightarrow> string \<Rightarrow> duration \<Rightarrow> supervisor" where
  "dhcp_New mode iface hostname backoffMax =
     \<lparr>s_mode = mode, s_ifaceName = iface, s_hostname = hostname, s_backoffMax = backoffMax\<rparr>"

text \<open>Of the reply to a DHCPv4 request, what the program reads; the two times are in seconds.\<close>

record ack =
  ack_yiaddr :: net_ip
  ack_mask :: "byte list option"
  ack_routers :: "net_ip list"
  ack_T1 :: "32 word option"
  ack_lease :: "32 word option"

text \<open>The buffer of the channel of routers, the leases released, the clock and the metrics.\<close>

record dh_world =
  w_link :: v4_link
  w_routers :: "net_ip list"
  w_released :: "ack list"
  w_now :: int
  w_metrics :: mreg

datatype drift = Drift v4_link "net_ip list" int

fun apply_drift :: "drift \<Rightarrow> dh_world \<Rightarrow> dh_world" where
  "apply_drift (Drift l rs t) w = w\<lparr>w_link := l, w_routers := rs, w_now := t\<rparr>"

text \<open>The families whose client loop \<open>Run\<close> starts; in the passive modes it only waits.\<close>

definition runDHCPRefresh :: "nat list" where
  "runDHCPRefresh = [4, 6]"

definition dhcp_Run :: "supervisor \<Rightarrow> nat list" where
  "dhcp_Run s =
     (case s_mode s of AddressModeDHCPRefresh \<Rightarrow> runDHCPRefresh
      | AddressModeBootstrap \<Rightarrow> [] | AddressModeSLAACRAOnly \<Rightarrow> [])"

definition sleepBackoff :: "duration \<Rightarrow> bool \<Rightarrow> duration \<Rightarrow> duration option" where
  "sleepBackoff backoffMax done backoff =
     (if done then None
      else let b = backoff * 2 in Some (if sint backoffMax < sint b then backoffMax else b))"

definition familyLabel :: "nat \<Rightarrow> string" where
  "familyLabel family = (if family = 6 then ''v6'' else ''v4'')"

definition clientID :: "string \<Rightarrow> byte list" where
  "clientID hostname = 0 # map of_char hostname"

subsection \<open>IPv4: one lease\<close>

definition leaseTime :: "ack \<Rightarrow> int" where
  "leaseTime a = (case ack_lease a of None \<Rightarrow> 3600 | Some secs \<Rightarrow> uint secs) * 1000000000"

definition renewalInterval :: "ack \<Rightarrow> int" where
  "renewalInterval a =
     (let t1 = (case ack_T1 a of None \<Rightarrow> 0 | Some secs \<Rightarrow> uint secs) * 1000000000 in
      if t1 > 0 then t1
      else let lease = leaseTime a in
        if lease > 0 then lease div 2 else 30 * 60 * 1000000000)"

datatype apply_error = LinkLookup | AddrListFailed | AddrAddFailed

definition lease_mask :: "ack \<Rightarrow> byte list" where
  "lease_mask a = (case ack_mask a of None \<Rightarrow> cidr_mask 32 | Some m \<Rightarrow> m)"

text \<open>The address of a lease, as the kernel keeps it.\<close>

definition lease_addr :: "ack \<Rightarrow> v4_addr" where
  "lease_addr a = (to4 (ack_yiaddr a), mask_ones (lease_mask a))"

text \<open>The loop over the addresses: whether the wanted one is there, and the link without the others.\<close>

fun drop_others :: "net_ip \<Rightarrow> byte list \<Rightarrow> v4_addr list \<Rightarrow> v4_link \<Rightarrow> bool \<times> v4_link" where
  "drop_others ip msk [] l = (False, l)"
| "drop_others ip msk (a # as) l =
     (if ip_equal (fst a) ip \<and> cidr_mask (snd a) = msk
      then (True, snd (drop_others ip msk as l))
      else drop_others ip msk as (snd (AddrDel a l)))"

definition push_router :: "ack \<Rightarrow> net_ip list \<Rightarrow> net_ip list" where
  "push_router a ch =
     (case ack_routers a of [] \<Rightarrow> ch
      | r # _ \<Rightarrow> if length ch < 4 then ch @ [r] else ch)"

definition applyV4Lease :: "ack \<Rightarrow> dh_world \<Rightarrow> apply_error option \<times> dh_world" where
  "applyV4Lease a w =
     (let l = w_link w in
      if \<not> il_exists l then (Some LinkLookup, w)
      else if il_list_fails l then (Some AddrListFailed, w)
      else (case drop_others (ack_yiaddr a) (lease_mask a) (il_addrs l) l of (already, l1) \<Rightarrow>
        (case (if already then (True, l1) else AddrAdd (lease_addr a) l1) of (ok, l2) \<Rightarrow>
          if \<not> ok then (Some AddrAddFailed, w\<lparr>w_link := l2\<rparr>)
          else (None, w\<lparr>w_link := l2, w_routers := push_router a (w_routers w)\<rparr>))))"

definition unapplyV4Lease :: "ack \<Rightarrow> dh_world \<Rightarrow> dh_world" where
  "unapplyV4Lease a w =
     (if \<not> il_exists (w_link w) then w
      else w\<lparr>w_link := snd (AddrDel (lease_addr a) (w_link w))\<rparr>)"

definition releaseV4 :: "ack \<Rightarrow> dh_world \<Rightarrow> dh_world" where
  "releaseV4 a w = w\<lparr>w_released := w_released w @ [a]\<rparr>"

datatype dhcp_error =
    NclientNew | DORA | ApplyV4Lease apply_error
  | CtxDone | RenewFailed | ApplyRenewed apply_error
  | Solicit | Request | NoIANA | ApplyV6

text \<open>What the renewal loop waits for: the context, or its timer, after which the client asks for the
  lease again.\<close>

datatype v4_event = V4Done | V4Renew "ack option" | V4Drift drift

definition lease_ok :: "ack \<Rightarrow> dh_world \<Rightarrow> dh_world" where
  "lease_ok a w =
     w\<lparr>w_metrics := lease_Set ''v4'' (w_now w + leaseTime a)
         (inc ''anchord_dhcp_acquired_total'' [''v4'', ''ok''] (w_metrics w))\<rparr>"

fun renew_loop :: "ack \<Rightarrow> v4_event list \<Rightarrow> dh_world \<Rightarrow> dhcp_error option \<times> ack \<times> dh_world" where
  "renew_loop lease [] w = (None, lease, w)"
| "renew_loop lease (V4Drift d # evs) w = renew_loop lease evs (apply_drift d w)"
| "renew_loop lease (V4Done # evs) w = (Some CtxDone, lease, w)"
| "renew_loop lease (V4Renew r # evs) w =
     (let w0 = w\<lparr>w_now := w_now w + renewalInterval lease\<rparr> in
      case r of None \<Rightarrow> (Some RenewFailed, lease, w0)
      | Some newLease \<Rightarrow>
          (case applyV4Lease newLease w0 of
             (Some e, w1) \<Rightarrow> (Some (ApplyRenewed e), lease, w1)
           | (None, w1) \<Rightarrow> renew_loop newLease evs (lease_ok newLease w1)))"

definition runV4Once :: "bool \<Rightarrow> ack option \<Rightarrow> v4_event list \<Rightarrow> dh_world \<Rightarrow> dhcp_error option \<times> dh_world" where
  "runV4Once new_ok request evs w =
     (if \<not> new_ok then (Some NclientNew, w)
      else case request of None \<Rightarrow> (Some DORA, w)
      | Some lease \<Rightarrow>
          (case applyV4Lease lease w of
             (Some e, w1) \<Rightarrow> (Some (ApplyV4Lease e), w1)
           | (None, w1) \<Rightarrow>
               (case renew_loop lease evs (lease_ok lease w1) of
                  (None, _, w2) \<Rightarrow> (None, w2)
                | (Some e, freshest, w2) \<Rightarrow> (Some e, unapplyV4Lease freshest (releaseV4 freshest w2)))))"

subsection \<open>IPv6\<close>

text \<open>A reply: its IA_NA options, each with its addresses and their valid lifetimes in seconds.\<close>

type_synonym v6_msg = "(net_ip \<times> 32 word) list list"

definition best_lifetime :: "int \<Rightarrow> int \<Rightarrow> int" where
  "best_lifetime best lt = (if lt \<le> 0 then best else if best = 0 \<or> lt < best then lt else best)"

definition v6LeaseLifetime :: "v6_msg \<Rightarrow> int" where
  "v6LeaseLifetime msg =
     (let best = foldl (\<lambda>b iana. foldl (\<lambda>b ia. best_lifetime b (uint (snd ia) * 1000000000)) b iana) 0 msg in
      if best = 0 then 3600 * 1000000000 else best)"

definition extractV6Addrs :: "v6_msg \<Rightarrow> net_ip list" where
  "extractV6Addrs msg = foldl (\<lambda>out iana. foldl (\<lambda>out ia. if fst ia \<noteq> [] then out @ [fst ia] else out) out iana) [] msg"

fun applyV6_loop :: "net_ip list \<Rightarrow> v6_link \<Rightarrow> bool \<times> v6_link" where
  "applyV6_loop [] l = (True, l)"
| "applyV6_loop (ip # ips) l =
     (case AddrReplace6 ip l of (False, l1) \<Rightarrow> (False, l1) | (True, l1) \<Rightarrow> applyV6_loop ips l1)"

definition applyV6Addrs :: "net_ip list \<Rightarrow> v6_link \<Rightarrow> bool \<times> v6_link" where
  "applyV6Addrs addrs l = (if \<not> l6_exists l then (False, l) else applyV6_loop addrs l)"

definition unapplyV6Addrs :: "net_ip list \<Rightarrow> v6_link \<Rightarrow> v6_link" where
  "unapplyV6Addrs addrs l =
     (if \<not> l6_exists l then l else foldl (\<lambda>l ip. snd (AddrDel6 ip l)) l addrs)"

text \<open>After the acquisition the loop waits for the context, an hour at a time; \<open>v6_sent\<close> are the
  messages the client has sent.\<close>

datatype v6_event = V6Done | V6Hour | V6Drift v6_link

datatype v6_message = SOLICIT | REQUEST

record v6_world =
  v6_link :: v6_link
  v6_sent :: "v6_message list"
  v6_now :: int
  v6_metrics :: mreg

fun v6_wait :: "v6_event list \<Rightarrow> v6_world \<Rightarrow> bool \<times> v6_world" where
  "v6_wait [] w = (False, w)"
| "v6_wait (V6Done # evs) w = (True, w)"
| "v6_wait (V6Hour # evs) w = v6_wait evs (w\<lparr>v6_now := v6_now w + 3600 * 1000000000\<rparr>)"
| "v6_wait (V6Drift l # evs) w = v6_wait evs (w\<lparr>v6_link := l\<rparr>)"

definition runV6Once :: "bool \<Rightarrow> bool \<Rightarrow> v6_msg option \<Rightarrow> v6_event list \<Rightarrow> v6_world
    \<Rightarrow> dhcp_error option \<times> v6_world" where
  "runV6Once new_ok solicit_ok reply evs w =
     (if \<not> new_ok then (Some NclientNew, w)
      else let w1 = w\<lparr>v6_sent := v6_sent w @ [SOLICIT]\<rparr> in
      if \<not> solicit_ok then (Some Solicit, w1)
      else let w2 = w1\<lparr>v6_sent := v6_sent w1 @ [REQUEST]\<rparr> in
      case reply of None \<Rightarrow> (Some Request, w2)
      | Some msg \<Rightarrow>
          (let addrs = extractV6Addrs msg in
           if addrs = [] then (Some NoIANA, w2)
           else case applyV6Addrs addrs (v6_link w2) of
             (False, l) \<Rightarrow> (Some ApplyV6, w2\<lparr>v6_link := l\<rparr>)
           | (True, l) \<Rightarrow>
              (let w3 = w2\<lparr>v6_link := l, v6_metrics := lease_Set ''v6'' (v6_now w2 + v6LeaseLifetime msg)
                            (inc ''anchord_dhcp_acquired_total'' [''v6'', ''ok''] (v6_metrics w2))\<rparr> in
               case v6_wait evs w3 of
                 (False, w4) \<Rightarrow> (None, w4)
               | (True, w4) \<Rightarrow> (Some CtxDone, w4\<lparr>v6_link := unapplyV6Addrs addrs (v6_link w4)\<rparr>))))"

subsection \<open>The loop of a family\<close>

text \<open>Where the context is found to be done in a round, if anywhere.\<close>

datatype when_done = NotDone | AtTop | AfterOnce | InSleep

record 'i round =
  fr_drift :: drift
  fr_in :: 'i
  fr_done :: when_done

text \<open>The dispatch on the family. What the two clients find in one round is an input of the round: for IPv6 that
  includes the link, which is the round's own as \<open>fr_drift\<close> is for IPv4; clock and metrics are shared.\<close>

record once_in =
  oi_new :: bool
  oi_request :: "ack option"
  oi_v4 :: "v4_event list"
  oi_link6 :: v6_link
  oi_solicit :: bool
  oi_reply :: "v6_msg option"
  oi_v6 :: "v6_event list"

definition run_once :: "nat \<Rightarrow> once_in \<Rightarrow> dh_world \<Rightarrow> dhcp_error option \<times> dh_world" where
  "run_once family r w =
     (if family = 4 then runV4Once (oi_new r) (oi_request r) (oi_v4 r) w
      else (case runV6Once (oi_new r) (oi_solicit r) (oi_reply r) (oi_v6 r)
              \<lparr>v6_link = oi_link6 r, v6_sent = [], v6_now = w_now w, v6_metrics = w_metrics w\<rparr> of
            (err, w6) \<Rightarrow> (err, w\<lparr>w_now := v6_now w6, w_metrics := v6_metrics w6\<rparr>)))"

text \<open>One call of the client is \<open>once\<close>, which is \<open>run_once family\<close> in the code; the loop does not depend on which.
  The result is the pauses that were slept through, and whether the loop has returned.\<close>

fun family_loop :: "duration \<Rightarrow> string \<Rightarrow> ('i \<Rightarrow> dh_world \<Rightarrow> dhcp_error option \<times> dh_world) \<Rightarrow> 'i round list
    \<Rightarrow> duration \<Rightarrow> bool \<Rightarrow> dh_world \<Rightarrow> duration list \<times> bool \<times> dh_world" where
  "family_loop backoffMax fam once [] backoff first w = ([], False, w)"
| "family_loop backoffMax fam once (r # rs) backoff first w =
     (let w0 = apply_drift (fr_drift r) w in
      if fr_done r = AtTop then ([], True, w0)
      else let w1 = (if first then w0
                     else w0\<lparr>w_metrics := inc ''anchord_dhcp_client_restarts_total'' [fam] (w_metrics w0)\<rparr>) in
      case once (fr_in r) w1 of
        (None, w2) \<Rightarrow> ([], False, w2)
      | (Some err, w2) \<Rightarrow>
          if fr_done r = AfterOnce then ([], True, w2)
          else let w3 = w2\<lparr>w_metrics := inc ''anchord_dhcp_acquired_total'' [fam, ''error''] (w_metrics w2)\<rparr> in
          (case sleepBackoff backoffMax (fr_done r = InSleep) backoff of
             None \<Rightarrow> ([], True, w3)
           | Some backoff' \<Rightarrow>
               (case family_loop backoffMax fam once rs backoff' False w3 of
                  (ps, ret, w4) \<Rightarrow> (backoff # ps, ret, w4))))"

definition runFamily :: "supervisor \<Rightarrow> nat \<Rightarrow> ('i \<Rightarrow> dh_world \<Rightarrow> dhcp_error option \<times> dh_world) \<Rightarrow> 'i round list
    \<Rightarrow> dh_world \<Rightarrow> duration list \<times> bool \<times> dh_world" where
  "runFamily s family once rounds w =
     (case family_loop (s_backoffMax s) (familyLabel family) once rounds 1000000000 True w of
        (ps, ret, w') \<Rightarrow>
          (ps, ret, if ret then w'\<lparr>w_metrics := lease_Clear (familyLabel family) (w_metrics w')\<rparr> else w'))"

subsection \<open>The watcher\<close>

definition is_global_unicast :: "net_ip \<Rightarrow> bool" where
  "is_global_unicast ip \<longleftrightarrow>
     (length ip = 4 \<or> length ip = 16) \<and> \<not> ip_equal ip [255, 255, 255, 255]
     \<and> \<not> ip_equal ip [0, 0, 0, 0] \<and> \<not> ip_equal ip (replicate 16 0)
     \<and> (let q = to4 ip in
        if q \<noteq> [] then hd q \<noteq> 127 \<and> \<not> (224 \<le> hd q \<and> hd q < 240) \<and> \<not> (hd q = 169 \<and> q ! 1 = 254)
        else ip \<noteq> replicate 15 0 @ [1] \<and> hd ip \<noteq> 255 \<and> \<not> (hd ip = 254 \<and> drop_bit 6 (ip ! 1) = 2))"

fun first_global :: "v4_addr list \<Rightarrow> net_ip" where
  "first_global [] = []"
| "first_global (a # as) = (if is_global_unicast (fst a) then fst a else first_global as)"

definition currentV4 :: "v4_link \<Rightarrow> net_ip" where
  "currentV4 l = (if \<not> il_exists l then [] else if il_list_fails l then [] else first_global (il_addrs l))"

fun watch_loop :: "net_ip \<Rightarrow> net_ip list \<Rightarrow> net_ip list" where
  "watch_loop prev [] = []"
| "watch_loop prev (ip # ips) =
     (if ip = [] then watch_loop prev ips
      else if prev = [] \<or> \<not> ip_equal prev ip then ip # watch_loop ip ips
      else watch_loop prev ips)"

text \<open>What is emitted, given the state of the link at each tick.\<close>

definition watchIP :: "v4_link list \<Rightarrow> net_ip list" where
  "watchIP links = watch_loop [] (map currentV4 links)"

subsection \<open>Lemmas: the link\<close>

lemma mask_bits_cidr: "mask_bits (cidr_mask n) = map (\<lambda>p. p < n) [0..<32]"
proof -
  have *: "bit (push_bit (8 - min 8 (n - 8 * i)) 255 :: byte) j \<longleftrightarrow> 8 * i + (7 - j) < n" if "j < 8" for i j
  proof -
    have m: "(255 :: byte) = mask 8" by (simp add: mask_eq_exp_minus_1)
    show ?thesis using that by (auto simp: m bit_simps)
  qed
  have "mask_bits (cidr_mask n) = concat (map (\<lambda>i. map (\<lambda>j. 8 * i + (7 - j) < n) [7, 6, 5, 4, 3, 2, 1, 0]) [0..<4])"
    unfolding mask_bits_def cidr_mask_def map_map comp_def
    by (intro arg_cong [where f = concat] map_cong refl *) auto
  also have "\<dots> = map (\<lambda>p. p < n) [0..<32]"
  proof -
    have e: "[0..<4] = [0, 1, 2, 3 :: nat]" "[0..<32] = [0, 1, 2, 3, 4, 5, 6, 7, 8, 9, 10, 11, 12, 13, 14, 15,
        16, 17, 18, 19, 20, 21, 22, 23, 24, 25, 26, 27, 28, 29, 30, 31 :: nat]" by code_simp+
    show ?thesis unfolding e by (simp add: numeral_eq_Suc)
  qed
  finally show ?thesis .
qed

lemma takeWhile_below: "takeWhile id (map (\<lambda>p. p < n) [0..<m]) = replicate (min n m) True"
proof (induction m)
  case (Suc m)
  show ?case
  proof (cases "n < m")
    case True
    then have "takeWhile id (map (\<lambda>p. p < n) [0..<m] @ [m < n]) = takeWhile id (map (\<lambda>p. p < n) [0..<m])"
      by (intro takeWhile_append1 [of False]) auto
    with Suc True show ?thesis by (simp add: id_def)
  next
    case False
    then have "map (\<lambda>p. p < n) [0..<m] = replicate m True" by (simp add: list_eq_iff_nth_eq)
    moreover have "takeWhile id (replicate k True @ [b]) = replicate k True @ (if b then [b] else [])" for k b
      by (induction k) auto
    moreover have "True # replicate m True = replicate n True" if "m < n" "n \<le> Suc m"
    proof -
      from that have "n = Suc m" by linarith
      then show ?thesis by simp
    qed
    ultimately show ?thesis using False
      by (cases "m < n"; cases "n \<le> Suc m") (auto simp: min_def not_less replicate_append_same id_def)
  qed
qed simp

lemma mask_ones_cidr: "n \<le> 32 \<Longrightarrow> mask_ones (cidr_mask n) = n"
  by (auto simp: mask_ones_def mask_bits_cidr takeWhile_below drop_map)

text \<open>What the kernel lists: IPv4 addresses, none twice, with a prefix length.\<close>

definition link_ok :: "v4_link \<Rightarrow> bool" where
  "link_ok l \<longleftrightarrow> distinct (il_addrs l) \<and> (\<forall>a \<in> set (il_addrs l). length (fst a) = 4 \<and> snd a \<le> 32)"

lemma AddrDel_facts [simp]:
  "il_exists (snd (AddrDel a l)) = il_exists l"
  "il_list_fails (snd (AddrDel a l)) = il_list_fails l"
  "il_add_fails (snd (AddrDel a l)) = il_add_fails l"
  "il_del_fails (snd (AddrDel a l)) = il_del_fails l"
  by (simp_all add: AddrDel_def)

lemma AddrDel_addrs:
  "distinct (il_addrs l) \<Longrightarrow>
   il_addrs (snd (AddrDel a l)) = (if il_del_fails l a then il_addrs l else filter (\<lambda>x. x \<noteq> a) (il_addrs l))"
proof (cases "a \<in> set (il_addrs l)")
  case True
  then show "distinct (il_addrs l) \<Longrightarrow> ?thesis"
    by (auto simp: AddrDel_def distinct_remove1_removeAll removeAll_filter_not_eq intro!: filter_cong)
next
  case False
  then have "filter (\<lambda>x. x \<noteq> a) (il_addrs l) = il_addrs l" by (intro filter_True) auto
  with False show ?thesis by (simp add: AddrDel_def)
qed

lemma AddrDel_ok: "link_ok l \<Longrightarrow> link_ok (snd (AddrDel a l))"
  by (auto simp: link_ok_def AddrDel_addrs)

lemma drop_others_facts [simp]:
  "il_exists (snd (drop_others ip msk as l)) = il_exists l"
  "il_list_fails (snd (drop_others ip msk as l)) = il_list_fails l"
  "il_add_fails (snd (drop_others ip msk as l)) = il_add_fails l"
  "il_del_fails (snd (drop_others ip msk as l)) = il_del_fails l"
  by (induction ip msk as l rule: drop_others.induct) simp_all

lemma drop_others_ok: "link_ok l \<Longrightarrow> link_ok (snd (drop_others ip msk as l))"
  by (induction ip msk as l rule: drop_others.induct) (simp_all add: AddrDel_ok)

text \<open>The loop keeps the wanted address and what the kernel refuses to remove.\<close>

definition is_wanted :: "net_ip \<Rightarrow> byte list \<Rightarrow> v4_addr \<Rightarrow> bool" where
  "is_wanted ip msk a \<longleftrightarrow> ip_equal (fst a) ip \<and> cidr_mask (snd a) = msk"

lemma drop_others_addrs:
  "link_ok l \<Longrightarrow>
   il_addrs (snd (drop_others ip msk as l))
     = filter (\<lambda>a. a \<in> set as \<longrightarrow> is_wanted ip msk a \<or> il_del_fails l a) (il_addrs l)"
proof (induction ip msk as l rule: drop_others.induct)
  case (2 ip msk a as l)
  have d: "distinct (il_addrs l)" using 2(3) by (simp add: link_ok_def)
  have ok: "link_ok (snd (AddrDel a l))" by (rule AddrDel_ok [OF 2(3)])
  show ?case
  proof (cases "is_wanted ip msk a")
    case True
    then show ?thesis
      using 2(1) [OF _ 2(3)] by (auto simp: is_wanted_def intro!: filter_cong)
  next
    case False
    then show ?thesis
      using 2(2) [OF _ ok]
      by (auto simp: is_wanted_def AddrDel_addrs [OF d] intro!: filter_cong)
  qed
qed simp

lemma drop_others_already:
  "fst (drop_others ip msk as l) = (\<exists>a \<in> set as. is_wanted ip msk a)"
  by (induction ip msk as l rule: drop_others.induct) (auto simp: is_wanted_def)

text \<open>The wanted address is the lease's.\<close>

lemma is_wanted_lease:
  assumes "is_wanted (ack_yiaddr a) (lease_mask a) x" "length (fst x) = 4" "snd x \<le> 32"
  shows "x = lease_addr a"
proof -
  have "mask_ones (lease_mask a) = snd x"
    using assms(1,3) mask_ones_cidr [of "snd x"] by (simp add: is_wanted_def)
  moreover have "to4 (ack_yiaddr a) = fst x"
    using assms(1,2) by (auto simp: is_wanted_def ip_equal_def to4_def split: if_splits)
  ultimately show ?thesis by (cases x) (simp add: lease_addr_def)
qed

text \<open>The lease's address is valid when the reply has an IPv4 address.\<close>

lemma takeWhile_mask_length: "mask_ones m \<le> 8 * length m"
proof -
  have "length (mask_bits m) = 8 * length m"
    by (simp add: mask_bits_def length_concat comp_def) (induction m; simp)
  then show ?thesis
    using length_takeWhile_le [of id "mask_bits m"] by (simp add: mask_ones_def Let_def)
qed

definition ack_ok :: "ack \<Rightarrow> bool" where
  "ack_ok a \<longleftrightarrow> length (ack_yiaddr a) = 4 \<and> (case ack_mask a of None \<Rightarrow> True | Some m \<Rightarrow> length m = 4)"

lemma lease_addr_ok: "ack_ok a \<Longrightarrow> length (fst (lease_addr a)) = 4 \<and> snd (lease_addr a) \<le> 32"
  using takeWhile_mask_length [of "lease_mask a"]
  by (auto simp: ack_ok_def lease_addr_def to4_def lease_mask_def mask_ones_cidr split: option.splits)

subsection \<open>A lease that is applied\<close>

lemma applyV4Lease_cases:
  assumes "applyV4Lease a w = (None, w')" "link_ok (w_link w)"
  shows "lease_addr a \<in> set (il_addrs (w_link w'))"
    and "set (il_addrs (w_link w')) - {lease_addr a} = {x \<in> set (il_addrs (w_link w)) - {lease_addr a}. il_del_fails (w_link w) x}"
    and "w_routers w' = push_router a (w_routers w)"
    and "w_released w' = w_released w" "w_now w' = w_now w" "w_metrics w' = w_metrics w"
    and "il_exists (w_link w')" "il_del_fails (w_link w') = il_del_fails (w_link w)"
    and "ack_ok a \<Longrightarrow> link_ok (w_link w')"
proof -
  define l where "l = w_link w"
  define l1 where "l1 = snd (drop_others (ack_yiaddr a) (lease_mask a) (il_addrs l) l)"
  define already where "already = fst (drop_others (ack_yiaddr a) (lease_mask a) (il_addrs l) l)"
  define l2 where "l2 = (if already then l1 else snd (AddrAdd (lease_addr a) l1))"
  have lok: "link_ok l" using assms(2) by (simp add: l_def)
  have l1ok: "link_ok l1" using lok by (simp add: l1_def drop_others_ok)
  have l1a: "il_addrs l1 = filter (\<lambda>x. is_wanted (ack_yiaddr a) (lease_mask a) x \<or> il_del_fails l x) (il_addrs l)"
    using drop_others_addrs [OF lok] by (auto simp: l1_def intro!: filter_cong)
  have wanted: "x = lease_addr a" if "x \<in> set (il_addrs l)" "is_wanted (ack_yiaddr a) (lease_mask a) x" for x
    using that lok is_wanted_lease by (auto simp: link_ok_def)
  have alr: "already = (\<exists>x \<in> set (il_addrs l). is_wanted (ack_yiaddr a) (lease_mask a) x)"
    by (simp add: already_def drop_others_already)
  have ex: "il_exists l" and lf: "\<not> il_list_fails l"
    and w': "w' = w\<lparr>w_link := l2, w_routers := push_router a (w_routers w)\<rparr>"
    and added: "\<not> already \<Longrightarrow> fst (AddrAdd (lease_addr a) l1)"
    using assms(1)
    by (auto simp: applyV4Lease_def Let_def l_def l1_def already_def l2_def split: if_splits prod.splits)
  have addrs: "set (il_addrs l2) = insert (lease_addr a) (set (il_addrs l1))"
  proof (cases already)
    case True
    then obtain x where "x \<in> set (il_addrs l)" "is_wanted (ack_yiaddr a) (lease_mask a) x"
      using alr by blast
    then have "lease_addr a \<in> set (il_addrs l1)" using wanted [of x] by (auto simp: l1a)
    with True show ?thesis by (auto simp: l2_def)
  next
    case False
    then show ?thesis using added by (auto simp: l2_def AddrAdd_def split: if_splits)
  qed
  show "lease_addr a \<in> set (il_addrs (w_link w'))" using addrs by (simp add: w')
  show "set (il_addrs (w_link w')) - {lease_addr a} = {x \<in> set (il_addrs (w_link w)) - {lease_addr a}. il_del_fails (w_link w) x}"
    using addrs wanted by (auto simp: w' l1a l_def)
  show "w_routers w' = push_router a (w_routers w)" "w_released w' = w_released w" "w_now w' = w_now w"
    "w_metrics w' = w_metrics w" by (simp_all add: w')
  show "il_exists (w_link w')" "il_del_fails (w_link w') = il_del_fails (w_link w)"
    using ex by (simp_all add: w' l2_def AddrAdd_def l1_def l_def)
  show "link_ok (w_link w')" if "ack_ok a"
    using l1ok lease_addr_ok [OF that] by (auto simp: w' l2_def AddrAdd_def link_ok_def)
qed

lemma distinct_singleton: "distinct xs \<Longrightarrow> set xs = {x} \<Longrightarrow> xs = [x]"
  by (cases xs; cases "tl xs") auto

lemma applyV4Lease_keeps:
  "w_released (snd (applyV4Lease a w)) = w_released w"
  "w_now (snd (applyV4Lease a w)) = w_now w"
  "w_metrics (snd (applyV4Lease a w)) = w_metrics w"
  by (simp_all add: applyV4Lease_def Let_def split: prod.splits)

lemma applyV4Lease_link_ok:
  assumes "link_ok (w_link w)" "ack_ok a"
  shows "link_ok (w_link (snd (applyV4Lease a w)))"
proof -
  let ?r = "drop_others (ack_yiaddr a) (lease_mask a) (il_addrs (w_link w)) (w_link w)"
  have "link_ok (snd ?r)" using assms(1) by (rule drop_others_ok)
  then have "link_ok (snd (AddrAdd (lease_addr a) (snd ?r)))"
    using lease_addr_ok [OF assms(2)] by (auto simp: AddrAdd_def link_ok_def)
  then show ?thesis
    using \<open>link_ok (snd ?r)\<close> assms(1) by (auto simp: applyV4Lease_def Let_def split: prod.splits if_splits)
qed

text \<open>C24. A lease that is applied is, unless the kernel refuses to remove an address, the only IPv4
  address of the interface afterwards, with its mask (/32 when the reply has none), whatever was there
  before, the bootstrap address included, and the first router of the reply has been handed on if
  the channel had room.\<close>

theorem applyV4Lease_exact:
  assumes "applyV4Lease a w = (None, w')" "link_ok (w_link w)" "\<forall>x. \<not> il_del_fails (w_link w) x" "ack_ok a"
  shows "il_addrs (w_link w') = [(ack_yiaddr a, mask_ones (lease_mask a))]
    \<and> w_routers w' = push_router a (w_routers w)"
proof -
  note c = applyV4Lease_cases [OF assms(1,2)]
  have "set (il_addrs (w_link w')) = {lease_addr a}"
    using c(1,2) assms(3) by auto
  moreover have "distinct (il_addrs (w_link w'))" using c(9) [OF assms(4)] by (simp add: link_ok_def)
  ultimately have "il_addrs (w_link w') = [lease_addr a]"
    by (rule distinct_singleton [rotated])
  then show ?thesis using c(3) assms(4) by (simp add: lease_addr_def ack_ok_def to4_def)
qed

text \<open>C25. A lease whose address the kernel refuses is lost both ways: the other addresses have been
  removed before the new one was added, so the interface is left without any, the bootstrap address
  included, and the attempt ends with no release, so the server keeps the lease.\<close>

theorem refused_lease_is_kept:
  assumes "link_ok (w_link w)" "il_exists (w_link w)" "\<not> il_list_fails (w_link w)"
    and "\<forall>x. \<not> il_del_fails (w_link w) x" "il_add_fails (w_link w) (lease_addr a)"
    and "lease_addr a \<notin> set (il_addrs (w_link w))"
  shows "\<exists>w'. runV4Once True (Some a) evs w = (Some (ApplyV4Lease AddrAddFailed), w')
    \<and> il_addrs (w_link w') = [] \<and> w_released w' = w_released w"
proof -
  let ?r = "drop_others (ack_yiaddr a) (lease_mask a) (il_addrs (w_link w)) (w_link w)"
  have not: "\<not> is_wanted (ack_yiaddr a) (lease_mask a) x" if "x \<in> set (il_addrs (w_link w))" for x
    using that assms(1,6) is_wanted_lease [of a x] by (auto simp: link_ok_def)
  then have "\<not> fst ?r" by (auto simp: drop_others_already)
  moreover have "il_addrs (snd ?r) = []"
    unfolding drop_others_addrs [OF assms(1)] filter_empty_conv using not assms(4) by blast
  moreover have "AddrAdd (lease_addr a) (snd ?r) = (False, snd ?r)" using assms(5) by (simp add: AddrAdd_def)
  ultimately have "applyV4Lease a w = (Some AddrAddFailed, w\<lparr>w_link := snd ?r\<rparr>)"
    using assms(2,3) by (cases ?r) (simp add: applyV4Lease_def)
  with \<open>il_addrs (snd ?r) = []\<close> show ?thesis by (simp add: runV4Once_def)
qed

subsection \<open>The life of a lease\<close>

text \<open>The leases of the renewals that were answered.\<close>

fun renewed :: "v4_event list \<Rightarrow> ack list" where
  "renewed (V4Renew (Some a) # evs) = a # renewed evs"
| "renewed (V4Drift d # evs) = renewed evs"
| "renewed evs = []"

fun v4_event_ok :: "v4_event \<Rightarrow> bool" where
  "v4_event_ok (V4Drift (Drift l rs t)) \<longleftrightarrow> link_ok l"
| "v4_event_ok (V4Renew (Some a)) \<longleftrightarrow> ack_ok a"
| "v4_event_ok _ \<longleftrightarrow> True"

lemma lease_ok_parts [simp]:
  "w_link (lease_ok a w) = w_link w" "w_released (lease_ok a w) = w_released w" "w_now (lease_ok a w) = w_now w"
  by (simp_all add: lease_ok_def)

text \<open>Events after which the loop goes on as long as every answer can be applied.\<close>

definition goes_on :: "v4_event list \<Rightarrow> bool" where
  "goes_on evs \<longleftrightarrow> V4Done \<notin> set evs \<and> V4Renew None \<notin> set evs"

text \<open>\<open>l\<close> is what is on the interface when the answer to a renewal is refused with \<open>x\<close>: the lease before that answer.\<close>

definition refused_after :: "ack \<Rightarrow> v4_event list \<Rightarrow> apply_error \<Rightarrow> ack \<Rightarrow> bool" where
  "refused_after lease evs x l \<longleftrightarrow> (\<exists>evs1 new evs2 v. evs = evs1 @ V4Renew (Some new) # evs2 \<and> goes_on evs1
     \<and> fst (applyV4Lease new v) = Some x \<and> l = last (lease # renewed evs1))"

lemma goes_on_Cons [simp]: "goes_on [] = True" "goes_on (e # evs) = (e \<noteq> V4Done \<and> e \<noteq> V4Renew None \<and> goes_on evs)"
  by (auto simp: goes_on_def)

lemma refused_after_drift: "refused_after lease evs x l \<Longrightarrow> refused_after lease (V4Drift d # evs) x l"
  unfolding refused_after_def
proof (elim exE conjE)
  fix evs1 new evs2 v
  assume "evs = evs1 @ V4Renew (Some new) # evs2" "goes_on evs1" "fst (applyV4Lease new v) = Some x" "l = last (lease # renewed evs1)"
  then show "\<exists>evs1 new evs2 v. V4Drift d # evs = evs1 @ V4Renew (Some new) # evs2 \<and> goes_on evs1
      \<and> fst (applyV4Lease new v) = Some x \<and> l = last (lease # renewed evs1)"
    by (intro exI [of _ "V4Drift d # evs1"] exI [of _ new] exI [of _ evs2] exI [of _ v]) simp
qed

lemma refused_after_renew: "refused_after a evs x l \<Longrightarrow> refused_after lease (V4Renew (Some a) # evs) x l"
  unfolding refused_after_def
proof (elim exE conjE)
  fix evs1 new evs2 v
  assume "evs = evs1 @ V4Renew (Some new) # evs2" "goes_on evs1" "fst (applyV4Lease new v) = Some x" "l = last (a # renewed evs1)"
  then show "\<exists>evs1 new evs2 v. V4Renew (Some a) # evs = evs1 @ V4Renew (Some new) # evs2 \<and> goes_on evs1
      \<and> fst (applyV4Lease new v) = Some x \<and> l = last (lease # renewed evs1)"
    by (intro exI [of _ "V4Renew (Some a) # evs1"] exI [of _ new] exI [of _ evs2] exI [of _ v]) simp
qed

lemma refused_after_now: "fst (applyV4Lease new v) = Some x \<Longrightarrow> refused_after lease (V4Renew (Some new) # evs) x lease"
  unfolding refused_after_def by (intro exI [of _ "[]"] exI [of _ new] exI [of _ evs] exI [of _ v]) simp

text \<open>The lease the loop ends with.\<close>

definition last_on_iface :: "ack \<Rightarrow> v4_event list \<Rightarrow> dhcp_error option \<Rightarrow> ack \<Rightarrow> bool" where
  "last_on_iface lease evs r l \<longleftrightarrow>
     (case r of Some (ApplyRenewed x) \<Rightarrow> refused_after lease evs x l | _ \<Rightarrow> l = last (lease # renewed evs))"

lemma renew_loop_facts:
  assumes "renew_loop lease evs w = (r, l, w')" "link_ok (w_link w)" "list_all v4_event_ok evs"
  shows "w_released w' = w_released w" "link_ok (w_link w')" "last_on_iface lease evs r l"
proof -
  have "w_released w' = w_released w \<and> link_ok (w_link w') \<and> last_on_iface lease evs r l"
    using assms
  proof (induction lease evs w rule: renew_loop.induct)
    case (2 lease d evs w)
    then have "w_released w' = w_released w \<and> link_ok (w_link w') \<and> last_on_iface lease evs r l" by (cases d) auto
    then show ?case by (auto simp: last_on_iface_def refused_after_drift split: option.splits dhcp_error.splits)
  next
    case (4 lease q evs w)
    let ?w0 = "w\<lparr>w_now := w_now w + renewalInterval lease\<rparr>"
    show ?case
    proof (cases q)
      case None
      then show ?thesis using 4(2,3) by (auto simp: Let_def last_on_iface_def)
    next
      case (Some a)
      obtain e w1 where ap: "applyV4Lease a ?w0 = (e, w1)" by (cases "applyV4Lease a ?w0")
      have w1: "w_released w1 = w_released w" "link_ok (w_link w1)"
        using applyV4Lease_keeps [of a ?w0] applyV4Lease_link_ok [of ?w0 a] ap 4(3,4) Some by auto
      show ?thesis
      proof (cases e)
        case None
        have "renew_loop a evs (lease_ok a w1) = (r, l, w')"
          using 4(2) ap None Some by (simp add: Let_def)
        from 4(1) [OF refl Some ap [symmetric] None this] w1 4(4) Some
        show ?thesis by (auto simp: last_on_iface_def refused_after_renew split: option.splits dhcp_error.splits)
      next
        case (Some x)
        have "refused_after lease (V4Renew (Some a) # evs) x lease" by (rule refused_after_now [of a ?w0]) (simp add: ap Some)
        then show ?thesis using 4(2) ap \<open>q = Some a\<close> w1 Some by (auto simp: Let_def last_on_iface_def)
      qed
    qed
  qed (auto simp: last_on_iface_def)
  then show "w_released w' = w_released w" "link_ok (w_link w')" "last_on_iface lease evs r l" by blast+
qed


text \<open>The metric is not told of a release: until the next lease it counts down to the deadline of the
  one that is gone.\<close>

lemma release_keeps_deadline:
  "deadlines (w_metrics (unapplyV4Lease l (releaseV4 l w))) = deadlines (w_metrics w)"
  by (simp add: unapplyV4Lease_def releaseV4_def)

text \<open>The wait before a renewal is at least half a second and fits the 64 bits of a duration,
  whatever the server has put in the reply.\<close>

theorem renewalInterval_bounds:
  "renewalInterval a \<in> {500000000..4294967295000000000} \<and> (4294967295000000000 :: int) < 2 ^ 63"
proof -
  have b: "0 \<le> uint s \<and> uint s \<le> 4294967295" for s :: "32 word"
    using uint_lt_0 [of s] uint_lt2p [of s] by (simp add: uint_nonnegative)
  show ?thesis
    using b [of "the (ack_T1 a)"] b [of "the (ack_lease a)"]
    by (auto simp: renewalInterval_def leaseTime_def Let_def split: option.splits)
qed

subsection \<open>The pauses, IPv6 and the watcher\<close>

lemma sint_of_int64: "- (2 ^ 63) \<le> x \<Longrightarrow> x < 2 ^ 63 \<Longrightarrow> sint (word_of_int x :: 64 word) = x"
  by (simp add: sint_sbintrunc' signed_take_bit_int_eq_self)

text \<open>The \<open>i\<close>-th pause, in nanoseconds.\<close>

definition nth_pause :: "int \<Rightarrow> nat \<Rightarrow> int" where
  "nth_pause m i = (if i = 0 then 1000000000 else min (2 ^ i * 1000000000) m)"

lemma sleepBackoff_next:
  assumes "0 \<le> sint m" "sint m < 2 ^ 62"
  shows "sleepBackoff m False (word_of_int (nth_pause (sint m) i)) = Some (word_of_int (nth_pause (sint m) (Suc i)))"
proof -
  let ?v = "nth_pause (sint m) i"
  have v: "0 \<le> ?v" "?v < 2 ^ 62" using assms by (auto simp: nth_pause_def)
  have "sint (word_of_int ?v * 2 :: 64 word) = ?v * 2"
    using sint_of_int64 [of "?v * 2"] v by simp
  moreover have "nth_pause (sint m) (Suc i) = (if sint m < ?v * 2 then sint m else ?v * 2)"
    using assms by (auto simp: nth_pause_def min_def)
  ultimately show ?thesis by (simp add: sleepBackoff_def Let_def)
qed

lemma family_loop_pauses:
  assumes "0 \<le> sint m" "sint m < 2 ^ 62"
  shows "family_loop m fam once rs (word_of_int (nth_pause (sint m) i)) first w = (ps, ret, w')
    \<Longrightarrow> ps = map (\<lambda>j. word_of_int (nth_pause (sint m) j)) [i..<i + length ps]"
proof (induction rs arbitrary: i first w ps ret w')
  case (Cons r rs)
  show ?case
  proof (cases "fr_done r = NotDone")
    case False
    then show ?thesis
      using Cons.prems by (cases "fr_done r") (auto simp: Let_def sleepBackoff_def split: option.splits prod.splits)
  next
    case True
    define w1 where "w1 = (let w0 = apply_drift (fr_drift r) w in if first then w0
      else w0\<lparr>w_metrics := inc ''anchord_dhcp_client_restarts_total'' [fam] (w_metrics w0)\<rparr>)"
    obtain e w2 where on: "once (fr_in r) w1 = (e, w2)" by (cases "once (fr_in r) w1")
    note step = Cons.prems [unfolded family_loop.simps Let_def] w1_def [unfolded Let_def, symmetric]
    show ?thesis
    proof (cases e)
      case None
      then show ?thesis using step True on by simp
    next
      case (Some err)
      obtain qs where "family_loop m fam once rs (word_of_int (nth_pause (sint m) (Suc i))) False
          (w2\<lparr>w_metrics := inc ''anchord_dhcp_acquired_total'' [fam, ''error''] (w_metrics w2)\<rparr>) = (qs, ret, w')"
        and ps: "ps = word_of_int (nth_pause (sint m) i) # qs"
        using step True on Some by (auto simp: sleepBackoff_next [OF assms] split: prod.splits)
      have "qs = map (\<lambda>j. word_of_int (nth_pause (sint m) j)) [Suc i..<Suc i + length qs]"
        by (rule Cons.IH [OF \<open>family_loop m fam once rs _ False _ = (qs, ret, w')\<close>])
      moreover have "[i..<i + length ps] = i # [Suc i..<Suc i + length qs]"
        using upt_conv_Cons [of i "i + length ps"] by (simp add: ps del: upt_Suc)
      ultimately show ?thesis unfolding ps by (simp only: list.map)
    qed
  qed
qed simp

text \<open>C28. Whatever the client does in between (in the code it is \<open>run_once family\<close>, but the pauses do not depend on it), the
  pauses of a family's loop are one second and then,
  for the \<open>i\<close>-th, \<open>2 ^ i\<close> seconds or the configured maximum, whichever is less: the doubling never
  wraps around and a success never resets it; with a maximum of zero, which the configuration
  accepts, there is no pause after the first one.\<close>

theorem runFamily_pauses:
  assumes "0 \<le> sint (s_backoffMax s)" "sint (s_backoffMax s) < 2 ^ 62"
  shows "case runFamily s family once rounds w of (ps, ret, w') \<Rightarrow>
    map sint ps = map (nth_pause (sint (s_backoffMax s))) [0..<length ps]"
proof -
  let ?m = "sint (s_backoffMax s)"
  obtain ps ret w' where fl: "family_loop (s_backoffMax s) (familyLabel family) once rounds 1000000000 True w = (ps, ret, w')"
    by (cases "family_loop (s_backoffMax s) (familyLabel family) once rounds 1000000000 True w")
  have e: "(1000000000 :: duration) = word_of_int (nth_pause ?m 0)" by (simp add: nth_pause_def)
  have ps: "ps = map (\<lambda>j. word_of_int (nth_pause ?m j)) [0..<0 + length ps]"
    by (rule family_loop_pauses [OF assms fl [unfolded e]])
  have "sint (word_of_int (nth_pause ?m j) :: duration) = nth_pause ?m j" for j
  proof -
    have "0 \<le> nth_pause ?m j" "nth_pause ?m j < 2 ^ 62" using assms by (auto simp: nth_pause_def)
    then show ?thesis by (intro sint_of_int64) simp_all
  qed
  then have "map sint ps = map (nth_pause ?m) [0..<length ps]"
    by (subst ps) (simp add: comp_def)
  then show ?thesis by (simp add: runFamily_def fl)
qed

definition least_pos :: "int list \<Rightarrow> int" where
  "least_pos xs = (if filter ((<) 0) xs = [] then 0 else Min (set (filter ((<) 0) xs)))"

lemma least_pos_zero: "least_pos xs = 0 \<longleftrightarrow> filter ((<) 0) xs = []"
proof -
  have "0 < Min (set (filter ((<) 0) xs))" if "filter ((<) 0) xs \<noteq> []"
    using that by (subst Min_gr_iff) (auto simp: filter_empty_conv)
  then show ?thesis by (force simp: least_pos_def)
qed

lemma least_pos_Cons:
  "least_pos (x # xs)
     = (if x \<le> 0 then least_pos xs else if least_pos xs = 0 then x else min x (least_pos xs))"
proof (cases "filter ((<) 0) xs = []")
  case True
  then show ?thesis by (simp add: least_pos_def)
next
  case False
  then have "least_pos xs \<noteq> 0" by (simp add: least_pos_zero)
  moreover have "Min (insert x (set (filter ((<) 0) xs))) = min x (Min (set (filter ((<) 0) xs)))"
    by (rule Min.insert) (use False in \<open>simp_all only: finite_set set_empty not_False_eq_True\<close>)
  ultimately show ?thesis using False by (simp add: least_pos_def)
qed

lemma best_lifetime_fold: "0 \<le> b \<Longrightarrow> foldl best_lifetime b xs = least_pos (b # xs)"
proof (induction xs arbitrary: b)
  case Nil
  then show ?case by (simp add: least_pos_Cons) (simp add: least_pos_def)
next
  case (Cons x xs)
  have "0 \<le> best_lifetime b x" using Cons.prems by (simp add: best_lifetime_def)
  from Cons.IH [OF this] Cons.prems show ?case
    by (auto simp: least_pos_Cons best_lifetime_def min_def)
qed

lemma lifetimes_filter:
  "filter ((<) 0) (map (\<lambda>ia. uint (snd ia) * 1000000000) ias)
     = [uint secs * 1000000000. (ip, secs) \<leftarrow> ias, secs \<noteq> (0 :: 32 word)]"
proof (induction ias)
  case (Cons ia ias)
  have "0 < uint s \<longleftrightarrow> s \<noteq> 0" for s :: "32 word" using uint_ge_0 [of s] by (auto simp: less_le unsigned_eq_0_iff)
  then show ?case using Cons by (cases ia) simp
qed simp

lemma foldl_nested: "foldl (\<lambda>b ys. foldl f b ys) b xss = foldl f b (concat xss)"
  by (induction xss arbitrary: b) simp_all

text \<open>The lifetime taken from a DHCPv6 reply is the least positive valid lifetime of its addresses,
  over all its IA_NA options, and an hour when there is none.\<close>

theorem v6LeaseLifetime_exact:
  "v6LeaseLifetime msg =
     (let lts = [uint secs * 1000000000. (ip, secs) \<leftarrow> concat msg, secs \<noteq> 0] in
      if lts = [] then 3600 * 1000000000 else Min (set lts))"
proof -
  let ?xs = "map (\<lambda>ia. uint (snd ia) * 1000000000) (concat msg)"
  have "foldl (\<lambda>b iana. foldl (\<lambda>b ia. best_lifetime b (uint (snd ia) * 1000000000)) b iana) 0 msg
      = foldl best_lifetime 0 ?xs"
    by (simp add: foldl_nested foldl_map)
  also have "\<dots> = least_pos ?xs"
    by (simp add: best_lifetime_fold least_pos_Cons)
  finally have f: "foldl (\<lambda>b iana. foldl (\<lambda>b ia. best_lifetime b (uint (snd ia) * 1000000000)) b iana) 0 msg
      = least_pos ?xs" .
  show ?thesis
    unfolding v6LeaseLifetime_def Let_def f least_pos_zero lifetimes_filter
    by (simp only: least_pos_def lifetimes_filter split: if_split) blast
qed

lemma v6_wait_hours:
  "v6_wait (replicate n V6Hour) w = (False, w\<lparr>v6_now := v6_now w + int n * (3600 * 1000000000)\<rparr>)"
  by (induction n arbitrary: w) (simp_all add: distrib_right)

text \<open>A DHCPv6 lease is never renewed: however many hours go by after it has been applied, the
  client has sent its one SOLICIT and its one REQUEST and nothing else, it does not return, so that
  its loop does not start it again, the addresses stay on the interface, and once the lifetime of the
  reply is over the metric reads zero.\<close>

theorem runV6_never_renews:
  assumes "extractV6Addrs msg \<noteq> []" "applyV6Addrs (extractV6Addrs msg) (v6_link w) = (True, l)"
  shows "case runV6Once True True (Some msg) (replicate n V6Hour) w of (r, w') \<Rightarrow>
    r = None \<and> v6_sent w' = v6_sent w @ [SOLICIT, REQUEST] \<and> v6_link w' = l
    \<and> (v6LeaseLifetime msg \<le> int n * (3600 * 1000000000)
        \<longrightarrow> lease_Collect (v6_now w') (v6_metrics w') ''v6'' = Some 0)"
  using assms by (simp add: runV6Once_def Let_def v6_wait_hours lease_Collect_def metric_simps)

text \<open>The channel of routers holds at most its four.\<close>

lemma push_router_bounded: "length ch \<le> 4 \<Longrightarrow> length (push_router a ch) \<le> 4"
  by (simp add: push_router_def split: list.splits)

lemma watch_loop_remdups:
  assumes "list_all (\<lambda>ip. length ip = 0 \<or> length ip = 4) (prev # ips)"
  shows "watch_loop prev ips
    = (let xs = filter (\<lambda>ip. ip \<noteq> []) ips in
       if prev = [] then remdups_adj xs else tl (remdups_adj (prev # xs)))"
  using assms
proof (induction prev ips rule: watch_loop.induct)
  case (2 prev ip ips)
  have hd_rem: "remdups_adj (x # xs) = x # tl (remdups_adj (x # xs))" for x :: net_ip and xs
    by (metis hd_remdups_adj list.collapse list.sel(1) list.distinct(1) remdups_adj_Nil_iff)
  have eq: "ip_equal prev ip \<longleftrightarrow> prev = ip" if "prev \<noteq> []" "ip \<noteq> []"
    using that 2(4) by (auto simp: ip_equal_def)
  consider "ip = []" | "ip \<noteq> []" "prev = ip" | "ip \<noteq> []" "prev = [] \<or> \<not> ip_equal prev ip" "prev \<noteq> ip"
    using eq by auto
  then show ?case
  proof cases
    case 3
    have "watch_loop ip ips = tl (remdups_adj (ip # filter (\<lambda>ip. ip \<noteq> []) ips))"
      using 2(2) [OF 3(1,2)] 2(4) 3(1) by simp
    then show ?thesis
      using 3 hd_rem [of ip "filter (\<lambda>ip. ip \<noteq> []) ips"] by (simp add: Let_def)
  qed (use 2 in simp_all)
qed simp

lemma first_global_in: "first_global as = [] \<or> first_global as \<in> fst ` set as"
  by (induction as) auto

lemma currentV4_length: "link_ok l \<Longrightarrow> length (currentV4 l) = 0 \<or> length (currentV4 l) = 4"
  using first_global_in [of "il_addrs l"] by (auto simp: currentV4_def link_ok_def)

text \<open>C26. What the watcher emits is the sequence of the addresses the interface has had, one per tick at
  which it had one, without immediate repetitions: every change is emitted, nothing is emitted twice
  in a row, and a time without an address in between is not a change.\<close>

theorem watchIP_changes:
  assumes "list_all link_ok links"
  shows "watchIP links = remdups_adj (filter (\<lambda>ip. ip \<noteq> []) (map currentV4 links))"
  unfolding watchIP_def
  by (subst watch_loop_remdups) (use assms currentV4_length in \<open>auto simp: list_all_iff Let_def\<close>)

subsection \<open>Witnesses\<close>

definition demo_link :: v4_link where
  "demo_link = \<lparr>il_exists = True, il_list_fails = False, il_addrs = [([172, 20, 0, 2], 16)],
     il_add_fails = (\<lambda>a. fst a = [10, 0, 0, 9]), il_del_fails = (\<lambda>_. False)\<rparr>"

definition demo_ack :: ack where
  "demo_ack = \<lparr>ack_yiaddr = [192, 168, 1, 50], ack_mask = Some [255, 255, 255, 0],
     ack_routers = [[192, 168, 1, 1]], ack_T1 = None, ack_lease = Some 7200\<rparr>"

definition demo_world :: dh_world where
  "demo_world = \<lparr>w_link = demo_link, w_routers = [], w_released = [], w_now = 0, w_metrics = mreg_empty\<rparr>"

lemma demo_ok: "link_ok demo_link" "ack_ok demo_ack" "ack_ok (demo_ack\<lparr>ack_yiaddr := [192, 168, 1, 51]\<rparr>)"
  by (simp_all add: link_ok_def demo_link_def ack_ok_def demo_ack_def)

lemma demo_mask: "mask_ones [255, 255, 255, 0] = 24"
proof -
  have "[255, 255, 255, 0] = cidr_mask 24" by (simp add: cidr_mask_def upt_conv_Cons)
  then show ?thesis by (simp only: mask_ones_cidr)
qed

lemma demo_applied: "applyV4Lease demo_ack demo_world
  = (None, demo_world\<lparr>w_link := demo_link\<lparr>il_addrs := [([192, 168, 1, 50], 24)]\<rparr>, w_routers := [[192, 168, 1, 1]]\<rparr>)"
  by (simp add: applyV4Lease_def demo_world_def demo_link_def demo_ack_def ip_equal_def AddrDel_def AddrAdd_def
      lease_addr_def lease_mask_def to4_def demo_mask push_router_def)

lemma applyV4Lease_exact_witness:
  "il_addrs (w_link (snd (applyV4Lease demo_ack demo_world))) = [([192, 168, 1, 50], mask_ones [255, 255, 255, 0])]"
  using applyV4Lease_exact [OF demo_applied] demo_ok
  by (simp add: demo_applied) (simp add: demo_world_def demo_link_def demo_ack_def lease_mask_def)

lemma refused_lease_is_kept_witness:
  "\<exists>w'. runV4Once True (Some (demo_ack\<lparr>ack_yiaddr := [10, 0, 0, 9]\<rparr>)) [] demo_world
      = (Some (ApplyV4Lease AddrAddFailed), w')
    \<and> il_addrs (w_link w') = [] \<and> w_released w' = []"
  using refused_lease_is_kept [of demo_world "demo_ack\<lparr>ack_yiaddr := [10, 0, 0, 9]\<rparr>" "[]"] demo_ok(1)
  by (simp add: demo_world_def) (simp add: demo_link_def lease_addr_def to4_def)


definition no_answer :: once_in where
  "no_answer = \<lparr>oi_new = True, oi_request = None, oi_v4 = [], oi_link6 = \<lparr>l6_exists = True, l6_addrs = [], l6_add_fails = (\<lambda>_. False),
       l6_del_fails = (\<lambda>_. False)\<rparr>, oi_solicit = False, oi_reply = None, oi_v6 = []\<rparr>"

lemma runFamily_pauses_witness:
  "map sint (fst (runFamily (dhcp_New AddressModeDHCPRefresh ''eth0'' ''h'' (300 * 1000000000)) 4
      (run_once 4) (replicate 3 \<lparr>fr_drift = Drift demo_link [] 0, fr_in = no_answer, fr_done = NotDone\<rparr>) demo_world))
    = [1000000000, 2000000000, 4000000000]"
proof -
  let ?s = "dhcp_New AddressModeDHCPRefresh ''eth0'' ''h'' (300 * 1000000000)"
  let ?rs = "replicate 3 \<lparr>fr_drift = Drift demo_link [] 0, fr_in = no_answer, fr_done = NotDone\<rparr>"
  let ?f = "runFamily ?s 4 (run_once 4) ?rs demo_world"
  have "length (fst ?f) = 3" by code_simp
  then show ?thesis
    using runFamily_pauses [of ?s 4 "run_once 4" ?rs demo_world]
    by (cases ?f) (simp add: dhcp_New_def nth_pause_def upt_conv_Cons)
qed

lemma runV6_never_renews_witness:
  "fst (runV6Once True True (Some [[(replicate 15 0 @ [9], 7200)]]) (replicate 3 V6Hour)
      \<lparr>v6_link = \<lparr>l6_exists = True, l6_addrs = [], l6_add_fails = (\<lambda>_. False), l6_del_fails = (\<lambda>_. False)\<rparr>,
       v6_sent = [], v6_now = 0, v6_metrics = mreg_empty\<rparr>) = None"
  using runV6_never_renews [of "[[(replicate 15 0 @ [9], 7200)]]"
      "\<lparr>v6_link = \<lparr>l6_exists = True, l6_addrs = [], l6_add_fails = (\<lambda>_. False), l6_del_fails = (\<lambda>_. False)\<rparr>,
        v6_sent = [], v6_now = 0, v6_metrics = mreg_empty\<rparr>" _ 3]
  by (simp add: extractV6Addrs_def applyV6Addrs_def AddrReplace6_def split: prod.splits)

lemma watchIP_changes_witness:
  "watchIP [demo_link, demo_link, demo_link\<lparr>il_addrs := []\<rparr>, demo_link\<lparr>il_addrs := [([192, 168, 1, 50], 24)]\<rparr>]
    = [[172, 20, 0, 2], [192, 168, 1, 50]]"
proof -
  have ok: "list_all link_ok [demo_link, demo_link, demo_link\<lparr>il_addrs := []\<rparr>, demo_link\<lparr>il_addrs := [([192, 168, 1, 50], 24)]\<rparr>]"
    by (simp add: link_ok_def demo_link_def)
  show ?thesis unfolding watchIP_changes [OF ok] by code_simp
qed

end
