(* ===== verification/AnchordMain.thy ===== *)
theory AnchordMain
  imports Forwarding Discovery ServiceAnchor Health Dependents Autostart Rebinder WrapRebinder ExtIface Dhcp
begin

section \<open>Command anchord: the modes, the start and the end of the network anchor\<close>

text \<open>
  \<open>src/cmd/anchord/main.go\<close>. Starting the network anchor is one function over the environment, the
  Docker daemon, the links and the nftables kernel; it composes the configuration, the interface
  resolver, the NAT manager, the DHCP supervisor, the picker and the reconciler. The deferred calls
  are a list run from its head. The goroutines that only watch (extroute, autostart, the dependents
  watcher, the metrics listener) start and end with the context and have their own theories; that one of
  them panics is an input of the end of the process.

  Shown: what the process decides to be; when it exits with which code, and when its tables stay behind; that nothing is touched
  before the resolution and the configuration have succeeded; that a start which fails after the DHCP
  supervisor has been launched neither returns nor cleans up until a signal arrives; that discovery
  is always scoped; and that the doctor's report lists every victim once, under its target.
\<close>

subsection \<open>The mode\<close>

datatype Mode = ModeNetworkAnchor | ModeServiceAnchor | ModeDoctor | ModeRebinder | ModeWrapRebinder

definition mode_strings :: "(string \<times> Mode) list" where
  "mode_strings =
     [(''network-anchor'', ModeNetworkAnchor), (''service-anchor'', ModeServiceAnchor), (''doctor'', ModeDoctor),
      (''external-rebinder'', ModeRebinder), (''wrap-rebinder'', ModeWrapRebinder)]"

datatype main_error =
    UnknownMode string
  | Canceled
  | ConfigError config_error
  | DockerClient
  | HostnameFailed
  | ResolveFailed ei_error
  | NatSetup nat_error
  | InspectSelf
  | NoNetworksOnSelf
  | PickerFailed picker_error
  | UnknownSubcommand string
  | UnexpectedArguments "string list"
  | ContainerListFailed

definition selectMode :: "string list \<Rightarrow> string \<Rightarrow> main_error + Mode" where
  "selectMode args envMode =
     (let argMode = (if length args > 1 \<and> \<not> has_prefix (args ! 1) ''-'' then args ! 1 else []);
          mode = (if argMode = [] then envMode else argMode) in
      if mode = [] then Inr ModeNetworkAnchor
      else case map_of mode_strings mode of Some md \<Rightarrow> Inr md | None \<Rightarrow> Inl (UnknownMode mode))"

text \<open>How \<open>run\<close> ends, if it does.\<close>

datatype outcome = Returned "main_error option" | Panics | Hangs

text \<open>\<open>main\<close>: the exit code. Whether an error of the Docker client is that of the cancelled context is
  the library's to say.\<close>

fun is_canceled :: "bool \<Rightarrow> main_error \<Rightarrow> bool" where
  "is_canceled lib Canceled = True"
| "is_canceled lib (ResolveFailed DockerUnreachable) = lib"
| "is_canceled lib InspectSelf = lib"
| "is_canceled lib ContainerListFailed = lib"
| "is_canceled lib _ = False"

fun exit_code :: "bool \<Rightarrow> outcome \<Rightarrow> nat option" where
  "exit_code lib (Returned None) = Some 0"
| "exit_code lib (Returned (Some e)) = Some (if is_canceled lib e then 0 else 1)"
| "exit_code lib Panics = Some 2"
| "exit_code lib Hangs = None"

subsection \<open>Helpers\<close>

definition orDefault :: "string \<Rightarrow> string \<Rightarrow> string" where
  "orDefault s def = (if s = [] then def else s)"

datatype log_level = LevelDebug | LevelInfo | LevelWarn | LevelError

definition setupLogger :: "string \<Rightarrow> log_level" where
  "setupLogger level =
     (if level = ''debug'' then LevelDebug
      else if level = ''warn'' then LevelWarn
      else if level = ''error'' then LevelError
      else LevelInfo)"

text \<open>Whether a listener is started.\<close>

definition startMetrics :: "string \<Rightarrow> bool" where
  "startMetrics addr \<longleftrightarrow> addr \<noteq> []"

definition buildDiscoveryDiscriminator :: "((string, string) gomap \<Rightarrow> (string, string) gomap)
    \<Rightarrow> string \<Rightarrow> (string, string) gomap \<Rightarrow> string list" where
  "buildDiscoveryDiscriminator rng project selector =
     (if selector \<noteq> [] then
        (let keys = sort (map fst (rng selector)) in map (\<lambda>k. k @ ''='' @ str_index (map_of selector) k) keys)
      else if project \<noteq> [] then [''com.docker.compose.project='' @ project]
      else [])"

text \<open>The names are the keys of a Go map, in range order.\<close>

definition selfNetworks :: "dk_daemon \<Rightarrow> (string list \<Rightarrow> string list) \<Rightarrow> string option \<Rightarrow> dk_history
    \<Rightarrow> (main_error + string list) \<times> dk_history" where
  "selfNetworks D rngN hostname h =
     (case hostname of None \<Rightarrow> (Inl HostnameFailed, h)
      | Some host \<Rightarrow>
          ((case d_inspect D h host of None \<Rightarrow> Inl InspectSelf
            | Some insp \<Rightarrow>
                (case ci_Networks insp of None \<Rightarrow> Inl NoNetworksOnSelf
                 | Some nets \<Rightarrow> if nets = [] then Inl NoNetworksOnSelf else Inr (rngN (map fst nets)))),
           h @ [CInspect host]))"

fun ext_pins :: "net_ip list \<Rightarrow> net_ip \<Rightarrow> net_ip \<Rightarrow> net_ip \<times> net_ip" where
  "ext_pins [] p4 p6 = (p4, p6)"
| "ext_pins (ip # ips) p4 p6 =
     (if to4 ip \<noteq> [] then ext_pins ips (to4 ip) p6 else ext_pins ips p4 ip)"

subsection \<open>The network anchor\<close>

text \<open>What surrounds the process: the environment, the libraries' parsers, whether a Docker client can
  be made, the host name, the daemon, the links, the kernel's transactions, range orders, and whether
  a signal arrives while the process is ending.\<close>

record na_env =
  ne_env :: env
  ne_duration :: "string \<Rightarrow> duration option"
  ne_unmarshal :: "string \<Rightarrow> (string, string) gomap option"
  ne_rng :: "(string, string) gomap \<Rightarrow> (string, string) gomap"
  ne_client :: bool
  ne_hostname :: "string option"
  ne_daemon :: dk_daemon
  ne_links :: links
  ne_flush :: flush
  ne_rngN :: "string list \<Rightarrow> string list"
  ne_chosen :: "dk_history \<Rightarrow> string"   \<comment> \<open>the picker's choice at a moment, read by the autostart watcher\<close>
  ne_signal :: bool

datatype na_defer = DeferWait | DeferTeardown | DeferClose | DeferCancel

text \<open>The wait for the DHCP supervisor ends when the context is done, and only then.\<close>

fun run_defers :: "flush \<Rightarrow> manager \<Rightarrow> bool \<Rightarrow> na_defer list \<Rightarrow> nft_kernel \<Rightarrow> bool \<times> nft_kernel" where
  "run_defers flush m done [] k = (True, k)"
| "run_defers flush m done (DeferWait # ds) k = (if done then run_defers flush m done ds k else (False, k))"
| "run_defers flush m done (DeferTeardown # ds) k = run_defers flush m done ds (snd (Teardown flush m k))"
| "run_defers flush m done (DeferClose # ds) k = run_defers flush m done ds k"
| "run_defers flush m done (DeferCancel # ds) k = run_defers flush m True ds k"

text \<open>The state the functions thread: the kernel, the calls made to the daemon, the tracker.\<close>

record na_state =
  st_kernel :: nft_kernel
  st_history :: dk_history
  st_tracker :: tracker

text \<open>Step 2: the name of the external interface, or nothing when the resolution does not return.\<close>

definition resolve_ext :: "na_env \<Rightarrow> cfg_network_anchor \<Rightarrow> dk_history
    \<Rightarrow> ((main_error + string) \<times> dk_history) option" where
  "resolve_ext E cfg h =
     (if na_ExtNetwork cfg = [] then Some (Inr (na_ExtIfaceName cfg), h)
      else case ne_hostname E of None \<Rightarrow> Some (Inl HostnameFailed, h)
      | Some host \<Rightarrow>
          (case Resolve (ne_daemon E) (ne_links E) (ei_New host) (na_ExtNetwork cfg) h of
             None \<Rightarrow> None
           | Some (Inl e, h') \<Rightarrow> Some (Inl (ResolveFailed e), h')
           | Some (Inr iface, h') \<Rightarrow> Some (Inr iface, h')))"

text \<open>Steps 4 to 7: what the DHCP supervisor, the route manager, discovery and the watchers are given.\<close>

record na_parts =
  np_dhcp :: supervisor
  np_extroute :: er_manager
  np_picker :: picker
  np_discriminator :: "string list"
  np_autostart :: "as_watcher option"
  np_dependents :: dep_watcher

definition autostart_watcher :: "na_env \<Rightarrow> cfg_network_anchor \<Rightarrow> as_watcher option" where
  "autostart_watcher E cfg =
     (if na_AutostartSiblings cfg then
        Some ((as_New (case ne_hostname E of None \<Rightarrow> [] | Some host \<Rightarrow> host) (na_ManagedSA cfg))
          \<lparr>sharedNetFn := Some (ne_chosen E), autoFixDeadNetns := na_AutoFixDeadNetns cfg\<rparr>)
      else None)"

definition build_parts :: "na_env \<Rightarrow> cfg_network_anchor \<Rightarrow> string \<Rightarrow> dk_history
    \<Rightarrow> (main_error + na_parts) \<times> dk_history" where
  "build_parts E cfg iface h =
     (case ext_pins (na_ExtGatewayIPs cfg) [] [] of (p4, p6) \<Rightarrow>
      (case selfNetworks (ne_daemon E) (ne_rngN E) (ne_hostname E) h of
         (Inl e, h') \<Rightarrow> (Inl e, h')
       | (Inr selfNets, h') \<Rightarrow>
           (case sharednet_New selfNets (na_ExtNetwork cfg) (na_SharedNetwork cfg) of
              Inl e \<Rightarrow> (Inl (PickerFailed e), h')
            | Inr picker \<Rightarrow>
                (Inr \<lparr>np_dhcp = dhcp_New (na_AddressMode cfg) iface (na_DHCPHostname cfg) (na_DHCPBackoffMax cfg),
                      np_extroute = er_New (na_ExtNetwork cfg) p4 p6 True 0,
                      np_picker = picker,
                      np_discriminator = buildDiscoveryDiscriminator (ne_rng E) (na_ComposeProject cfg)
                        (na_LabelSelector cfg),
                      np_autostart = autostart_watcher E cfg,
                      np_dependents = dep_New (na_ComposeProject cfg)\<rparr>, h'))))"

text \<open>
  How the service ends. \<open>Run\<close> of the reconciler returns when the context is done, with its error, or when discovery has closed the
  channel, which it does when its own context is done, with none. Or a goroutine panics, which ends the process
  where it is: the poll goroutine of discovery does when it sends on the closed channel
  (\<open>DiscoveryRun.send_on_closed_channel\<close>), which may be before \<open>Run\<close> returns or while the deferred calls run, and
  when the poll interval that the configuration has accepted is not positive (\<open>time.NewTicker\<close>). \<open>GoroutinePanics j\<close> is a panic after
  \<open>j\<close> of the deferred calls.
\<close>

datatype na_ending = ContextDone | ChannelClosed | GoroutinePanics nat

text \<open>
  The rest of \<open>runNetworkAnchor\<close> once the tables are installed; \<open>sts\<close> are the snapshots that discovery
  delivers before the end. The parts are the argument of the goroutines.
\<close>

definition na_serve :: "na_env \<Rightarrow> (disc_state \<Rightarrow> disc_state) \<Rightarrow> (desired_map \<Rightarrow> desired_map) \<Rightarrow> disc_state list \<Rightarrow> na_ending
    \<Rightarrow> cfg_network_anchor \<Rightarrow> string \<Rightarrow> manager \<Rightarrow> na_state \<Rightarrow> outcome \<times> na_state" where
  "na_serve E rngS rngD sts ending cfg iface m s =
     (let defers = [DeferWait, DeferTeardown, DeferClose, DeferCancel] in
      case build_parts E cfg iface (st_history s) of
        (Inl e, h) \<Rightarrow>
          (case run_defers (ne_flush E) m (ne_signal E) defers (st_kernel s) of (ret, k) \<Rightarrow>
            (if ret then Returned (Some e) else Hangs, s\<lparr>st_kernel := k, st_history := h\<rparr>))
      | (Inr parts, h) \<Rightarrow>
          (case reconcile_Run (SetMap (ne_flush E) m) rngS rngD sts reconciler_New (st_kernel s) of
             (k1, r, n, fl) \<Rightarrow>
               (case run_defers (ne_flush E) m True (case ending of GoroutinePanics j \<Rightarrow> take j defers | _ \<Rightarrow> defers) k1 of (ret, k) \<Rightarrow>
                 (case ending of ContextDone \<Rightarrow> Returned (Some Canceled) | ChannelClosed \<Rightarrow> Returned None | GoroutinePanics j \<Rightarrow> Panics,
                  s\<lparr>st_kernel := k, st_history := h,
                    st_tracker := (if n > 0 then MarkReconciled (st_tracker s) else st_tracker s)\<rparr>))))"

definition runNetworkAnchor :: "na_env \<Rightarrow> (disc_state \<Rightarrow> disc_state) \<Rightarrow> (desired_map \<Rightarrow> desired_map) \<Rightarrow> disc_state list \<Rightarrow> na_ending
    \<Rightarrow> na_state \<Rightarrow> outcome \<times> na_state" where
  "runNetworkAnchor E rngS rngD sts ending s =
     (case LoadNetworkAnchor (ne_duration E) (ne_unmarshal E) (ne_rng E) (ne_env E) of
        Inl e \<Rightarrow> (Returned (Some (ConfigError e)), s)
      | Inr cfg \<Rightarrow>
          if \<not> ne_client E then (Returned (Some DockerClient), s)
          else (case resolve_ext E cfg (st_history s) of
             None \<Rightarrow> (Hangs, s)
           | Some (Inl e, h) \<Rightarrow> (Returned (Some e), s\<lparr>st_history := h\<rparr>)
           | Some (Inr iface, h) \<Rightarrow>
               (case Setup (ne_flush E) (nat_New iface) (st_kernel s) of
                  (Some e, m, k) \<Rightarrow> (Returned (Some (NatSetup e)), s\<lparr>st_kernel := k, st_history := h\<rparr>)
                | (None, m, k) \<Rightarrow>
                    na_serve E rngS rngD sts ending cfg iface m
                      (s\<lparr>st_kernel := k, st_history := h, st_tracker := MarkTablesInstalled (st_tracker s)\<rparr>))))"

subsection \<open>The other modes: what they hand to their loops\<close>

text \<open>The log level, whether there is a listener, its \<open>/readyz\<close> handler, and what the loop starts from.\<close>

record 'w mode_run =
  mr_log :: log_level
  mr_listener :: bool
  mr_ready :: "tracker \<Rightarrow> response"
  mr_loop :: 'w

definition runServiceAnchor :: "(string \<Rightarrow> duration option) \<Rightarrow> env
    \<Rightarrow> main_error + (cfg_service_anchor \<times> sa_manager) mode_run" where
  "runServiceAnchor parse_duration env =
     (case LoadServiceAnchor parse_duration env of Inl e \<Rightarrow> Inl (ConfigError e)
      | Inr cfg \<Rightarrow>
          Inr \<lparr>mr_log = setupLogger (sc_LogLevel cfg), mr_listener = startMetrics (sc_MetricsAddr cfg),
               mr_ready = ServiceAnchorReadinessHandler, mr_loop = (cfg, sa_New)\<rparr>)"

definition runRebinder :: "(string \<Rightarrow> duration option) \<Rightarrow> env \<Rightarrow> bool \<Rightarrow> main_error + rb_watcher mode_run" where
  "runRebinder parse_duration env client =
     (case LoadRebinder parse_duration env of Inl e \<Rightarrow> Inl (ConfigError e)
      | Inr cfg \<Rightarrow>
          if \<not> client then Inl DockerClient
          else Inr \<lparr>mr_log = setupLogger (rb_LogLevel cfg), mr_listener = startMetrics (rb_MetricsAddr cfg),
                    mr_ready = (\<lambda>_. LivenessHandler), mr_loop = rb_New cfg\<rparr>)"

definition runWrapRebinder :: "(string \<Rightarrow> duration option) \<Rightarrow> env \<Rightarrow> bool \<Rightarrow> main_error + wr_watcher mode_run" where
  "runWrapRebinder parse_duration env client =
     (case LoadWrapRebinder parse_duration env of Inl e \<Rightarrow> Inl (ConfigError e)
      | Inr cfg \<Rightarrow>
          if \<not> client then Inl DockerClient
          else Inr \<lparr>mr_log = setupLogger (wr_LogLevel cfg), mr_listener = startMetrics (wr_MetricsAddr cfg),
                    mr_ready = (\<lambda>_. LivenessHandler), mr_loop = wr_New cfg\<rparr>)"

subsection \<open>The doctor\<close>

text \<open>The victims by target, in the order they were found.\<close>

definition by_target :: "stale_netns list \<Rightarrow> (string, stale_netns list) gomap" where
  "by_target stale =
     foldl (\<lambda>m s. gm_put (StaleTarget s)
              ((case map_of m (StaleTarget s) of None \<Rightarrow> [] | Some vs \<Rightarrow> vs) @ [s]) m) [] stale"

definition first_name_less :: "stale_netns \<Rightarrow> stale_netns \<Rightarrow> bool" where
  "first_name_less a b \<longleftrightarrow> dep_FirstName (st_Container a) < dep_FirstName (st_Container b)"

text \<open>The groups of the report; \<open>sort.Slice\<close> and the range order are parameters.\<close>

definition report_groups :: "stale_netns sort_slice \<Rightarrow> (string list \<Rightarrow> string list) \<Rightarrow> stale_netns list
    \<Rightarrow> (string \<times> stale_netns list) list" where
  "report_groups sort_slice rngN stale =
     (let byTarget = by_target stale in
      map (\<lambda>t. (t, sort_slice first_name_less (case map_of byTarget t of None \<Rightarrow> [] | Some vs \<Rightarrow> vs)))
        (sort (rngN (map fst byTarget))))"

definition arrow :: string where
  "arrow = map char_of [226 :: nat, 134, 146]"

definition victim_lines :: "stale_netns \<Rightarrow> string list" where
  "victim_lines v =
     (''    '' @ dep_FirstName (st_Container v))
     # (if ComposeHint v \<noteq> [] then [''      '' @ arrow @ '' '' @ ComposeHint v] else [])"

definition printStaleReport :: "stale_netns sort_slice \<Rightarrow> (string list \<Rightarrow> string list) \<Rightarrow> stale_netns list \<Rightarrow> string list" where
  "printStaleReport sort_slice rngN stale =
     (let groups = report_groups sort_slice rngN stale in
      [''Found '' @ show_nat (length stale) @ '' dependent(s) in dead netns across ''
         @ show_nat (length groups) @ '' target(s):'', []]
      @ concat (map (\<lambda>(t, victims).
          [''  dead target: '' @ t @ ''  ('' @ show_nat (length victims) @ '' victim(s))'']
          @ concat (map victim_lines victims) @ [[]]) groups))"

definition doctor_container :: "ct_summary \<Rightarrow> dep_container" where
  "doctor_container c =
     \<lparr>dc_ID = cs_ID c, dc_Names = cs_Names c, dc_State = cs_State c, dc_NetworkMode = cs_NetworkMode c,
      dc_Labels = cs_Labels c\<rparr>"

definition runDoctorStaleNetns :: "stale_netns sort_slice \<Rightarrow> (string list \<Rightarrow> string list) \<Rightarrow> bool
    \<Rightarrow> ct_summary list option \<Rightarrow> string list \<Rightarrow> outcome \<times> string list" where
  "runDoctorStaleNetns sort_slice rngN client containers args =
     (if args \<noteq> [] then (Returned (Some (UnexpectedArguments args)), [])
      else if \<not> client then (Returned (Some DockerClient), [])
      else case containers of None \<Rightarrow> (Returned (Some ContainerListFailed), [])
      | Some list \<Rightarrow>
          (let all = map doctor_container list; stale = Find all all in
           (Returned None, if stale = [] then [''No dead-netns dependents found.'']
                           else printStaleReport sort_slice rngN stale)))"

text \<open>The usage goes to the standard error.\<close>

definition runDoctor :: "stale_netns sort_slice \<Rightarrow> (string list \<Rightarrow> string list) \<Rightarrow> bool
    \<Rightarrow> ct_summary list option \<Rightarrow> string list \<Rightarrow> outcome \<times> string list" where
  "runDoctor sort_slice rngN client containers args =
     (case args of [] \<Rightarrow> (Returned None, [])
      | a # rest \<Rightarrow>
          if a = ''-h'' \<or> a = ''--help'' then (Returned None, [])
          else if a = ''stale-netns'' then runDoctorStaleNetns sort_slice rngN client containers rest
          else (Returned (Some (UnknownSubcommand a)), []))"

text \<open>The branch of \<open>run\<close> for the doctor: the slice \<open>os.Args[2:]\<close> panics when it is out of range.\<close>

definition run_doctor_branch :: "stale_netns sort_slice \<Rightarrow> (string list \<Rightarrow> string list) \<Rightarrow> bool
    \<Rightarrow> ct_summary list option \<Rightarrow> string list \<Rightarrow> outcome \<times> string list" where
  "run_doctor_branch sort_slice rngN client containers osArgs =
     (if length osArgs < 2 then (Panics, [])
      else runDoctor sort_slice rngN client containers (drop 2 osArgs))"

subsection \<open>Starting and ending\<close>

lemma Teardown_inv:
  assumes "nat_inv m k" "\<And>k. accept [DelTable (table_of V4), DelTable (table_of V6)] k"
  shows "snd (Teardown (nft_flush accept) m k) (table_of fam) = None"
proof -
  have r: "setup_refs m = m" using assms(1) by (simp add: nat_inv_def mgr_ready_def)
  have "tableV4 (setup_refs m) = Some (table_of V4)" "tableV6 (setup_refs m) = Some (table_of V6)"
    by (simp_all add: setup_refs_def table_of_def Let_def)
  note t = this [unfolded r]
  have ne: "k (table_of V4) \<noteq> None" "k (table_of V6) \<noteq> None" "table_of V4 \<noteq> table_of V6"
    using assms(1) unfolding nat_inv_def by (fastforce, fastforce, simp add: table_of_def)
  then have "apply_ops [DelTable (table_of V4), DelTable (table_of V6)] k
      = Some (k(table_of V4 := None, table_of V6 := None))" by auto
  then show ?thesis
    using assms(2) by (cases fam) (simp_all add: Teardown_def t try_flush_def nft_flush_def)
qed

lemma run_defers_done:
  "run_defers flush m True [DeferWait, DeferTeardown, DeferClose, DeferCancel] k = (True, snd (Teardown flush m k))"
  by simp

lemma anchor_started:
  assumes "LoadNetworkAnchor (ne_duration E) (ne_unmarshal E) (ne_rng E) (ne_env E) = Inr cfg" "ne_client E"
    and "resolve_ext E cfg (st_history s) = Some (Inr iface, h)"
    and "Setup (ne_flush E) (nat_New iface) (st_kernel s) = (None, m, k)"
  shows "runNetworkAnchor E rngS rngD sts ending s = na_serve E rngS rngD sts ending cfg iface m
    (s\<lparr>st_kernel := k, st_history := h, st_tracker := MarkTablesInstalled (st_tracker s)\<rparr>)"
  using assms by (simp add: runNetworkAnchor_def)

text \<open>What the theorems below share: a configuration, an interface, a kernel without anchord's tables
  in which \<open>Setup\<close> succeeds, and no refusal of the transaction that deletes the tables.\<close>

definition na_started :: "na_env \<Rightarrow> (nft_op list \<Rightarrow> nft_kernel \<Rightarrow> bool) \<Rightarrow> cfg_network_anchor \<Rightarrow> string \<Rightarrow> dk_history
    \<Rightarrow> manager \<Rightarrow> nft_kernel \<Rightarrow> na_state \<Rightarrow> bool" where
  "na_started E accept cfg iface h m k s \<longleftrightarrow>
     LoadNetworkAnchor (ne_duration E) (ne_unmarshal E) (ne_rng E) (ne_env E) = Inr cfg \<and> ne_client E
     \<and> resolve_ext E cfg (st_history s) = Some (Inr iface, h)
     \<and> ne_flush E = nft_flush accept \<and> (\<forall>k. accept [DelTable (table_of V4), DelTable (table_of V6)] k)
     \<and> st_kernel s (table_of V4) = None \<and> st_kernel s (table_of V6) = None
     \<and> st_kernel s (NFPROTO_IPV4, ''anchord_v6'') = None
     \<and> Setup (nft_flush accept) (nat_New iface) (st_kernel s) = (None, m, k)"

lemma na_started_inv: "na_started E accept cfg iface h m k s \<Longrightarrow> nat_inv m k"
  using Setup_fresh_inv(1) unfolding na_started_def by blast

text \<open>C17. How a network anchor that has started ends. When its context is done, by a signal or because discovery has given up,
  it exits with code 0 and its tables are removed, whatever snapshots it has served and
  whichever of their transactions the kernel has refused. When a goroutine panics instead, the process ends with code 2, and its tables
  are left in the kernel exactly when the deferred teardown had not run by then.\<close>

theorem anchor_ends:
  assumes "na_started E accept cfg iface h m k s" "fst (build_parts E cfg iface h) = Inr parts"
  shows "case runNetworkAnchor E rngS rngD sts ending s of (out, s') \<Rightarrow>
    tablesInstalled (st_tracker s')
    \<and> (case ending of
         GoroutinePanics j \<Rightarrow> exit_code lib out = Some 2 \<and> (\<forall>fam. st_kernel s' (table_of fam) = None \<longleftrightarrow> 2 \<le> j)
       | _ \<Rightarrow> exit_code lib out = Some 0 \<and> (\<forall>fam. st_kernel s' (table_of fam) = None))"
proof -
  have run: "runNetworkAnchor E rngS rngD sts ending s = na_serve E rngS rngD sts ending cfg iface m
      (s\<lparr>st_kernel := k, st_history := h, st_tracker := MarkTablesInstalled (st_tracker s)\<rparr>)"
    using assms(1) by (intro anchor_started) (simp_all add: na_started_def)
  have fl: "ne_flush E = nft_flush accept" and acc: "\<And>k. accept [DelTable (table_of V4), DelTable (table_of V6)] k"
    using assms(1) by (simp_all add: na_started_def)
  obtain h' where bp: "build_parts E cfg iface h = (Inr parts, h')"
    using assms(2) by (cases "build_parts E cfg iface h") simp
  obtain k1 r n fls where rr: "reconcile_Run (SetMap (nft_flush accept) m) rngS rngD sts reconciler_New k = (k1, r, n, fls)"
    by (cases "reconcile_Run (SetMap (nft_flush accept) m) rngS rngD sts reconciler_New k")
  have inv: "nat_inv m k1"
    using nat_maps.run_inv [OF na_started_inv [OF assms(1)], of accept rngS rngD sts reconciler_New] rr by simp
  then have gone: "snd (Teardown (nft_flush accept) m k1) (table_of fam) = None" for fam
    using Teardown_inv [where accept = accept] acc by blast
  have there: "k1 (table_of fam) \<noteq> None" for fam using inv unfolding nat_inv_def by (metis option.distinct(1))
  have "snd (run_defers (nft_flush accept) m True (take j [DeferWait, DeferTeardown, DeferClose, DeferCancel]) k1) (table_of fam) = None
      \<longleftrightarrow> 2 \<le> j" for j fam
  proof -
    consider "j = 0" | "j = 1" | i where "j = Suc (Suc i)" by (metis One_nat_def not0_implies_Suc)
    then show ?thesis
      by cases (use gone there in \<open>simp_all add: take_Cons split: nat.split\<close>)
  qed
  then show ?thesis
    unfolding run using gone
    by (cases ending) (simp_all add: na_serve_def bp fl rr MarkTablesInstalled_def MarkReconciled_def case_prod_unfold run_defers_done del: run_defers.simps)
qed

text \<open>C18. When a start fails after the DHCP supervisor has been launched, because the anchor cannot
  inspect itself, has no network, or has been given a shared network it is not on, the process does not
  end: the deferred wait for the supervisor runs before the cancellation the supervisor waits for.
  The tables stay installed, with no map ever filled, and the error is not reported, until a signal
  arrives; then the tables are removed and the error is returned.\<close>

theorem failed_start_hangs:
  assumes "na_started E accept cfg iface h m k s" "fst (build_parts E cfg iface h) = Inl e"
  shows "case runNetworkAnchor E rngS rngD sts ending s of (out, s') \<Rightarrow>
    if ne_signal E then out = Returned (Some e) \<and> (\<forall>fam. st_kernel s' (table_of fam) = None)
    else out = Hangs \<and> exit_code lib out = None \<and> nat_inv m (st_kernel s')
      \<and> reconciled (st_tracker s') = reconciled (st_tracker s)"
proof -
  have run: "runNetworkAnchor E rngS rngD sts ending s = na_serve E rngS rngD sts ending cfg iface m
      (s\<lparr>st_kernel := k, st_history := h, st_tracker := MarkTablesInstalled (st_tracker s)\<rparr>)"
    using assms(1) by (intro anchor_started) (simp_all add: na_started_def)
  have fl: "ne_flush E = nft_flush accept" and acc: "\<And>k. accept [DelTable (table_of V4), DelTable (table_of V6)] k"
    using assms(1) by (simp_all add: na_started_def)
  obtain h' where bp: "build_parts E cfg iface h = (Inl e, h')"
    using assms(2) by (cases "build_parts E cfg iface h") simp
  have "snd (Teardown (nft_flush accept) m k) (table_of fam) = None" for fam
    using Teardown_inv [where accept = accept] acc na_started_inv [OF assms(1)] by blast
  then show ?thesis
    unfolding run using na_started_inv [OF assms(1)] by (simp add: na_serve_def bp fl MarkTablesInstalled_def)
qed

text \<open>A SIGTERM that arrives while the anchor waits for its external network to be attached makes
  the process exit with code 1, not 0: the resolution returns the error of its last attempt, not that
  of the context. Nothing has been installed.\<close>

theorem stop_while_resolving_fails:
  assumes "LoadNetworkAnchor (ne_duration E) (ne_unmarshal E) (ne_rng E) (ne_env E) = Inr cfg" "ne_client E"
    and "ne_hostname E = Some host" "na_ExtNetwork cfg \<noteq> []"
    and "fst (ei_attempt (ne_daemon E) (ne_links E) (ei_New host) (na_ExtNetwork cfg) (st_history s))
      = Inl (NetworkNotFound (na_ExtNetwork cfg))"
    and "d_now (ne_daemon E) (st_history s @ [CInspect host]) \<le> d_now (ne_daemon E) (st_history s) + DefaultDeadline"
    and "d_done (ne_daemon E) (st_history s @ [CInspect host, CSleep (100 * 1000000)])"
  shows "case runNetworkAnchor E rngS rngD sts ending s of (out, s') \<Rightarrow>
    exit_code lib out = Some 1 \<and> st_kernel s' = st_kernel s"
proof -
  let ?h = "st_history s"
  have at: "ei_attempt (ne_daemon E) (ne_links E) (ei_New host) (na_ExtNetwork cfg) ?h
      = (Inl (NetworkNotFound (na_ExtNetwork cfg)), ?h @ [CInspect host])"
    using assms(5) ei_attempt_hist [of "ne_daemon E" "ne_links E" "ei_New host" "na_ExtNetwork cfg" ?h]
    by (simp add: prod_eq_iff ei_New_def)
  have "Resolve (ne_daemon E) (ne_links E) (ei_New host) (na_ExtNetwork cfg) ?h
      = Some (Inl (NetworkNotFound (na_ExtNetwork cfg)), ?h @ [CInspect host, CSleep (100 * 1000000)])"
    using assms(4,6,7) by (simp add: Resolve_def resolve_loop.simps at Let_def) (simp add: ei_New_def)
  then show ?thesis using assms(1-4) by (simp add: runNetworkAnchor_def resolve_ext_def)
qed

subsection \<open>The scope of discovery\<close>

lemma mset_eq_sort: "mset xs = mset ys \<Longrightarrow> sort xs = sort ys"
  by (rule properties_for_sort) simp_all

text \<open>A network anchor never discovers without a scope: with the configuration it has loaded there
  is always a label predicate; a selector gives exactly one per pair, whatever the project, and the
  order in which Go ranges over it makes no difference.\<close>

theorem discovery_is_scoped:
  assumes "LoadNetworkAnchor pd js rng env = Inr cfg" "range_perm rngS"
  defines "preds \<equiv> buildDiscoveryDiscriminator rngS (na_ComposeProject cfg) (na_LabelSelector cfg)"
  shows "preds \<noteq> []
    \<and> preds = buildDiscoveryDiscriminator (\<lambda>xs. xs) (na_ComposeProject cfg) (na_LabelSelector cfg)
    \<and> (na_LabelSelector cfg \<noteq> [] \<longrightarrow>
         set preds = {k @ ''='' @ v | k v. map_of (na_LabelSelector cfg) k = Some v})"
proof -
  let ?sel = "na_LabelSelector cfg"
  have ne: "na_ComposeProject cfg \<noteq> [] \<or> ?sel \<noteq> []"
    using assms(1) by (auto simp: LoadNetworkAnchor_def Let_def split: if_splits)
  have "mset (rngS ?sel) = mset ?sel" using assms(2) by (simp add: range_perm_def)
  then have "mset (map fst (rngS ?sel)) = mset (map fst ?sel)" by simp
  then have same: "sort (map fst (rngS ?sel)) = sort (map fst ?sel)" by (rule mset_eq_sort)
  have sort_ne: "sort (map fst ?sel) \<noteq> []" if "?sel \<noteq> []"
    using that by (metis length_0_conv length_map length_sort)
  have "set preds = {k @ ''='' @ v | k v. map_of ?sel k = Some v}" if "?sel \<noteq> []"
  proof -
    have "set preds = (\<lambda>k. k @ ''='' @ str_index (map_of ?sel) k) ` fst ` set ?sel"
      using that by (simp add: preds_def buildDiscoveryDiscriminator_def same Let_def)
    also have "\<dots> = {k @ ''='' @ v | k v. map_of ?sel k = Some v}"
    proof -
      have "map_of ?sel k = Some v \<longleftrightarrow> k \<in> fst ` set ?sel \<and> v = str_index (map_of ?sel) k" for k v
        unfolding dom_map_of_conv_image_fst [symmetric] by (auto simp: str_index_def)
      then show ?thesis by blast
    qed
    finally show ?thesis .
  qed
  then show ?thesis
    using ne sort_ne by (auto simp: preds_def buildDiscoveryDiscriminator_def same Let_def)
qed

subsection \<open>The doctor\<close>

lemma by_target_lookup:
  "gm_ok (by_target stale) \<and> map_of (by_target stale) t
    = (let vs = filter (\<lambda>s. StaleTarget s = t) stale in if vs = [] then None else Some vs)"
proof (induction stale arbitrary: t rule: rev_induct)
  case Nil
  then show ?case by (simp add: by_target_def)
next
  case (snoc s stale)
  let ?m = "by_target stale"
  have step: "by_target (stale @ [s]) = gm_put (StaleTarget s)
      ((case map_of ?m (StaleTarget s) of None \<Rightarrow> [] | Some vs \<Rightarrow> vs) @ [s]) ?m"
    by (simp add: by_target_def)
  show ?case using snoc by (auto simp: step Let_def)
qed

lemma by_target_keys: "set (map fst (by_target stale)) = StaleTarget ` set stale"
proof -
  have "t \<in> fst ` set (by_target stale) \<longleftrightarrow> t \<in> StaleTarget ` set stale" for t
  proof -
    have "t \<in> fst ` set (by_target stale) \<longleftrightarrow> map_of (by_target stale) t \<noteq> None"
      by (metis dom_map_of_conv_image_fst domIff)
    also have "\<dots> \<longleftrightarrow> filter (\<lambda>s. StaleTarget s = t) stale \<noteq> []"
      using by_target_lookup [of stale t] by (simp add: Let_def)
    also have "\<dots> \<longleftrightarrow> t \<in> StaleTarget ` set stale" by (auto simp: filter_empty_conv)
    finally show ?thesis .
  qed
  then show ?thesis by auto
qed

lemma mset_groups:
  "distinct ts \<Longrightarrow> mset (concat (map (\<lambda>t. filter (\<lambda>s. f s = t) xs) ts)) = filter_mset (\<lambda>s. f s \<in> set ts) (mset xs)"
proof (induction ts)
  case (Cons t ts)
  then have "filter_mset (\<lambda>s. f s = t) (mset xs) + filter_mset (\<lambda>s. f s \<in> set ts) (mset xs)
      = filter_mset (\<lambda>s. f s = t \<or> f s \<in> set ts) (mset xs)"
    by (intro multiset_eqI) auto
  with Cons show ?case by (simp add: mset_filter)
qed simp

lemma mset_concat_map: "(\<And>t. mset (g t) = mset (h t)) \<Longrightarrow> mset (concat (map g ts)) = mset (concat (map h ts))"
  by (induction ts) simp_all

text \<open>The doctor's report lists every dependent in a dead namespace exactly once, under the target
  it refers to; the targets are in strictly ascending order and none is empty, and within a target the
  names ascend, as far as \<open>sort.Slice\<close>, which is not stable, determines them.\<close>

theorem report_lists_each_once:
  fixes stale :: "stale_netns list"
  assumes "\<And>xs. mset (sort_slice first_name_less xs) = mset xs"
    and "\<And>xs. sorted_wrt (\<lambda>a b. \<not> first_name_less b a) (sort_slice first_name_less xs)"
    and "\<And>xs :: string list. mset (rngN xs) = mset xs"
  defines "groups \<equiv> report_groups sort_slice rngN stale"
  shows "mset (concat (map snd groups)) = mset stale
    \<and> sorted_wrt (<) (map fst groups)
    \<and> (\<forall>(t, vs) \<in> set groups. vs \<noteq> [] \<and> (\<forall>v \<in> set vs. StaleTarget v = t)
         \<and> sorted_wrt (\<lambda>a b. \<not> first_name_less b a) vs)"
proof -
  define ts where "ts = sort (rngN (map fst (by_target stale)))"
  let ?f = "\<lambda>t. filter (\<lambda>s. StaleTarget s = t) stale"
  have look: "(case map_of (by_target stale) t of None \<Rightarrow> [] | Some vs \<Rightarrow> vs) = ?f t" for t
    using by_target_lookup [of stale t] by (auto simp: Let_def split: if_splits)
  have groups: "groups = map (\<lambda>t. (t, sort_slice first_name_less (?f t))) ts"
    by (simp add: groups_def report_groups_def ts_def look Let_def)
  have "mset ts = mset (map fst (by_target stale))" by (simp add: ts_def assms(3))
  then have set_ts: "set ts = StaleTarget ` set stale" and dist: "distinct ts"
    using by_target_keys [of stale] by_target_lookup [of stale]
    by (metis set_mset_mset, metis distinct_sort gm_ok_def mset_eq_imp_distinct_iff)
  have "mset (concat (map snd groups)) = mset (concat (map ?f ts))"
    unfolding groups map_map comp_def snd_conv by (rule mset_concat_map) (rule assms(1))
  also have "\<dots> = filter_mset (\<lambda>s. StaleTarget s \<in> set ts) (mset stale)"
    by (rule mset_groups [OF dist])
  also have "\<dots> = mset stale" by (simp add: set_ts filter_mset_eq_conv)
  finally have perm: "mset (concat (map snd groups)) = mset stale" .
  have "sorted ts" by (simp add: ts_def)
  then have asc: "sorted_wrt (<) (map fst groups)"
    using dist by (simp add: groups comp_def strict_sorted_iff)
  have mem: "set (sort_slice first_name_less (?f t)) = set (?f t)" for t
    by (metis assms(1) set_mset_mset)
  have "vs \<noteq> [] \<and> (\<forall>v \<in> set vs. StaleTarget v = t) \<and> sorted_wrt (\<lambda>a b. \<not> first_name_less b a) vs"
    if "(t, vs) \<in> set groups" for t vs
  proof -
    have vs: "vs = sort_slice first_name_less (?f t)" "t \<in> StaleTarget ` set stale"
      using that set_ts by (auto simp: groups)
    then have "set (?f t) \<noteq> {}" by auto
    then show ?thesis using mem [of t] vs(1) assms(2) by auto
  qed
  with perm asc show ?thesis by blast
qed

text \<open>With \<open>ANCHORD_MODE=doctor\<close> and no argument the process panics: the mode is taken from the
  environment, and the subcommand from beyond the end of the arguments.\<close>

theorem doctor_without_arguments_panics:
  "selectMode [bin] ''doctor'' = Inr ModeDoctor
    \<and> run_doctor_branch sort_slice rngN client containers [bin] = (Panics, [])
    \<and> exit_code lib Panics = Some 2"
  by (simp add: selectMode_def mode_strings_def run_doctor_branch_def)

subsection \<open>Witnesses\<close>

definition demo_E :: "dk_daemon \<Rightarrow> (string \<times> string) list \<Rightarrow> na_env" where
  "demo_E D vars = \<lparr>ne_env = env_of vars, ne_duration = (\<lambda>_. None), ne_unmarshal = (\<lambda>_. None),
     ne_rng = (\<lambda>xs. xs), ne_client = True, ne_hostname = Some ''self'', ne_daemon = D,
     ne_links = (\<lambda>h. Some []), ne_flush = nft_flush (\<lambda>_ _. True), ne_rngN = (\<lambda>xs. xs), ne_chosen = (\<lambda>_. ''transit''), ne_signal = False\<rparr>"

definition demo_state :: na_state where
  "demo_state = \<lparr>st_kernel = Map.empty, st_history = [], st_tracker = NewTracker\<rparr>"

lemma demo_cfg:
  obtains cfg where "LoadNetworkAnchor (\<lambda>_. None) (\<lambda>_. None) (\<lambda>ls. ls) (env_of [(''ANCHORD_PROJECT'', ''p'')]) = Inr cfg"
    "na_ExtNetwork cfg = []" "na_ExtIfaceName cfg = ''eth0''" "na_SharedNetwork cfg = []" "na_ExtGatewayIPs cfg = []"
  by (simp add: LoadNetworkAnchor_def env_eval second_def)

lemma demo_na_started:
  obtains cfg where "na_started (demo_E D [(''ANCHORD_PROJECT'', ''p'')]) (\<lambda>_ _. True) cfg ''eth0'' [] demo_mgr demo_kernel demo_state"
    "na_ExtNetwork cfg = []" "na_SharedNetwork cfg = []" "na_ExtGatewayIPs cfg = []"
proof -
  obtain cfg where cfg: "LoadNetworkAnchor (\<lambda>_. None) (\<lambda>_. None) (\<lambda>ls. ls) (env_of [(''ANCHORD_PROJECT'', ''p'')]) = Inr cfg"
    "na_ExtNetwork cfg = []" "na_ExtIfaceName cfg = ''eth0''" "na_SharedNetwork cfg = []" "na_ExtGatewayIPs cfg = []"
    by (rule demo_cfg)
  then have "na_started (demo_E D [(''ANCHORD_PROJECT'', ''p'')]) (\<lambda>_ _. True) cfg ''eth0'' [] demo_mgr demo_kernel demo_state"
    using demo_setup by (simp add: na_started_def demo_E_def demo_state_def resolve_ext_def)
  with cfg show thesis using that by blast
qed

lemma anchor_ends_witness:
  "\<exists>run. run = runNetworkAnchor (demo_E (demo_docker []) [(''ANCHORD_PROJECT'', ''p'')]) (\<lambda>xs. xs) (\<lambda>xs. xs) [[]]
    \<and> (case run ContextDone demo_state of (out, s') \<Rightarrow> exit_code False out = Some 0 \<and> st_kernel s' (table_of V4) = None)
    \<and> (case run (GoroutinePanics 0) demo_state of (out, s') \<Rightarrow> exit_code False out = Some 2 \<and> st_kernel s' (table_of V4) \<noteq> None)"
proof -
  let ?E = "demo_E (demo_docker []) [(''ANCHORD_PROJECT'', ''p'')]"
  obtain cfg where cfg: "na_started ?E (\<lambda>_ _. True) cfg ''eth0'' [] demo_mgr demo_kernel demo_state"
    "na_ExtNetwork cfg = []" "na_SharedNetwork cfg = []" "na_ExtGatewayIPs cfg = []"
    by (rule demo_na_started)
  obtain parts where parts: "fst (build_parts ?E cfg ''eth0'' []) = Inr parts"
    using cfg(2-4) by (simp add: build_parts_def selfNetworks_def demo_E_def demo_docker_def demo_inspect_def sharednet_New_def)
  note ends = anchor_ends [OF cfg(1) parts, where rngS = "\<lambda>xs. xs" and rngD = "\<lambda>xs. xs" and sts = "[[]]" and lib = False]
  show ?thesis using ends [of ContextDone] ends [of "GoroutinePanics 0"] by (auto simp del: One_nat_def)
qed

lemma failed_start_hangs_witness:
  "fst (runNetworkAnchor (demo_E ((demo_docker [])\<lparr>d_inspect := \<lambda>h i. None\<rparr>) [(''ANCHORD_PROJECT'', ''p'')])
      (\<lambda>xs. xs) (\<lambda>xs. xs) [] ContextDone demo_state) = Hangs"
proof -
  let ?E = "demo_E ((demo_docker [])\<lparr>d_inspect := \<lambda>h i. None\<rparr>) [(''ANCHORD_PROJECT'', ''p'')]"
  obtain cfg where cfg: "na_started ?E (\<lambda>_ _. True) cfg ''eth0'' [] demo_mgr demo_kernel demo_state"
    "na_ExtGatewayIPs cfg = []" by (rule demo_na_started)
  have "fst (build_parts ?E cfg ''eth0'' []) = Inl InspectSelf"
    using cfg(2) by (simp add: build_parts_def selfNetworks_def demo_E_def)
  from failed_start_hangs [OF cfg(1) this, where rngS = "\<lambda>xs. xs" and rngD = "\<lambda>xs. xs" and sts = "[]" and ending = ContextDone and lib = False]
  show ?thesis by (simp add: demo_E_def case_prod_unfold)
qed

lemma stop_while_resolving_fails_witness:
  "\<exists>out s'. runNetworkAnchor (demo_E ((demo_docker [])\<lparr>d_done := \<lambda>h. length h = 2\<rparr>)
        [(''ANCHORD_PROJECT'', ''p''), (''ANCHORD_EXT_NETWORK'', ''dmz'')]) (\<lambda>xs. xs) (\<lambda>xs. xs) [] ContextDone demo_state
      = (out, s') \<and> exit_code False out = Some 1"
proof -
  let ?E = "demo_E ((demo_docker [])\<lparr>d_done := \<lambda>h. length h = 2\<rparr>)
        [(''ANCHORD_PROJECT'', ''p''), (''ANCHORD_EXT_NETWORK'', ''dmz'')]"
  obtain cfg where cfg: "LoadNetworkAnchor (ne_duration ?E) (ne_unmarshal ?E) (ne_rng ?E) (ne_env ?E) = Inr cfg"
    "na_ExtNetwork cfg = ''dmz''"
    by (simp add: demo_E_def LoadNetworkAnchor_def env_eval second_def)
  have att: "fst (ei_attempt (ne_daemon ?E) (ne_links ?E) (ei_New ''self'') (na_ExtNetwork cfg) (st_history demo_state))
      = Inl (NetworkNotFound (na_ExtNetwork cfg))"
    by (simp add: cfg(2) ei_attempt_def ei_New_def demo_E_def demo_state_def demo_docker_def demo_inspect_def
        inspectFromDocker_def Let_def)
  obtain out s' where run: "runNetworkAnchor ?E (\<lambda>xs. xs) (\<lambda>xs. xs) [] ContextDone demo_state = (out, s')"
    by (cases "runNetworkAnchor ?E (\<lambda>xs. xs) (\<lambda>xs. xs) [] ContextDone demo_state")
  have "case runNetworkAnchor ?E (\<lambda>xs. xs) (\<lambda>xs. xs) [] ContextDone demo_state of (out, s') \<Rightarrow>
      exit_code False out = Some 1 \<and> st_kernel s' = st_kernel demo_state"
    by (rule stop_while_resolving_fails [OF cfg(1) _ _ _ att])
      (simp_all add: cfg(2), simp_all add: demo_E_def demo_docker_def demo_state_def DefaultDeadline_def)
  then show ?thesis using run by simp
qed

lemma discovery_is_scoped_witness:
  "\<exists>cfg :: cfg_network_anchor. buildDiscoveryDiscriminator rev (na_ComposeProject cfg) (na_LabelSelector cfg) \<noteq> []"
proof -
  obtain cfg where "LoadNetworkAnchor (\<lambda>_. None) (\<lambda>_. None) (\<lambda>ls. ls) (env_of [(''ANCHORD_PROJECT'', ''p'')]) = Inr cfg"
    by (rule demo_cfg)
  from discovery_is_scoped [OF this range_perm_rev] show ?thesis by blast
qed

lemma report_lists_each_once_witness:
  "mset (concat (map snd (report_groups (\<lambda>less. sort_key (dep_FirstName \<circ> st_Container)) rev
      (Find [demo_dependent] [demo_dependent])))) = mset (Find [demo_dependent] [demo_dependent])"
proof -
  have *: "sorted_wrt (\<lambda>a b. \<not> first_name_less b a) (sort_key (dep_FirstName \<circ> st_Container) xs)" for xs
    using sorted_sort_key [of "dep_FirstName \<circ> st_Container" xs]
    by (simp add: sorted_map sorted_wrt_iff_nth_less first_name_less_def not_less)
  show ?thesis
    using report_lists_each_once [of "\<lambda>less. sort_key (dep_FirstName \<circ> st_Container)" rev
        "Find [demo_dependent] [demo_dependent]"] *
    by simp
qed

subsection \<open>The doctor and the watcher\<close>

text \<open>\<open>List\<close> of the production adapter of the dependents watcher: the same containers that the doctor builds.\<close>

definition dep_List :: "ct_summary list option \<Rightarrow> dep_container list option" where
  "dep_List listed = (case listed of None \<Rightarrow> None | Some list \<Rightarrow> Some (map doctor_container list))"

lemma Find_filter: "Find (filter P cs) all = filter (\<lambda>v. P (st_Container v)) (Find cs all)"
  by (induction cs) (auto simp: Let_def split: option.split)

text \<open>The first tick of the watcher reports the victims of the doctor that belong to the project.\<close>

lemma watcher_agrees_with_doctor:
  assumes "project \<noteq> []"
  shows "dep_Run [dep_List (Some list)] (dep_New project)
    = [filter (\<lambda>v. str_index (dc_Labels (st_Container v)) ''com.docker.compose.project'' = project)
         (let all = map doctor_container list in Find all all)]"
  using assms
  by (simp add: dep_Run_def dep_New_def dep_List_def dep_tick_def tick_loop_eq scopeByProject_def Find_filter Let_def)

end
