(* ===== verification/DiscoveryRun.thy ===== *)
theory DiscoveryRun
  imports Discovery
begin

section \<open>Discovery as two goroutines\<close>

text \<open>
  \<open>Run\<close>, \<open>pollLoop\<close> and \<open>eventLoop\<close> of \<open>src/internal/discovery/discovery.go\<close>: two goroutines take
  snapshots on their own, share the picker without a lock, and send into one channel of capacity
  four, which \<open>Run\<close> closes when the event loop returns. A snapshot is four steps: the listing, the
  read of the picker, its write with the reading of the addresses, and the send; between any two of them the other
  goroutine, the reconciler or the Docker daemon may do theirs. The initial snapshot of \<open>Run\<close> is one
  of the event goroutine; a listing that fails changes nothing. Each listing carries the
  number of changes of the daemon before it, which the code does not know.

  Shown: once the daemon is quiet and what was under way has been delivered, whatever the reconciler
  receives is a snapshot of the present (\<open>quiet_daemon_current\<close>). Three runs show what the code does not
  exclude: an older listing received after a newer one (\<open>stale_listing_overtakes\<close>), a picker
  settled on a network that no backend is on (\<open>settled_on_an_empty_network\<close>), and a send on the closed
  channel after the context has ended (\<open>send_on_closed_channel\<close>).
\<close>

subsection \<open>The steps\<close>

datatype goroutine = PollLoop | EventLoop

datatype phase =
    Idle
  | Listed nat "summary list"
  | Reading nat "summary list" picker
  | Built nat disc_state

text \<open>What the daemon answers: the lists by filter, and the inspections.\<close>

type_synonym docker_view = "(filter_args \<Rightarrow> string + summary list) \<times> (string \<Rightarrow> net_settings option option)"

record discoverer =
  dr_discriminator :: "string list"
  dr_shared :: picker
  dr_out :: "(nat \<times> disc_state) list"
  dr_phase :: "goroutine \<Rightarrow> phase"
  dr_docker :: docker_view
  dr_changes :: nat
  dr_received :: "(nat \<times> disc_state) option"
  dr_cancelled :: bool
  dr_closed :: bool
  dr_panicked :: bool

definition out_capacity :: nat where "out_capacity = 4"

definition disc_New :: "string list \<Rightarrow> picker \<Rightarrow> docker_view \<Rightarrow> discoverer" where
  "disc_New discriminator shared w =
     \<lparr>dr_discriminator = discriminator, dr_shared = shared, dr_out = [], dr_phase = (\<lambda>_. Idle),
      dr_docker = w, dr_changes = 0, dr_received = None,
      dr_cancelled = False, dr_closed = False, dr_panicked = False\<rparr>"

text \<open>
  What a \<open>Pick\<close> that read the picker \<open>p\<close> and computed \<open>p'\<close> assigns in the picker as it is by then: nothing when
  it returned early, else the choice, and the flag only when it settles.
\<close>

definition pick_write :: "picker \<Rightarrow> picker \<Rightarrow> picker \<Rightarrow> picker" where
  "pick_write p p' cur =
     (if pinned p = [] \<and> (candidates p = [] \<or> settled p) then cur
      else cur\<lparr>chosen := chosen p', settled := settled cur \<or> settled p'\<rparr>)"

text \<open>The range order of a Go map: any order of its entries.\<close>

definition map_order_of :: "(net_settings \<Rightarrow> net_settings) \<Rightarrow> bool" where
  "map_order_of rng \<longleftrightarrow> (\<forall>ns. set (rng ns) = set ns)"

text \<open>
  An inspection answers as the daemon is; when the daemon has changed since the listing it may have done so between
  two inspections, so the answers of \<open>built\<close> are then left open. The \<open>select\<close> at the end of a snapshot takes any
  ready case, and a send on a closed channel is one that panics.
\<close>

inductive disc_step :: "discoverer \<Rightarrow> discoverer \<Rightarrow> bool" where
  changed: "disc_step s (s\<lparr>dr_docker := w, dr_changes := Suc (dr_changes s)\<rparr>)"
| listed: "dr_phase s g = Idle \<Longrightarrow> \<not> (g = EventLoop \<and> dr_closed s)
    \<Longrightarrow> fst (dr_docker s) (buildSnapshotFilter (dr_discriminator s)) = Inr list
    \<Longrightarrow> disc_step s (s\<lparr>dr_phase := (dr_phase s)(g := Listed (dr_changes s) list)\<rparr>)"
| reading: "dr_phase s g = Listed n list
    \<Longrightarrow> disc_step s (s\<lparr>dr_phase := (dr_phase s)(g := Reading n list (dr_shared s))\<rparr>)"
| built: "dr_phase s g = Reading n list p \<Longrightarrow> map_order_of rng
    \<Longrightarrow> insp = snd (dr_docker s) \<or> n < dr_changes s
    \<Longrightarrow> snapshot Pick rng (\<lambda>_. Inr list :: string + summary list) insp (dr_discriminator s) p = (Inr st, p')
    \<Longrightarrow> disc_step s (s\<lparr>dr_phase := (dr_phase s)(g := Built n st), dr_shared := pick_write p p' (dr_shared s)\<rparr>)"
| sent: "dr_phase s g = Built n st \<Longrightarrow> \<not> dr_closed s \<Longrightarrow> length (dr_out s) < out_capacity
    \<Longrightarrow> disc_step s (s\<lparr>dr_phase := (dr_phase s)(g := Idle), dr_out := dr_out s @ [(n, st)]\<rparr>)"
| dropped: "dr_phase s g = Built n st \<Longrightarrow> dr_cancelled s
    \<Longrightarrow> disc_step s (s\<lparr>dr_phase := (dr_phase s)(g := Idle)\<rparr>)"
| panicked: "dr_phase s g = Built n st \<Longrightarrow> dr_closed s \<Longrightarrow> disc_step s (s\<lparr>dr_panicked := True\<rparr>)"
| received: "dr_out s = x # xs \<Longrightarrow> disc_step s (s\<lparr>dr_out := xs, dr_received := Some x\<rparr>)"
| cancelled: "disc_step s (s\<lparr>dr_cancelled := True\<rparr>)"
| returned: "dr_phase s EventLoop = Idle \<Longrightarrow> dr_cancelled s \<Longrightarrow> disc_step s (s\<lparr>dr_closed := True\<rparr>)"

inductive_cases disc_stepE: "disc_step s s'"

inductive disc_run :: "discoverer \<Rightarrow> discoverer \<Rightarrow> bool" for s0 where
  run_nil: "disc_run s0 s0"
| run_step: "disc_run s0 s \<Longrightarrow> disc_step s s' \<Longrightarrow> disc_run s0 s'"

text \<open>Undisturbed, the two halves are the \<open>Pick\<close> of the code.\<close>

lemma pick_write_alone: "pick_write p (snd (Pick counts p)) p = snd (Pick counts p)"
  by (auto simp: pick_write_def Pick_def split: prod.split option.split)

subsection \<open>Accuracy\<close>

text \<open>
  What is listed, built, under way or received with the present number of changes describes the
  present daemon, on a network that the picker of this process may choose; nothing carries a later number. The picker
  keeps its invariant although two goroutines write it.
\<close>

definition picker_like :: "picker \<Rightarrow> picker \<Rightarrow> bool" where
  "picker_like q p \<longleftrightarrow> picker_inv p \<and> candidates p = candidates q \<and> pinned p = pinned q"

definition snapshot_of :: "discoverer \<Rightarrow> disc_state \<Rightarrow> bool" where
  "snapshot_of s st \<longleftrightarrow> (\<exists>rng p p'. map_order_of rng \<and> picker_like (dr_shared s) p
     \<and> snapshot Pick rng (fst (dr_docker s)) (snd (dr_docker s)) (dr_discriminator s) p = (Inr st, p'))"

definition accurate_item :: "discoverer \<Rightarrow> nat \<times> disc_state \<Rightarrow> bool" where
  "accurate_item s x \<longleftrightarrow> fst x \<le> dr_changes s \<and> (fst x = dr_changes s \<longrightarrow> snapshot_of s (snd x))"

definition accurate_listing :: "discoverer \<Rightarrow> nat \<Rightarrow> summary list \<Rightarrow> bool" where
  "accurate_listing s n list \<longleftrightarrow> n \<le> dr_changes s
     \<and> (n = dr_changes s \<longrightarrow> fst (dr_docker s) (buildSnapshotFilter (dr_discriminator s)) = Inr list)"

fun accurate_phase :: "discoverer \<Rightarrow> phase \<Rightarrow> bool" where
  "accurate_phase s Idle \<longleftrightarrow> True"
| "accurate_phase s (Listed n list) \<longleftrightarrow> accurate_listing s n list"
| "accurate_phase s (Reading n list p) \<longleftrightarrow> accurate_listing s n list \<and> picker_like (dr_shared s) p"
| "accurate_phase s (Built n st) \<longleftrightarrow> accurate_item s (n, st)"

definition accurate :: "discoverer \<Rightarrow> bool" where
  "accurate s \<longleftrightarrow> picker_inv (dr_shared s)
     \<and> (\<forall>g. accurate_phase s (dr_phase s g)) \<and> (\<forall>x \<in> set (dr_out s). accurate_item s x)
     \<and> (\<forall>x. dr_received s = Some x \<longrightarrow> accurate_item s x)"

text \<open>What all this depends on.\<close>

definition same_view :: "discoverer \<Rightarrow> discoverer \<Rightarrow> bool" where
  "same_view s s' \<longleftrightarrow> dr_docker s = dr_docker s' \<and> dr_discriminator s = dr_discriminator s'
     \<and> dr_changes s = dr_changes s' \<and> candidates (dr_shared s) = candidates (dr_shared s')
     \<and> pinned (dr_shared s) = pinned (dr_shared s')"

lemma accurate_item_cong: "same_view s s' \<Longrightarrow> accurate_item s = accurate_item s'"
  by (simp add: accurate_item_def snapshot_of_def picker_like_def same_view_def fun_eq_iff)

lemma accurate_phase_cong: "same_view s s' \<Longrightarrow> accurate_phase s ph = accurate_phase s' ph"
  using accurate_item_cong [of s s']
  by (cases ph) (simp_all add: accurate_listing_def same_view_def picker_like_def)

text \<open>A step that leaves the daemon alone keeps accurate what it keeps.\<close>

lemma accurate_same_view:
  assumes "same_view s s'" "picker_inv (dr_shared s')"
    and "\<And>g. accurate_phase s (dr_phase s' g)" "\<And>x. x \<in> set (dr_out s') \<Longrightarrow> accurate_item s x"
    and "\<And>x. dr_received s' = Some x \<Longrightarrow> accurate_item s x"
  shows "accurate s'"
  using assms(2-5) accurate_phase_cong [OF assms(1)] accurate_item_cong [OF assms(1)]
  by (simp add: accurate_def)

lemma accurate_changed:
  "accurate_item s x \<Longrightarrow> accurate_item (s\<lparr>dr_docker := w, dr_changes := Suc (dr_changes s)\<rparr>) x"
  "accurate_phase s ph \<Longrightarrow> accurate_phase (s\<lparr>dr_docker := w, dr_changes := Suc (dr_changes s)\<rparr>) ph"
  by (simp add: accurate_item_def) (cases ph, simp_all add: accurate_item_def accurate_listing_def)

lemma accurate_kept:
  assumes "accurate s" "same_view s s'" "dr_shared s' = dr_shared s"
    and "\<And>g. dr_phase s' g = Idle \<or> dr_phase s' g = dr_phase s g" "set (dr_out s') \<subseteq> set (dr_out s)"
    and "dr_received s' = dr_received s \<or> dr_received s' \<in> Some ` set (dr_out s)"
  shows "accurate s'"
proof (rule accurate_same_view [OF assms(2)])
  show "accurate_phase s (dr_phase s' g)" for g
    using assms(1) assms(4) [of g] by (auto simp: accurate_def)
qed (use assms(1,3,5,6) in \<open>auto simp: accurate_def\<close>)

lemma accurate_phase_at: "accurate s \<Longrightarrow> dr_phase s g = ph \<Longrightarrow> accurate_phase s ph"
  by (auto simp: accurate_def)

lemma accurate_built:
  assumes "accurate_phase s (Reading n list p)" "map_order_of rng" "insp = snd (dr_docker s) \<or> n < dr_changes s"
    and "snapshot Pick rng (\<lambda>_. Inr list :: string + summary list) insp (dr_discriminator s) p = (Inr st, p')"
  shows "accurate_item s (n, st)"
  using assms by (auto simp: accurate_item_def accurate_listing_def snapshot_of_def snapshot_def)

text \<open>The two halves of a \<open>Pick\<close> keep the invariant of the picker, whatever was written between them.\<close>

lemma pick_write_inv:
  assumes "picker_inv p" "picker_inv cur" "candidates p = candidates cur" "pinned p = pinned cur"
  shows "picker_inv (pick_write p (snd (Pick m p)) cur)"
    and "candidates (pick_write p p' cur) = candidates cur" "pinned (pick_write p p' cur) = pinned cur"
proof -
  have "chosen (snd (Pick m p)) = fst (Pick m p)" by (rule picker.pick_chosen [OF assms(1)])
  moreover have "fst (Pick m p) = pinned p" if "pinned p \<noteq> []" using that by (simp add: Pick_def)
  moreover have "fst (Pick m p) \<in> set (candidates p)" if "pinned p = []" "candidates p \<noteq> []"
    by (rule Pick_mem [OF assms(1) that])
  ultimately show "picker_inv (pick_write p (snd (Pick m p)) cur)"
    using assms by (auto simp: pick_write_def picker_inv_def)
qed (simp_all add: pick_write_def)

lemma snapshot_picker: "snapshot Pick rng cl insp d p = (Inr st, p') \<Longrightarrow> \<exists>m. p' = snd (Pick m p)"
  by (auto simp: snapshot_def Let_def split: sum.splits prod.splits) (metis snd_conv)

lemma accurate_step: "disc_step s s' \<Longrightarrow> accurate s \<Longrightarrow> accurate s'"
proof (induction rule: disc_step.induct)
  case (changed s w)
  then show ?case by (simp add: accurate_def accurate_changed)
next
  case (listed s g list)
  then show ?case
    by (intro accurate_same_view [of s]) (auto simp: accurate_def accurate_listing_def same_view_def)
next
  case (reading s g n list)
  then have "accurate_phase s (Listed n list)" by (blast intro: accurate_phase_at)
  then have "accurate_phase s (Reading n list (dr_shared s))"
    using reading(2) by (simp add: picker_like_def accurate_def)
  with reading(2) show ?case by (intro accurate_same_view [of s]) (auto simp: accurate_def same_view_def)
next
  case (built s g n list p rng insp st p')
  then have at: "accurate_phase s (Reading n list p)" by (blast intro: accurate_phase_at)
  then have item: "accurate_phase s (Built n st)"
    using accurate_built [OF _ built(2,3,4)] by simp
  have p: "picker_inv p" "picker_inv (dr_shared s)" "candidates p = candidates (dr_shared s)"
    "pinned p = pinned (dr_shared s)"
    using at built(5) by (simp_all add: picker_like_def accurate_def)
  obtain m where "p' = snd (Pick m p)" using snapshot_picker [OF built(4)] ..
  with pick_write_inv [OF p] item built(5) show ?case
    by (intro accurate_same_view [of s]) (auto simp: accurate_def same_view_def)
next
  case (sent s g n st)
  then have "accurate_phase s (Built n st)" by (blast intro: accurate_phase_at)
  with sent(4) show ?case by (intro accurate_same_view [of s]) (auto simp: accurate_def same_view_def)
qed (erule accurate_kept; auto simp: same_view_def)+

lemma accurate_run: "disc_run s0 s \<Longrightarrow> accurate s0 \<Longrightarrow> accurate s"
  by (induction rule: disc_run.induct) (auto intro: accurate_step)

lemma accurate_New: "picker_inv p \<Longrightarrow> accurate (disc_New d p w)"
  by (simp add: accurate_def disc_New_def)

subsection \<open>A quiet daemon\<close>

lemma changes_mono: "disc_run s0 s \<Longrightarrow> dr_changes s0 \<le> dr_changes s"
  by (induction rule: disc_run.induct) (auto elim!: disc_stepE)

text \<open>Nothing that was listed before the last change is still on its way.\<close>

fun phase_since :: "nat \<Rightarrow> phase \<Rightarrow> bool" where
  "phase_since n Idle \<longleftrightarrow> True"
| "phase_since n (Listed i list) \<longleftrightarrow> n \<le> i"
| "phase_since n (Reading i list p) \<longleftrightarrow> n \<le> i"
| "phase_since n (Built i st) \<longleftrightarrow> n \<le> i"

definition in_flight_current :: "nat \<Rightarrow> discoverer \<Rightarrow> bool" where
  "in_flight_current n s \<longleftrightarrow> (\<forall>g. phase_since n (dr_phase s g)) \<and> (\<forall>x \<in> set (dr_out s). n \<le> fst x)"

lemma in_flight_at: "in_flight_current n s \<Longrightarrow> dr_phase s g = ph \<Longrightarrow> phase_since n ph"
  by (auto simp: in_flight_current_def)

lemma in_flight_step:
  assumes "disc_step s s'" "in_flight_current n s" "n \<le> dr_changes s"
  shows "in_flight_current n s' \<and> (dr_received s' = dr_received s \<or> (\<exists>x. dr_received s' = Some x \<and> n \<le> fst x))"
  using assms
proof (induction rule: disc_step.induct)
  case (reading s g i list)
  with in_flight_at [of n s g] show ?case by (auto simp: in_flight_current_def)
next
  case (built s g i list p rng insp st p')
  with in_flight_at [of n s g] show ?case by (auto simp: in_flight_current_def)
next
  case (sent s g i st)
  with in_flight_at [of n s g] show ?case by (auto simp: in_flight_current_def)
qed (auto simp: in_flight_current_def)

lemma in_flight_run:
  assumes "disc_run s0 s" "in_flight_current n s0" "n \<le> dr_changes s0"
  shows "in_flight_current n s \<and> (dr_received s = dr_received s0 \<or> (\<exists>x. dr_received s = Some x \<and> n \<le> fst x))"
  using assms
proof (induction rule: disc_run.induct)
  case (run_step s s')
  have "n \<le> dr_changes s" using changes_mono [OF run_step(1)] run_step(5) by simp
  with in_flight_step [OF run_step(2), of n] run_step show ?case by metis
qed simp

text \<open>When the Docker daemon has stopped changing and nothing that was listed before its last change is
  still on its way, every state the reconciler receives from then on is a snapshot of the
  daemon as it is, in every interleaving of the two goroutines.\<close>

theorem quiet_daemon_current:
  assumes "picker_inv p" "disc_run (disc_New d p w) s" "in_flight_current (dr_changes s) s"
    and "disc_run s s'" "dr_changes s' = dr_changes s" "dr_received s' \<noteq> dr_received s"
  shows "\<exists>st. dr_received s' = Some (dr_changes s, st) \<and> snapshot_of s' st"
proof -
  obtain x where x: "dr_received s' = Some x" "dr_changes s \<le> fst x"
    using in_flight_run [OF assms(4,3)] assms(6) by auto
  have "accurate s'" using accurate_run [OF assms(4)] accurate_run [OF assms(2) accurate_New [OF assms(1)]] by blast
  then have "accurate_item s' x" using x(1) by (simp add: accurate_def)
  then have "fst x = dr_changes s'" "snapshot_of s' (snd x)"
    using x(2) assms(5) by (auto simp: accurate_item_def)
  with x(1) assms(5) show ?thesis by (cases x) simp
qed

subsection \<open>Three runs\<close>

text \<open>A discoverer without discriminator on a daemon that lists \<open>cs\<close> and inspects nothing.\<close>

definition on_daemon :: "(goroutine \<Rightarrow> phase) \<Rightarrow> picker \<Rightarrow> (nat \<times> disc_state) list \<Rightarrow> nat \<Rightarrow> summary list
    \<Rightarrow> (nat \<times> disc_state) option \<Rightarrow> discoverer" where
  "on_daemon ph p out n cs r =
     \<lparr>dr_discriminator = [], dr_shared = p, dr_out = out, dr_phase = ph,
      dr_docker = (\<lambda>_. Inr cs, \<lambda>_. None), dr_changes = n, dr_received = r,
      dr_cancelled = False, dr_closed = False, dr_panicked = False\<rparr>"

definition built_from :: "summary list \<Rightarrow> picker \<Rightarrow> disc_state" where
  "built_from list p = snapshot_backends (\<lambda>ns. ns) (fst (Pick (countBackendsPerNetwork list) p))
     (inspectNetworkSettings (\<lambda>_. None)) list"

definition picked_from :: "summary list \<Rightarrow> picker \<Rightarrow> picker" where
  "picked_from list p = snd (Pick (countBackendsPerNetwork list) p)"

lemma on_daemon_New: "disc_New [] p (\<lambda>_. Inr cs, \<lambda>_. None) = on_daemon (\<lambda>_. Idle) p [] 0 cs None"
  by (simp add: disc_New_def on_daemon_def)

lemma run_changed:
  "disc_run s0 (on_daemon ph p out n cs r) \<Longrightarrow> disc_run s0 (on_daemon ph p out (Suc n) cs' r)"
  using disc_step.changed [of "on_daemon ph p out n cs r" "(\<lambda>_. Inr cs', \<lambda>_. None)"]
  by (simp add: on_daemon_def run_step)

lemma run_listed:
  "disc_run s0 (on_daemon ph p out n cs r) \<Longrightarrow> ph g = Idle
    \<Longrightarrow> disc_run s0 (on_daemon (ph(g := Listed n cs)) p out n cs r)"
  using disc_step.listed [of "on_daemon ph p out n cs r" g cs]
  by (simp add: on_daemon_def run_step)

lemma run_reading:
  "disc_run s0 (on_daemon ph p out n cs r) \<Longrightarrow> ph g = Listed i l
    \<Longrightarrow> disc_run s0 (on_daemon (ph(g := Reading i l p)) p out n cs r)"
  using disc_step.reading [of "on_daemon ph p out n cs r" g i l]
  by (simp add: on_daemon_def run_step)

lemma run_built:
  "disc_run s0 (on_daemon ph p out n cs r) \<Longrightarrow> ph g = Reading i l q
    \<Longrightarrow> disc_run s0 (on_daemon (ph(g := Built i (built_from l q))) (pick_write q (picked_from l q) p) out n cs r)"
  using disc_step.built [of "on_daemon ph p out n cs r" g i l q "\<lambda>ns. ns" "\<lambda>_. None" "built_from l q" "picked_from l q"]
  by (auto simp: on_daemon_def map_order_of_def snapshot_def built_from_def picked_from_def
      split: prod.split intro: run_step)

lemma run_snapshot:
  assumes "disc_run s0 (on_daemon ph p out n cs r)" "ph g = Listed i l"
  shows "disc_run s0 (on_daemon (ph(g := Built i (built_from l p))) (picked_from l p) out n cs r)"
  using run_built [OF run_reading [OF assms], of g i l p]
  by (simp add: picked_from_def pick_write_alone)

lemma run_sent:
  "disc_run s0 (on_daemon ph p out n cs r) \<Longrightarrow> ph g = Built i st \<Longrightarrow> length out < 4
    \<Longrightarrow> disc_run s0 (on_daemon (ph(g := Idle)) p (out @ [(i, st)]) n cs r)"
  using disc_step.sent [of "on_daemon ph p out n cs r" g i st]
  by (simp add: on_daemon_def out_capacity_def run_step)

lemma run_delivered:
  assumes "disc_run s0 (on_daemon ph p out n cs r)" "ph g = Listed i l" "length out < 4"
  shows "disc_run s0 (on_daemon (ph(g := Idle)) (picked_from l p) (out @ [(i, built_from l p)]) n cs r)"
  using run_sent [OF run_snapshot [OF assms(1,2)], of g i "built_from l p"] assms(3) by simp

lemma run_received:
  "disc_run s0 (on_daemon ph p (x # out) n cs r) \<Longrightarrow> disc_run s0 (on_daemon ph p out n cs (Some x))"
  using disc_step.received [of "on_daemon ph p (x # out) n cs r" x out]
  by (simp add: on_daemon_def run_step)

lemma quiet_daemon_current_witness:
  "\<exists>s s' st. disc_run (disc_New [] demo_picker (\<lambda>_. Inr [], \<lambda>_. None)) s
     \<and> disc_run s s' \<and> dr_changes s = 1 \<and> dr_received s = None
     \<and> dr_received s' = Some (1, st) \<and> snapshot_of s' st"
proof -
  let ?init = "disc_New [] demo_picker (\<lambda>_. Inr [], \<lambda>_. None)"
  let ?s = "on_daemon (\<lambda>_. Idle) demo_picker [] 1 [demo_web] None"
  let ?s' = "on_daemon (\<lambda>_. Idle) (picked_from [demo_web] demo_picker) [] 1 [demo_web]
    (Some (1, built_from [demo_web] demo_picker))"
  have 1: "disc_run ?init ?s"
    using run_changed [of ?init "\<lambda>_. Idle" demo_picker "[]" 0 "[]" None "[demo_web]"] run_nil
    by (simp add: on_daemon_New)
  have "disc_run ?s (on_daemon ((\<lambda>_. Idle)(PollLoop := Listed 1 [demo_web])) demo_picker [] 1 [demo_web] None)"
    by (rule run_listed [OF run_nil]) simp
  from run_delivered [OF this, of PollLoop]
  have "disc_run ?s (on_daemon (\<lambda>_. Idle) (picked_from [demo_web] demo_picker)
      [(1, built_from [demo_web] demo_picker)] 1 [demo_web] None)"
    by (simp add: fun_upd_idem)
  from run_received [OF this] have 2: "disc_run ?s ?s'" .
  have "\<exists>st. dr_received ?s' = Some (dr_changes ?s, st) \<and> snapshot_of ?s' st"
    by (rule quiet_daemon_current [OF demo_picker_inv 1 _ 2]) (simp_all add: in_flight_current_def on_daemon_def)
  with 1 2 show ?thesis by (intro exI [of _ ?s] exI [of _ ?s']) (auto simp: on_daemon_def)
qed

text \<open>
  The event goroutine lists before a container appears, the poll goroutine after, and the older
  listing is sent last: the reconciler ends with a state without the container, and the
  maps stay empty until the next poll or event.
\<close>

lemma stale_listing_overtakes:
  "\<exists>s s' st. disc_run (disc_New [] demo_picker (\<lambda>_. Inr [], \<lambda>_. None)) s
     \<and> dr_received s = Some (1, st) \<and> disc_step s s' \<and> dr_received s' = Some (0, []) \<and> dr_out s' = []
     \<and> dr_changes s' = 1"
proof -
  let ?init = "disc_New [] demo_picker (\<lambda>_. Inr [], \<lambda>_. None)"
  let ?st = "built_from [demo_web] demo_picker"
  let ?p = "picked_from [demo_web] demo_picker"
  have "disc_run ?init (on_daemon ((\<lambda>_. Idle)(EventLoop := Listed 0 [])) demo_picker [] 0 [] None)"
    by (unfold on_daemon_New, rule run_listed [OF run_nil]) simp
  from run_listed [OF run_changed [OF this], of PollLoop "[demo_web]"]
  have "disc_run ?init (on_daemon ((\<lambda>_. Idle)(EventLoop := Listed 0 [], PollLoop := Listed 1 [demo_web]))
      demo_picker [] 1 [demo_web] None)" by simp
  from run_delivered [OF this, of PollLoop]
  have "disc_run ?init (on_daemon ((\<lambda>_. Idle)(EventLoop := Listed 0 [])) ?p [(1, ?st)] 1 [demo_web] None)"
    by (simp add: fun_upd_idem)
  from run_delivered [OF this, of EventLoop]
  have "disc_run ?init (on_daemon (\<lambda>_. Idle) (picked_from [] ?p) [(1, ?st), (0, [])] 1 [demo_web] None)"
    by (simp add: fun_upd_idem built_from_def snapshot_backends_def)
  from run_received [OF this]
  have "disc_run ?init (on_daemon (\<lambda>_. Idle) (picked_from [] ?p) [(0, [])] 1 [demo_web] (Some (1, ?st)))" .
  with disc_step.received [of "on_daemon (\<lambda>_. Idle) (picked_from [] ?p) [(0, [])] 1 [demo_web] (Some (1, ?st))" "(0, [])" "[]"]
  show ?thesis by (fastforce simp: on_daemon_def)
qed

text \<open>
  \<open>Pick\<close> tests and sets the picker in two goroutines. The one that listed nothing falls back to a
  transit network, and writes this choice over the one the other goroutine has settled meanwhile.
  The picker then is settled on a network without a backend, and stays so: no later snapshot contains the container.
\<close>

lemma settled_on_an_empty_network:
  "\<exists>s. disc_run (disc_New [] demo_picker (\<lambda>_. Inr [], \<lambda>_. None)) s
     \<and> settled (dr_shared s) \<and> chosen (dr_shared s) = ''app_transit''
     \<and> (\<forall>counts. Pick counts (dr_shared s) = (''app_transit'', dr_shared s))
     \<and> built_from [demo_web] (dr_shared s) = [] \<and> built_from [demo_web] demo_picker \<noteq> []"
proof -
  let ?init = "disc_New [] demo_picker (\<lambda>_. Inr [], \<lambda>_. None)"
  let ?w = "pick_write demo_picker (picked_from [] demo_picker) (pick_write demo_picker (picked_from [demo_web] demo_picker) demo_picker)"
  have "disc_run ?init (on_daemon ((\<lambda>_. Idle)(EventLoop := Listed 0 [])) demo_picker [] 0 [] None)"
    by (unfold on_daemon_New, rule run_listed [OF run_nil]) simp
  from run_listed [OF run_changed [OF this], of PollLoop "[demo_web]"]
  have "disc_run ?init (on_daemon ((\<lambda>_. Idle)(EventLoop := Listed 0 [], PollLoop := Listed 1 [demo_web]))
      demo_picker [] 1 [demo_web] None)" by simp
  from run_reading [OF run_reading [OF this, where g = EventLoop], where g = PollLoop]
  have "disc_run ?init (on_daemon ((\<lambda>_. Idle)(EventLoop := Reading 0 [] demo_picker, PollLoop := Reading 1 [demo_web] demo_picker))
      demo_picker [] 1 [demo_web] None)" by (simp add: fun_upd_twist)
  from run_built [OF run_built [OF this, where g = PollLoop], where g = EventLoop]
  have run: "\<exists>ph. disc_run ?init (on_daemon ph ?w [] 1 [demo_web] None)" by auto
  have w: "?w = demo_picker\<lparr>chosen := ''app_transit'', settled := True\<rparr>"
    by (simp add: pick_write_def picked_from_def Pick_def demo_picker_def countBackends_eq attached_def demo_web_def
        containsFold_def to_lower_def lower_char_def has_prefix_def)
  have stuck: "Pick counts ?w = (''app_transit'', ?w)" for counts
    unfolding w by (simp add: Pick_def demo_picker_def)
  have "built_from [demo_web] ?w = []"
    unfolding built_from_def stuck
    by (simp add: snapshot_backends_def snapshot_entry_def resolveSharedNetIPs_def pickIPsFromSettings_def
        demo_web_def labels_eval cut_prefix_def has_prefix_def)
  moreover have "built_from [demo_web] demo_picker \<noteq> []"
    by (simp add: built_from_def Pick_def demo_picker_def countBackends_eq attached_def snapshot_backends_def
        containsFold_def to_lower_def lower_char_def has_prefix_def
        snapshot_entry_def resolveSharedNetIPs_def pickIPsFromSettings_def demo_web_def labels_eval demo_ip gm_put_def)
  moreover have "settled ?w" "chosen ?w = ''app_transit''" unfolding w by simp_all
  ultimately show ?thesis using run stuck by (auto simp: on_daemon_def)
qed

text \<open>
  On shutdown the event loop returns and the channel is closed while a snapshot of the poll goroutine waits
  for its \<open>select\<close>: the send is one of the ready cases, and it panics.
\<close>

lemma send_on_closed_channel:
  "\<exists>s s'. disc_run (disc_New [] demo_picker (\<lambda>_. Inr [], \<lambda>_. None)) s \<and> disc_step s s' \<and> dr_panicked s'"
proof -
  let ?init = "disc_New [] demo_picker (\<lambda>_. Inr [], \<lambda>_. None)"
  have "disc_run ?init (on_daemon ((\<lambda>_. Idle)(PollLoop := Listed 0 [])) demo_picker [] 0 [] None)"
    by (unfold on_daemon_New, rule run_listed [OF run_nil]) simp
  from run_snapshot [OF this, of PollLoop]
  have "disc_run ?init (on_daemon ((\<lambda>_. Idle)(PollLoop := Built 0 (built_from [] demo_picker))) (picked_from [] demo_picker) [] 0 [] None)"
    (is "disc_run _ ?b") by simp
  from run_step [OF run_step [OF this disc_step.cancelled] disc_step.returned]
  have "disc_run ?init (?b\<lparr>dr_cancelled := True, dr_closed := True\<rparr>)" by (simp add: on_daemon_def)
  moreover have "disc_step (?b\<lparr>dr_cancelled := True, dr_closed := True\<rparr>) (?b\<lparr>dr_cancelled := True, dr_closed := True, dr_panicked := True\<rparr>)"
    using disc_step.panicked [of "?b\<lparr>dr_cancelled := True, dr_closed := True\<rparr>" PollLoop 0]
    by (simp add: on_daemon_def)
  moreover have "dr_panicked (?b\<lparr>dr_cancelled := True, dr_closed := True, dr_panicked := True\<rparr>)"
    by (simp add: on_daemon_def)
  ultimately show ?thesis by blast
qed

end
