(* ===== verification/AnchorSystem.thy ===== *)
theory AnchorSystem
  imports Forwarding DiscoveryRun
begin

section \<open>Discovery, reconciler and kernel together\<close>

text \<open>
  The data plane of the network anchor as one system: the two goroutines of discovery with their
  channel (theory \<open>DiscoveryRun\<close>), the reconciler that receives from it (\<open>Run\<close> of
  \<open>src/internal/reconciler/reconciler.go\<close>), and the kernel, interleaved in any order with the changes of the Docker
  daemon. The reconciler receives a snapshot and applies it in two steps, between which the others go on;
  it takes the next one only when it has returned from \<open>apply\<close>. Each transaction may be refused.

  Shown: when the daemon is quiet and nothing is on its way, every later reconcile that returns no error leaves the kernel
  forwarding to exactly what the daemon lists, on the network that \<open>right_network\<close> of theory \<open>Sharednet\<close>
  names (\<open>system_converges\<close>); and from every state that can be reached, whatever has been refused
  or overtaken before, such a state can be reached again without the daemon having to change
  (\<open>system_recovers\<close>). The network is part of both: \<open>settled_on_an_empty_network\<close> of theory
  \<open>DiscoveryRun\<close> reaches a picker that never leaves a network without containers.
\<close>

subsection \<open>What the kernel does with the ports of a list of containers\<close>

definition packet_to :: "manager \<Rightarrow> family \<Rightarrow> string \<Rightarrow> u16 \<Rightarrow> packet \<Rightarrow> bool" where
  "packet_to m fam proto q p \<longleftrightarrow> pk_l4proto p = proto_byte proto \<and> dst_port p = Some q \<and> guard_ok m fam p"

definition family_addr :: "family \<Rightarrow> net_ip \<times> net_ip \<Rightarrow> net_ip" where
  "family_addr fam = (case fam of V4 \<Rightarrow> fst | V6 \<Rightarrow> snd)"

text \<open>\<open>c\<close> is listed and exposes the port of \<open>rl\<close> on the address \<open>a\<close>.\<close>

definition offers :: "(string \<Rightarrow> net_settings option) \<Rightarrow> string \<Rightarrow> summary list \<Rightarrow> family \<Rightarrow> summary \<Rightarrow> rule \<Rightarrow> net_ip \<Rightarrow> bool" where
  "offers ins net cs fam c rl a \<longleftrightarrow> c \<in> set cs
     \<and> (\<exists>sp. Parse (sm_Labels c) = Inr (Some sp) \<and> rl \<in> set (Rules sp) \<and> (fam = V6 \<longrightarrow> SpecV6 sp \<noteq> V6Off))
     \<and> a = family_addr fam (shared_addrs ins net c) \<and> a \<noteq> []"

text \<open>A port that one container offers in a family goes to it, a port that none offers there is left alone.\<close>

definition forwards_exposed :: "manager \<Rightarrow> nft_kernel \<Rightarrow> (string \<Rightarrow> net_settings option) \<Rightarrow> string \<Rightarrow> summary list \<Rightarrow> bool" where
  "forwards_exposed m k ins net cs \<longleftrightarrow> (\<forall>fam p.
     (\<forall>c rl a. offers ins net cs fam c rl a \<longrightarrow> packet_to m fam (Proto rl) (Port rl) p
        \<longrightarrow> (\<forall>c' rl' a'. offers ins net cs fam c' rl' a' \<longrightarrow> Proto rl' = Proto rl \<longrightarrow> Port rl' = Port rl \<longrightarrow> c' = c \<and> rl' = rl)
        \<longrightarrow> hook_verdict ''prerouting'' k fam p
            = Some (Dnat (fam_addr fam a) (if BackendPort rl = Port rl then None else Some (be16 (BackendPort rl)))))
     \<and> (\<forall>proto q. l4_proto proto \<longrightarrow> packet_to m fam proto q p \<longrightarrow> (\<forall>c rl a. offers ins net cs fam c rl a \<longrightarrow> (Proto rl, Port rl) \<noteq> (proto, q))
        \<longrightarrow> hook_verdict ''prerouting'' k fam p = None))"

text \<open>The kernel holds the four maps of a snapshot.\<close>

definition kernel_shows :: "manager \<Rightarrow> nft_kernel \<Rightarrow> disc_state \<Rightarrow> bool" where
  "kernel_shows m k st \<longleftrightarrow> nat_inv m k \<and> (\<exists>rngS rngD. range_perm rngS \<and> range_perm rngD
     \<and> fwd_rel k (fwd_desired rngS rngD st))"

lemma kernel_shows_apply:
  assumes "nat_inv m k" "range_perm rngS" "range_perm rngD"
    and "reconcile_apply (SetMap (nft_flush accept) m) rngS rngD st r k = (None, k', r', fl)"
  shows "kernel_shows m k' st"
  unfolding kernel_shows_def fwd_rel_def fwd_desired_def
  using nat_maps.apply_installs [OF assms(4,1)] assms(2,3) l4_proto_def by blast

text \<open>The verdict is the lookup of the last target in range order.\<close>

lemma shown_verdict:
  assumes "nat_inv m k" "range_perm rngD" "fwd_rel k (fwd_desired rngS rngD st)"
    and "l4_proto proto" "pk_l4proto p = proto_byte proto" "dst_port p = Some q"
  shows "hook_verdict ''prerouting'' k fam p
    = (if guard_ok m fam p
       then map_option (\<lambda>t. Dnat (fam_addr fam (TIP t)) (if TPort t = q then None else Some (be16 (TPort t))))
              (last_target (rngS st) (fam, proto, q))
       else None)"
proof -
  have l4: "l4_proto ''tcp''" "l4_proto ''udp''" by (simp_all add: l4_proto_def)
  have look: "map_of (entries_for rngD fam proto (desiredFromState rngS st)) q = last_target (rngS st) (fam, proto, q)"
    using assms(2) by (simp add: entries_for_lookup desired_lookup)
  have inst: "nat_holds k fam proto (entries_for rngD fam proto (desiredFromState rngS st))" if "l4_proto proto" for proto
    using assms(3) that by (simp add: fwd_rel_def fwd_desired_def)
  note hook = hook_prerouting [OF assms(1,6) inst [OF l4(1)] inst [OF l4(2)]]
  from assms(4) show ?thesis
    by (cases rule: l4_cases)
      (use hook look assms(5) in \<open>auto simp: proto_byte_def dnat_verdict_def ipproto_tcp_def ipproto_udp_def\<close>)
qed

lemma last_target_unique:
  assumes "\<And>i b t'. (i, b) \<in> set xs \<Longrightarrow> backend_target b key = Some t' \<Longrightarrow> t' = t"
    and "(i, b) \<in> set xs" "backend_target b key = Some t"
  shows "last_target xs key = Some t"
  using last_target_complete [OF assms(2), of key] assms(3)
    last_target_sound [of xs key] assms(1) by fastforce

subsection \<open>The targets of a snapshot\<close>

lemma snapshot_lookup:
  assumes "net \<noteq> []" "distinct (map sm_ID cs)"
  shows "map_of (snapshot_backends rng net ins cs) i = Some b
    \<longleftrightarrow> (\<exists>c \<in> set cs. sm_ID c = i \<and> bk_ID b = sm_ID c \<and> bk_Name b = trimName (sm_Names c)
      \<and> Parse (sm_Labels c) = Inr (Some (bk_Spec b)) \<and> (bk_IPv4 b, bk_IPv6 b) = shared_addrs ins net c
      \<and> shared_addrs ins net c \<noteq> ([], []))"
  unfolding snapshot_backends_lookup [OF assms(2)] snapshot_entry_iff [OF assms(1)] ..

lemma snapshot_mem:
  assumes "net \<noteq> []" "distinct (map sm_ID cs)" "(i, b) \<in> set (snapshot_backends rng net ins cs)"
  obtains c where "c \<in> set cs" "sm_ID c = i" "Parse (sm_Labels c) = Inr (Some (bk_Spec b))"
    "(bk_IPv4 b, bk_IPv6 b) = shared_addrs ins net c"
  using assms(3) snapshot_lookup [OF assms(1,2)] that
  unfolding gm_in_set [OF snapshot_backends_ok] by blast

lemma backend_target_rule:
  assumes "backend_target b (fam, proto, q) = Some t"
  obtains rl where "rl \<in> set (Rules (bk_Spec b))" "Proto rl = proto" "Port rl = q"
    "t = \<lparr>TIP = backend_addr b fam, TPort = BackendPort rl\<rparr>"
  using assms that by (auto simp: backend_target_def split: if_splits dest!: find_member)

text \<open>The backend of a container that offers a port has it among its targets.\<close>

lemma offered_target:
  assumes net: "net \<noteq> []" "distinct (map sm_ID cs)"
    and offer: "offers ins net cs fam c rl a"
    and sole: "\<And>c' rl' a'. offers ins net cs fam c' rl' a' \<Longrightarrow> Proto rl' = Proto rl \<Longrightarrow> Port rl' = Port rl \<Longrightarrow> c' = c \<and> rl' = rl"
  obtains b where "(sm_ID c, b) \<in> set (snapshot_backends rng net ins cs)"
    "backend_target b (fam, Proto rl, Port rl) = Some \<lparr>TIP = a, TPort = BackendPort rl\<rparr>"
proof -
  obtain sp where sp: "c \<in> set cs" "Parse (sm_Labels c) = Inr (Some sp)" "rl \<in> set (Rules sp)"
    "fam = V6 \<longrightarrow> SpecV6 sp \<noteq> V6Off" "a = family_addr fam (shared_addrs ins net c)" "a \<noteq> []"
    using offer by (auto simp: offers_def)
  let ?b = "\<lparr>bk_ID = sm_ID c, bk_Name = trimName (sm_Names c), bk_IPv4 = fst (shared_addrs ins net c),
      bk_IPv6 = snd (shared_addrs ins net c), bk_Spec = sp\<rparr>"
  have "shared_addrs ins net c \<noteq> ([], [])" using sp(5,6) by (cases fam) (auto simp: family_addr_def)
  then have "(sm_ID c, ?b) \<in> set (snapshot_backends rng net ins cs)"
    unfolding gm_in_set [OF snapshot_backends_ok] snapshot_lookup [OF net] using sp(1,2) by auto
  moreover have "find (\<lambda>r. Proto r = Proto rl \<and> Port r = Port rl) (rev (Rules sp)) = Some rl"
  proof -
    have "find (\<lambda>r. Proto r = Proto rl \<and> Port r = Port rl) (rev (Rules sp)) \<noteq> None"
      using sp(3) by (auto simp: find_None_iff)
    then obtain x where x: "find (\<lambda>r. Proto r = Proto rl \<and> Port r = Port rl) (rev (Rules sp)) = Some x" by blast
    from find_member [OF x] have "x = rl" using sole [of c x a] sp by (auto simp: offers_def)
    with x show ?thesis by simp
  qed
  moreover have "backend_addr ?b fam = a"
    using sp(4,5) by (cases fam) (auto simp: backend_addr_def family_addr_def)
  ultimately show thesis using that [of ?b] sp(6) by (simp add: backend_target_def)
qed

text \<open>Only containers that offer a port give targets for it.\<close>

lemma target_offers:
  assumes "net \<noteq> []" "distinct (map sm_ID cs)" "(i, b) \<in> set (snapshot_backends rng net ins cs)"
    and "backend_target b (fam, proto, q) = Some t"
  obtains c rl a where "offers ins net cs fam c rl a" "Proto rl = proto" "Port rl = q" "sm_ID c = i"
proof -
  obtain c where c: "c \<in> set cs" "sm_ID c = i" "Parse (sm_Labels c) = Inr (Some (bk_Spec b))"
    "(bk_IPv4 b, bk_IPv6 b) = shared_addrs ins net c"
    using snapshot_mem [OF assms(1-3)] by blast
  obtain rl where rl: "rl \<in> set (Rules (bk_Spec b))" "Proto rl = proto" "Port rl = q"
    by (rule backend_target_rule [OF assms(4)])
  have "backend_addr b fam \<noteq> []" using assms(4) by (auto simp: backend_target_def)
  then have "offers ins net cs fam c rl (backend_addr b fam)"
    using c(1,3) c(4) [symmetric] rl(1) by (cases fam) (auto simp: offers_def backend_addr_def family_addr_def split: if_splits)
  then show thesis using that rl(2,3) c(2) by blast
qed

lemma sole_last_target:
  assumes net: "net \<noteq> []" "distinct (map sm_ID cs)"
    and offer: "offers ins net cs fam c rl a"
    and sole: "\<And>c' rl' a'. offers ins net cs fam c' rl' a' \<Longrightarrow> Proto rl' = Proto rl \<Longrightarrow> Port rl' = Port rl \<Longrightarrow> c' = c \<and> rl' = rl"
    and rng: "set xs = set (snapshot_backends rng net ins cs)"
  shows "last_target xs (fam, Proto rl, Port rl) = Some \<lparr>TIP = a, TPort = BackendPort rl\<rparr>"
proof -
  let ?st = "snapshot_backends rng net ins cs"
  obtain b where b: "(sm_ID c, b) \<in> set ?st"
    "backend_target b (fam, Proto rl, Port rl) = Some \<lparr>TIP = a, TPort = BackendPort rl\<rparr>"
    by (rule offered_target [OF net offer sole])
  show ?thesis
  proof (rule last_target_unique)
    fix i b' t'
    assume m: "(i, b') \<in> set xs" and t': "backend_target b' (fam, Proto rl, Port rl) = Some t'"
    obtain c' rl' a' where "offers ins net cs fam c' rl' a'" "Proto rl' = Proto rl" "Port rl' = Port rl" "sm_ID c' = i"
      by (rule target_offers [OF net m [unfolded rng] t'])
    with sole have "i = sm_ID c" by blast
    then have "b' = b"
      using m b(1) unfolding rng gm_in_set [OF snapshot_backends_ok] by simp
    with t' b(2) show "t' = \<lparr>TIP = a, TPort = BackendPort rl\<rparr>" by simp
  qed (use b rng in auto)
qed

text \<open>A kernel that holds the maps of a snapshot forwards as the list says from which the snapshot was built.\<close>

lemma shows_forwards:
  assumes "kernel_shows m k (snapshot_backends rng net ins cs)" "net \<noteq> []" "distinct (map sm_ID cs)"
  shows "forwards_exposed m k ins net cs"
proof -
  obtain rngS rngD where k: "nat_inv m k" "range_perm rngS" "range_perm rngD"
    "fwd_rel k (fwd_desired rngS rngD (snapshot_backends rng net ins cs))"
    using assms(1) by (auto simp: kernel_shows_def)
  note verdict = shown_verdict [OF k(1,3,4)]
  have same: "set (rngS (snapshot_backends rng net ins cs)) = set (snapshot_backends rng net ins cs)"
    by (rule range_perm_set [OF k(2)])
  show ?thesis
    unfolding forwards_exposed_def
  proof (intro allI conjI impI)
    fix fam p c rl a
    assume o: "offers ins net cs fam c rl a" and p: "packet_to m fam (Proto rl) (Port rl) p"
      and sole: "\<forall>c' rl' a'. offers ins net cs fam c' rl' a' \<longrightarrow> Proto rl' = Proto rl \<longrightarrow> Port rl' = Port rl \<longrightarrow> c' = c \<and> rl' = rl"
    have "l4_proto (Proto rl)"
      using o Parse_rules_wf by (fastforce simp: offers_def list_all_iff wf_rule_def l4_proto_def)
    from verdict [OF this] p sole_last_target [OF assms(2,3) o _ same] sole
    show "hook_verdict ''prerouting'' k fam p
      = Some (Dnat (fam_addr fam a) (if BackendPort rl = Port rl then None else Some (be16 (BackendPort rl))))"
      by (simp add: packet_to_def)
  next
    fix fam p proto q
    assume l4: "l4_proto proto" and p: "packet_to m fam proto q p" 
      and none: "\<forall>c rl a. offers ins net cs fam c rl a \<longrightarrow> (Proto rl, Port rl) \<noteq> (proto, q)"
    have "last_target (rngS (snapshot_backends rng net ins cs)) (fam, proto, q) = None"
    proof (rule ccontr)
      assume "\<not> ?thesis"
      then obtain t where "last_target (rngS (snapshot_backends rng net ins cs)) (fam, proto, q) = Some t" by blast
      from last_target_sound [OF this] obtain i b where
        b: "(i, b) \<in> set (snapshot_backends rng net ins cs)" "backend_target b (fam, proto, q) = Some t"
        unfolding same by blast
      obtain c rl a where "offers ins net cs fam c rl a" "Proto rl = proto" "Port rl = q" "sm_ID c = i"
        by (rule target_offers [OF assms(2,3) b])
      with none show False by blast
    qed
    with verdict [OF l4] p show "hook_verdict ''prerouting'' k fam p = None" by (simp add: packet_to_def)
  qed
qed

subsection \<open>The system\<close>

text \<open>
  \<open>sy_hand\<close> is the snapshot the reconciler has received and not applied; \<open>sy_done\<close> what it applied last, and whether
  without an error; \<open>sy_count\<close> counts its reconciles.
\<close>

record anchor_sys =
  sy_disc :: discoverer
  sy_hand :: "(nat \<times> disc_state) option"
  sy_kernel :: nft_kernel
  sy_rec :: reconciler
  sy_done :: "(bool \<times> nat \<times> disc_state) option"
  sy_count :: nat

definition sys_start :: "string list \<Rightarrow> picker \<Rightarrow> docker_view \<Rightarrow> nft_kernel \<Rightarrow> anchor_sys" where
  "sys_start discriminator shared w k =
     \<lparr>sy_disc = disc_New discriminator shared w, sy_hand = None, sy_kernel = k, sy_rec = reconciler_New,
      sy_done = None, sy_count = 0\<rparr>"

text \<open>
  The first rule is every step of discovery and of the daemon but the one in which something is received,
  which is the only one that shortens the channel.
\<close>

inductive sys_step :: "manager \<Rightarrow> anchor_sys \<Rightarrow> anchor_sys \<Rightarrow> bool" for m where
  discovery: "disc_step (sy_disc s) d \<Longrightarrow> length (dr_out (sy_disc s)) \<le> length (dr_out d)
    \<Longrightarrow> sys_step m s (s\<lparr>sy_disc := d\<rparr>)"
| receive: "sy_hand s = None \<Longrightarrow> dr_out (sy_disc s) = x # xs
    \<Longrightarrow> sys_step m s (s\<lparr>sy_disc := (sy_disc s)\<lparr>dr_out := xs, dr_received := Some x\<rparr>, sy_hand := Some x\<rparr>)"
| reconcile: "sy_hand s = Some (n, st) \<Longrightarrow> range_perm rngS \<Longrightarrow> range_perm rngD
    \<Longrightarrow> reconcile_apply (SetMap (nft_flush accept) m) rngS rngD st (sy_rec s) (sy_kernel s) = (e, k', r', fl)
    \<Longrightarrow> sys_step m s (s\<lparr>sy_hand := None, sy_kernel := k', sy_rec := r',
          sy_done := Some (e = None, n, st), sy_count := Suc (sy_count s)\<rparr>)"

inductive sys_run :: "manager \<Rightarrow> anchor_sys \<Rightarrow> anchor_sys \<Rightarrow> bool" for m s0 where
  sys_nil: "sys_run m s0 s0"
| sys_more: "sys_run m s0 s \<Longrightarrow> sys_step m s s' \<Longrightarrow> sys_run m s0 s'"

lemma sys_run_trans: "sys_run m s1 s2 \<Longrightarrow> sys_run m s0 s1 \<Longrightarrow> sys_run m s0 s2"
  by (induction rule: sys_run.induct) (auto intro: sys_more)

subsection \<open>The invariant\<close>

lemma disc_step_view:
  "disc_step d d' \<Longrightarrow> same_view d d' \<or> (\<exists>w. d' = d\<lparr>dr_docker := w, dr_changes := Suc (dr_changes d)\<rparr>)"
  by (induction rule: disc_step.induct) (auto simp: same_view_def pick_write_def)

lemma accurate_item_step: "disc_step d d' \<Longrightarrow> accurate_item d x \<Longrightarrow> accurate_item d' x"
  using disc_step_view [of d d'] accurate_item_cong [of d d'] by (metis accurate_changed(1))

definition sys_inv :: "manager \<Rightarrow> anchor_sys \<Rightarrow> bool" where
  "sys_inv m s \<longleftrightarrow> accurate (sy_disc s) \<and> nat_inv m (sy_kernel s)
     \<and> (\<forall>x. sy_hand s = Some x \<longrightarrow> accurate_item (sy_disc s) x)
     \<and> (\<forall>ok n st. sy_done s = Some (ok, n, st) \<longrightarrow> accurate_item (sy_disc s) (n, st)
          \<and> (ok \<longrightarrow> kernel_shows m (sy_kernel s) st))"

lemma sys_inv_start: "picker_inv p \<Longrightarrow> nat_inv m k \<Longrightarrow> sys_inv m (sys_start d p w k)"
  by (simp add: sys_inv_def sys_start_def accurate_New)

lemma sys_inv_step: "sys_step m s s' \<Longrightarrow> sys_inv m s \<Longrightarrow> sys_inv m s'"
proof (induction rule: sys_step.induct)
  case (discovery s d)
  then show ?case
    using accurate_step [OF discovery(1)] accurate_item_step [OF discovery(1)] by (simp add: sys_inv_def)
next
  case (receive s x xs)
  let ?d = "(sy_disc s)\<lparr>dr_out := xs, dr_received := Some x\<rparr>"
  have step: "disc_step (sy_disc s) ?d" by (rule disc_step.received [OF receive(2)])
  have "accurate_item (sy_disc s) x" using receive(2,3) by (simp add: sys_inv_def accurate_def)
  with receive(3) show ?case
    using accurate_step [OF step] accurate_item_step [OF step] by (simp add: sys_inv_def)
next
  case (reconcile s n st rngS rngD accept e k' r' fl)
  have k: "nat_inv m (sy_kernel s)" using reconcile(5) by (simp add: sys_inv_def)
  have "nat_inv m k'" using nat_maps.apply_prefix [OF reconcile(4) k] by blast
  moreover have "kernel_shows m k' st" if "e = None"
    using kernel_shows_apply [OF k reconcile(2,3) reconcile(4) [unfolded that]] .
  ultimately show ?case using reconcile(1,5) by (simp add: sys_inv_def)
qed

lemma sys_inv_run: "sys_run m s0 s \<Longrightarrow> sys_inv m s0 \<Longrightarrow> sys_inv m s"
  by (induction rule: sys_run.induct) (auto intro: sys_inv_step)

text \<open>What the run leaves alone.\<close>

lemma disc_step_fixed:
  "disc_step d d' \<Longrightarrow> dr_discriminator d' = dr_discriminator d
    \<and> candidates (dr_shared d') = candidates (dr_shared d) \<and> pinned (dr_shared d') = pinned (dr_shared d)
    \<and> dr_changes d \<le> dr_changes d'"
  by (induction rule: disc_step.induct) (auto simp: pick_write_def)

lemma sys_run_fixed:
  "sys_run m s0 s \<Longrightarrow> dr_discriminator (sy_disc s) = dr_discriminator (sy_disc s0)
    \<and> candidates (dr_shared (sy_disc s)) = candidates (dr_shared (sy_disc s0))
    \<and> pinned (dr_shared (sy_disc s)) = pinned (dr_shared (sy_disc s0))
    \<and> dr_changes (sy_disc s0) \<le> dr_changes (sy_disc s)"
proof (induction rule: sys_run.induct)
  case (sys_more s s')
  from sys_more(2) show ?case
    by (cases rule: sys_step.cases) (use sys_more(3) disc_step_fixed in \<open>fastforce+\<close>)
qed simp

subsection \<open>Convergence\<close>

text \<open>
  A picker that has something to answer. Which network that is has to be settled for the daemon's list
  \<open>cs\<close>: \<open>picks\<close> says it of one picker, \<open>steady\<close> of everything that is under way in discovery.
\<close>

definition usable :: "picker \<Rightarrow> bool" where
  "usable p \<longleftrightarrow> pinned p \<noteq> [] \<or> candidates p \<noteq> [] \<and> [] \<notin> set (candidates p)"

lemma usable_cong: "candidates q = candidates p \<Longrightarrow> pinned q = pinned p \<Longrightarrow> usable q = usable p"
  by (simp add: usable_def)

lemma Pick_nonempty: "picker_inv p \<Longrightarrow> usable p \<Longrightarrow> fst (Pick m p) \<noteq> []"
  using Pick_mem [of p m] by (auto simp: usable_def Pick_def)

lemma right_network_usable:
  "picker_inv p \<Longrightarrow> usable p \<Longrightarrow> right_network p (countBackendsPerNetwork cs) (fst (Pick (countBackendsPerNetwork cs) p))"
  using right_network_Pick [OF _ _ countBackends_nonneg] by (auto simp: usable_def)

definition picks :: "net_counts \<Rightarrow> string \<Rightarrow> picker \<Rightarrow> bool" where
  "picks counts net p \<longleftrightarrow> picker_inv p \<and> fst (Pick counts p) = net"

text \<open>Writes of pickers that agree on the network agree, whichever comes first.\<close>

lemma picks_write:
  assumes "picks m net p" "picks m net cur" "candidates p = candidates cur" "pinned p = pinned cur"
  shows "picks m net (pick_write p (snd (Pick m p)) cur)"
proof -
  let ?p' = "snd (Pick m p)"
  have "fst (Pick m (pick_write p ?p' cur)) = net"
  proof (cases "pinned p = [] \<and> (candidates p = [] \<or> settled p)")
    case True
    then show ?thesis using assms(2) by (simp add: pick_write_def picks_def)
  next
    case False
    have c: "chosen ?p' = net" using picker.pick_chosen [of p m] assms(1) by (simp add: picks_def)
    have w: "pick_write p ?p' cur = cur\<lparr>chosen := net, settled := settled cur \<or> settled ?p'\<rparr>"
      unfolding pick_write_def using False c by (simp only: if_False)
    show ?thesis
    proof (cases "pinned cur = [] \<and> \<not> settled cur \<and> \<not> settled ?p'")
      case True
      then have "fst (Pick m (cur\<lparr>chosen := net, settled := False\<rparr>)) = fst (Pick m cur)"
        by (simp add: Pick_def split: prod.split option.split)
      then show ?thesis using True assms(2) by (simp add: w picks_def)
    next
      case False': False
      have "net = pinned p" if "pinned p \<noteq> []" using that assms(1) by (simp add: picks_def Pick_def)
      with False False' assms(3,4) show ?thesis
        unfolding w by (cases "pinned cur = []") (simp_all add: Pick_def)
    qed
  qed
  then show ?thesis
    using pick_write_inv(1) assms by (simp add: picks_def)
qed

definition taken :: "string \<Rightarrow> summary list \<Rightarrow> discoverer \<Rightarrow> disc_state \<Rightarrow> bool" where
  "taken net cs d st \<longleftrightarrow> (\<exists>rng. st = snapshot_backends rng net (inspectNetworkSettings (snd (dr_docker d))) cs)"

fun steady_phase :: "string \<Rightarrow> summary list \<Rightarrow> discoverer \<Rightarrow> phase \<Rightarrow> bool" where
  "steady_phase net cs d Idle \<longleftrightarrow> True"
| "steady_phase net cs d (Listed n l) \<longleftrightarrow> n = dr_changes d \<and> l = cs"
| "steady_phase net cs d (Reading n l p) \<longleftrightarrow> n = dr_changes d \<and> l = cs \<and> picks (countBackendsPerNetwork cs) net p
     \<and> candidates p = candidates (dr_shared d) \<and> pinned p = pinned (dr_shared d)"
| "steady_phase net cs d (Built n st) \<longleftrightarrow> taken net cs d st"

definition steady :: "string \<Rightarrow> summary list \<Rightarrow> discoverer \<Rightarrow> bool" where
  "steady net cs d \<longleftrightarrow> fst (dr_docker d) (buildSnapshotFilter (dr_discriminator d)) = Inr cs
     \<and> picks (countBackendsPerNetwork cs) net (dr_shared d)
     \<and> (\<forall>g. steady_phase net cs d (dr_phase d g)) \<and> (\<forall>x \<in> set (dr_out d). taken net cs d (snd x))"

lemma steady_phase_cong:
  "dr_docker d' = dr_docker d \<Longrightarrow> dr_changes d' = dr_changes d \<Longrightarrow> candidates (dr_shared d') = candidates (dr_shared d)
    \<Longrightarrow> pinned (dr_shared d') = pinned (dr_shared d) \<Longrightarrow> steady_phase net cs d' ph = steady_phase net cs d ph"
  by (cases ph) (simp_all add: taken_def)

lemma steady_at: "steady net cs d \<Longrightarrow> dr_phase d g = ph \<Longrightarrow> steady_phase net cs d ph"
  by (auto simp: steady_def)

lemma steady_kept:
  assumes "steady net cs d" "dr_docker d' = dr_docker d" "dr_discriminator d' = dr_discriminator d" "dr_changes d' = dr_changes d"
    and "candidates (dr_shared d') = candidates (dr_shared d)" "pinned (dr_shared d') = pinned (dr_shared d)"
    and "picks (countBackendsPerNetwork cs) net (dr_shared d')"
    and "\<And>g. steady_phase net cs d (dr_phase d' g)" "\<And>x. x \<in> set (dr_out d') \<Longrightarrow> taken net cs d (snd x)"
  shows "steady net cs d'"
  using assms steady_phase_cong [OF assms(2,4,5,6)] by (auto simp: steady_def taken_def)

text \<open>Steps that at most empty the channel, end a snapshot, or set a flag.\<close>

lemma steady_fewer:
  assumes "steady net cs d" "dr_docker d' = dr_docker d" "dr_discriminator d' = dr_discriminator d" "dr_changes d' = dr_changes d"
    and "dr_shared d' = dr_shared d" "set (dr_out d') \<subseteq> set (dr_out d)"
    and "\<And>g. dr_phase d' g = Idle \<or> dr_phase d' g = dr_phase d g"
  shows "steady net cs d'"
proof (rule steady_kept [OF assms(1-4)])
  show "steady_phase net cs d (dr_phase d' g)" for g
    using assms(1) assms(7) [of g] by (auto simp: steady_def)
qed (use assms(1,5,6) in \<open>auto simp: steady_def\<close>)

lemma steady_step:
  "disc_step d d' \<Longrightarrow> dr_changes d' = dr_changes d \<Longrightarrow> steady net cs d \<Longrightarrow> steady net cs d' \<and> dr_docker d' = dr_docker d"
proof (induction rule: disc_step.induct)
  case (changed s w)
  then show ?case by simp
next
  case (listed s g list)
  then show ?case
    by (intro conjI steady_kept [OF listed(5)]) (auto simp: steady_def)
next
  case (reading s g n list)
  with steady_at [OF reading(3,1)] show ?case
    by (intro conjI steady_kept [OF reading(3)]) (auto simp: steady_def)
next
  case (built s g n list p rng insp st p')
  then have at: "n = dr_changes s" "list = cs" "picks (countBackendsPerNetwork cs) net p"
    "candidates p = candidates (dr_shared s)" "pinned p = pinned (dr_shared s)"
    using steady_at [OF built(6,1)] by simp_all
  have snap: "st = snapshot_backends rng net (inspectNetworkSettings (snd (dr_docker s))) cs"
    "p' = snd (Pick (countBackendsPerNetwork cs) p)"
    using built(3,4) at(1-3) by (auto simp: snapshot_def Let_def picks_def split: prod.splits)
  have "picks (countBackendsPerNetwork cs) net (pick_write p p' (dr_shared s))"
    unfolding snap(2) by (rule picks_write [OF at(3) _ at(4,5)]) (use built(6) in \<open>simp add: steady_def\<close>)
  moreover have "taken net cs s st" unfolding taken_def using snap(1) by blast
  ultimately show ?case
    using built(6) by (intro conjI steady_kept [OF built(6)]) (auto simp: steady_def pick_write_def)
next
  case (sent s g n st)
  with steady_at [OF sent(5,1)] show ?case
    by (intro conjI steady_kept [OF sent(5)]) (auto simp: steady_def)
qed (rule conjI, erule steady_fewer; auto)+

definition steady_sys :: "string \<Rightarrow> summary list \<Rightarrow> nat \<Rightarrow> anchor_sys \<Rightarrow> bool" where
  "steady_sys net cs c s \<longleftrightarrow> steady net cs (sy_disc s)
     \<and> (\<forall>x. sy_hand s = Some x \<longrightarrow> taken net cs (sy_disc s) (snd x))
     \<and> (\<forall>ok n st. sy_done s = Some (ok, n, st) \<longrightarrow> sy_count s \<noteq> c \<longrightarrow> taken net cs (sy_disc s) st)"

lemma steady_sys_step:
  "sys_step m s s' \<Longrightarrow> dr_changes (sy_disc s') = dr_changes (sy_disc s) \<Longrightarrow> steady_sys net cs c s
    \<Longrightarrow> steady_sys net cs c s' \<and> dr_docker (sy_disc s') = dr_docker (sy_disc s)"
proof (induction rule: sys_step.induct)
  case (discovery s d)
  then have "steady net cs d \<and> dr_docker d = dr_docker (sy_disc s)"
    by (intro steady_step [OF discovery(1)]) (simp_all add: steady_sys_def)
  with discovery(4) show ?case by (simp add: steady_sys_def taken_def)
next
  case (receive s x xs)
  let ?d = "(sy_disc s)\<lparr>dr_out := xs, dr_received := Some x\<rparr>"
  have "steady net cs ?d"
    using receive(4) steady_step [OF disc_step.received [OF receive(2)]] by (simp add: steady_sys_def)
  moreover have "taken net cs (sy_disc s) (snd x)" using receive(2,4) by (simp add: steady_sys_def steady_def)
  ultimately show ?case using receive(4) by (simp add: steady_sys_def taken_def)
next
  case (reconcile s n st rngS rngD accept e k' r' fl)
  then show ?case by (simp add: steady_sys_def)
qed

lemma steady_sys_run:
  "sys_run m s0 s \<Longrightarrow> dr_changes (sy_disc s) = dr_changes (sy_disc s0) \<Longrightarrow> steady_sys net cs c s0
    \<Longrightarrow> steady_sys net cs c s \<and> dr_docker (sy_disc s) = dr_docker (sy_disc s0)"
proof (induction rule: sys_run.induct)
  case (sys_more s s')
  have "dr_changes (sy_disc s) \<le> dr_changes (sy_disc s')"
    using sys_run_fixed [OF sys_run.sys_more [OF sys_nil sys_more(2)]] by blast
  then have "dr_changes (sy_disc s) = dr_changes (sy_disc s0)"
    using sys_run_fixed [OF sys_more(1)] sys_more(4) by simp
  with sys_more show ?case using steady_sys_step [OF sys_more(2)] by auto
qed simp

text \<open>A reconcile of what the daemon lists, without an error, is what the anchor is for.\<close>

lemma taken_forwards:
  assumes "sys_inv m s" "sy_done s = Some (True, n, st)" "taken net cs (sy_disc s) st" "net \<noteq> []" "distinct (map sm_ID cs)"
  shows "forwards_exposed m (sy_kernel s) (inspectNetworkSettings (snd (dr_docker (sy_disc s)))) net cs"
  using assms shows_forwards by (auto simp: sys_inv_def taken_def)

text \<open>Nothing on its way: no goroutine has begun a snapshot, the channel and the reconciler's hand are empty.\<close>

definition nothing_under_way :: "anchor_sys \<Rightarrow> bool" where
  "nothing_under_way s \<longleftrightarrow> (\<forall>g. dr_phase (sy_disc s) g = Idle) \<and> dr_out (sy_disc s) = [] \<and> sy_hand s = None"

definition sy_ok :: "anchor_sys \<Rightarrow> bool" where
  "sy_ok s \<longleftrightarrow> (\<exists>x. sy_done s = Some (True, x))"

text \<open>C2. The data plane converges: run the network anchor from its start to a state in which nothing is on its way, and
  from there, the daemon being quiet, to any state after at least one more reconcile, the last of which returned no error.
  Let \<open>net\<close> be the pinned network if there is one, else the one the picker had settled on, else the best
  candidate for what the daemon lists (most exposing containers, then \<open>transit\<close> in the name, then the
  alphabet). Then a packet for a port that exactly one listed container exposes in the packet's family goes to that
  container's address on \<open>net\<close> and to the port of its label; a packet for a port that none exposes
  there, for want of an address of the family on \<open>net\<close> or because its label keeps it off IPv6, is
  left alone. This holds in every interleaving of the goroutines, and whatever the kernel refused before. A
  picker that has settled on a network which no listed container is on keeps it.\<close>

theorem system_converges:
  assumes "nat_inv m k" "picker_inv p" "usable p"
    and "sys_run m (sys_start disc p w k) s" "nothing_under_way s"
    and "sys_run m s s'" "dr_changes (sy_disc s') = dr_changes (sy_disc s)" "sy_count s' \<noteq> sy_count s" "sy_ok s'"
    and "fst (dr_docker (sy_disc s)) (buildSnapshotFilter disc) = Inr cs" "distinct (map sm_ID cs)"
  shows "\<exists>net. right_network (dr_shared (sy_disc s)) (countBackendsPerNetwork cs) net
    \<and> forwards_exposed m (sy_kernel s') (inspectNetworkSettings (snd (dr_docker (sy_disc s)))) net cs"
proof -
  let ?q = "dr_shared (sy_disc s)" and ?net = "fst (Pick (countBackendsPerNetwork cs) (dr_shared (sy_disc s)))"
  have fixed: "dr_discriminator (sy_disc s) = disc" "candidates ?q = candidates p" "pinned ?q = pinned p"
    using sys_run_fixed [OF assms(4)] by (simp_all add: sys_start_def disc_New_def)
  have inv: "sys_inv m s" by (rule sys_inv_run [OF assms(4) sys_inv_start [OF assms(2,1)]])
  then have q: "picker_inv ?q" "usable ?q"
    using usable_cong [OF fixed(2,3)] assms(3) by (simp_all add: sys_inv_def accurate_def)
  have "steady_sys ?net cs (sy_count s) s"
    using assms(5,10) fixed(1) q(1) by (auto simp: steady_sys_def steady_def nothing_under_way_def picks_def)
  from steady_sys_run [OF assms(6,7) this] assms(8)
  have s': "dr_docker (sy_disc s') = dr_docker (sy_disc s)"
    "\<And>ok n st. sy_done s' = Some (ok, n, st) \<Longrightarrow> taken ?net cs (sy_disc s') st" by (auto simp: steady_sys_def)
  obtain n st where "sy_done s' = Some (True, n, st)" using assms(9) by (auto simp: sy_ok_def)
  from taken_forwards [OF sys_inv_run [OF assms(6) inv] this s'(2) [OF this] Pick_nonempty [OF q] assms(11)]
  show ?thesis using right_network_usable [OF q] s'(1) by auto
qed

subsection \<open>Recovery\<close>

text \<open>A run in which the daemon does not change and the channel stays as open as it was.\<close>

definition quiet_run :: "manager \<Rightarrow> anchor_sys \<Rightarrow> anchor_sys \<Rightarrow> bool" where
  "quiet_run m s s' \<longleftrightarrow> sys_run m s s' \<and> dr_docker (sy_disc s') = dr_docker (sy_disc s)
     \<and> dr_changes (sy_disc s') = dr_changes (sy_disc s) \<and> dr_closed (sy_disc s') = dr_closed (sy_disc s)"

lemma quiet_refl: "quiet_run m s s"
  by (simp add: quiet_run_def sys_nil)

lemma quiet_trans: "quiet_run m s1 s2 \<Longrightarrow> quiet_run m s2 s3 \<Longrightarrow> quiet_run m s1 s3"
  by (auto simp: quiet_run_def intro: sys_run_trans)

lemma quiet_discovery:
  assumes "disc_step (sy_disc s) d" "length (dr_out (sy_disc s)) \<le> length (dr_out d)"
    and "dr_docker d = dr_docker (sy_disc s)" "dr_changes d = dr_changes (sy_disc s)" "dr_closed d = dr_closed (sy_disc s)"
  shows "quiet_run m s (s\<lparr>sy_disc := d\<rparr>)"
  using sys_more [OF sys_nil sys_step.discovery [OF assms(1,2)]] assms(3-5) by (simp add: quiet_run_def)

text \<open>The reconciler can always finish what it has in hand.\<close>

lemma free_hand:
  "\<exists>s'. quiet_run m s s' \<and> sy_disc s' = sy_disc s \<and> sy_hand s' = None"
proof (cases "sy_hand s")
  case None
  then show ?thesis using quiet_refl by blast
next
  case (Some x)
  obtain n st where x: "x = (n, st)" by (cases x)
  obtain e k' r' fl where r: "reconcile_apply (SetMap (nft_flush (\<lambda>_ _. True)) m) (\<lambda>xs. xs) (\<lambda>xs. xs) st (sy_rec s) (sy_kernel s)
      = (e, k', r', fl)"
    by (cases "reconcile_apply (SetMap (nft_flush (\<lambda>_ _. True)) m) (\<lambda>xs. xs) (\<lambda>xs. xs) st (sy_rec s) (sy_kernel s)")
  have "sys_step m s (s\<lparr>sy_hand := None, sy_kernel := k', sy_rec := r', sy_done := Some (e = None, n, st),
      sy_count := Suc (sy_count s)\<rparr>)"
    by (rule sys_step.reconcile [OF Some [unfolded x] _ _ r]) simp_all
  from sys_more [OF sys_nil this] show ?thesis
    by (intro exI [of _ "s\<lparr>sy_hand := None, sy_kernel := k', sy_rec := r', sy_done := Some (e = None, n, st),
      sy_count := Suc (sy_count s)\<rparr>"]) (simp add: quiet_run_def)
qed

text \<open>It can then empty the channel.\<close>

lemma drain_channel:
  "\<exists>s'. quiet_run m s s' \<and> dr_phase (sy_disc s') = dr_phase (sy_disc s) \<and> dr_out (sy_disc s') = []
    \<and> sy_hand s' = None \<and> dr_shared (sy_disc s') = dr_shared (sy_disc s)"
proof (induction "dr_out (sy_disc s)" arbitrary: s)
  case Nil
  then show ?case using free_hand [of m s] by fastforce
next
  case (Cons x xs)
  obtain t where t: "quiet_run m s t" "sy_disc t = sy_disc s" "sy_hand t = None" using free_hand by blast
  let ?u = "t\<lparr>sy_disc := (sy_disc t)\<lparr>dr_out := xs, dr_received := Some x\<rparr>, sy_hand := Some x\<rparr>"
  have "sys_step m t ?u" by (rule sys_step.receive) (use t Cons(2) in auto)
  then have u: "quiet_run m t ?u" using sys_more [OF sys_nil] by (simp add: quiet_run_def)
  obtain s' where "quiet_run m ?u s'" "dr_phase (sy_disc s') = dr_phase (sy_disc ?u)" "dr_out (sy_disc s') = []"
    "sy_hand s' = None" "dr_shared (sy_disc s') = dr_shared (sy_disc ?u)"
    using Cons(1) [of ?u] by auto
  with quiet_trans [OF quiet_trans [OF t(1) u]] t(2) show ?case by auto
qed

text \<open>A snapshot of the poll goroutine that is under way can be finished and sent.\<close>

definition fresh_snapshot :: "anchor_sys \<Rightarrow> summary list \<Rightarrow> picker \<Rightarrow> disc_state" where
  "fresh_snapshot s cs q = snapshot_backends (\<lambda>ns. ns) (fst (Pick (countBackendsPerNetwork cs) q))
     (inspectNetworkSettings (snd (dr_docker (sy_disc s)))) cs"

lemma finish_built:
  assumes "dr_phase (sy_disc s) PollLoop = Built n st" "\<not> dr_closed (sy_disc s)" "dr_out (sy_disc s) = []"
  shows "\<exists>s'. quiet_run m s s' \<and> dr_phase (sy_disc s') PollLoop = Idle \<and> sy_hand s' = sy_hand s
    \<and> dr_out (sy_disc s') = [(n, st)] \<and> dr_shared (sy_disc s') = dr_shared (sy_disc s)"
proof -
  let ?d = "(sy_disc s)\<lparr>dr_phase := (dr_phase (sy_disc s))(PollLoop := Idle), dr_out := dr_out (sy_disc s) @ [(n, st)]\<rparr>"
  have "disc_step (sy_disc s) ?d"
    by (rule disc_step.sent) (use assms in \<open>simp_all add: out_capacity_def\<close>)
  then have "quiet_run m s (s\<lparr>sy_disc := ?d\<rparr>)" by (rule quiet_discovery) simp_all
  then show ?thesis using assms(3) by (intro exI [of _ "s\<lparr>sy_disc := ?d\<rparr>"]) simp
qed

lemma finish_reading:
  assumes "dr_phase (sy_disc s) PollLoop = Reading n l p" "\<not> dr_closed (sy_disc s)" "dr_out (sy_disc s) = []"
  shows "\<exists>s'. quiet_run m s s' \<and> dr_phase (sy_disc s') PollLoop = Idle \<and> sy_hand s' = sy_hand s
    \<and> dr_out (sy_disc s') = [(n, fresh_snapshot s l p)]
    \<and> dr_shared (sy_disc s') = pick_write p (snd (Pick (countBackendsPerNetwork l) p)) (dr_shared (sy_disc s))"
proof -
  let ?p' = "snd (Pick (countBackendsPerNetwork l) p)" and ?st = "fresh_snapshot s l p"
  have sn: "snapshot Pick (\<lambda>ns. ns) (\<lambda>_. Inr l :: string + summary list) (snd (dr_docker (sy_disc s)))
      (dr_discriminator (sy_disc s)) p = (Inr ?st, ?p')"
    by (simp add: snapshot_def Let_def fresh_snapshot_def split: prod.split)
  let ?d = "(sy_disc s)\<lparr>dr_phase := (dr_phase (sy_disc s))(PollLoop := Built n ?st),
      dr_shared := pick_write p ?p' (dr_shared (sy_disc s))\<rparr>"
  have "disc_step (sy_disc s) ?d"
    by (rule disc_step.built [OF assms(1) _ _ sn]) (simp_all add: map_order_of_def)
  then have d: "quiet_run m s (s\<lparr>sy_disc := ?d\<rparr>)" by (rule quiet_discovery) simp_all
  from finish_built [of "s\<lparr>sy_disc := ?d\<rparr>" n ?st m] assms(2,3) quiet_trans [OF d]
  show ?thesis by auto
qed

lemma finish_listed:
  assumes "dr_phase (sy_disc s) PollLoop = Listed n l" "\<not> dr_closed (sy_disc s)" "dr_out (sy_disc s) = []"
  shows "\<exists>s'. quiet_run m s s' \<and> dr_phase (sy_disc s') PollLoop = Idle \<and> sy_hand s' = sy_hand s
    \<and> dr_out (sy_disc s') = [(n, fresh_snapshot s l (dr_shared (sy_disc s)))]
    \<and> dr_shared (sy_disc s') = snd (Pick (countBackendsPerNetwork l) (dr_shared (sy_disc s)))"
proof -
  let ?d = "(sy_disc s)\<lparr>dr_phase := (dr_phase (sy_disc s))(PollLoop := Reading n l (dr_shared (sy_disc s)))\<rparr>"
  have "disc_step (sy_disc s) ?d" by (rule disc_step.reading [OF assms(1)])
  then have d: "quiet_run m s (s\<lparr>sy_disc := ?d\<rparr>)" by (rule quiet_discovery) simp_all
  from finish_reading [of "s\<lparr>sy_disc := ?d\<rparr>" n l "dr_shared (sy_disc s)" m] assms(2,3) quiet_trans [OF d]
  show ?thesis by (auto simp: pick_write_alone fresh_snapshot_def)
qed

lemma poll_idle:
  assumes "\<not> dr_closed (sy_disc s)"
  shows "\<exists>s'. quiet_run m s s' \<and> dr_phase (sy_disc s') PollLoop = Idle \<and> sy_hand s' = None \<and> dr_out (sy_disc s') = []
    \<and> (dr_phase (sy_disc s) PollLoop = Idle \<longrightarrow> dr_shared (sy_disc s') = dr_shared (sy_disc s))"
proof -
  obtain t where t: "quiet_run m s t" "dr_out (sy_disc t) = []" "sy_hand t = None"
    "dr_phase (sy_disc t) = dr_phase (sy_disc s)" "dr_shared (sy_disc t) = dr_shared (sy_disc s)"
    using drain_channel by blast
  have open_t: "\<not> dr_closed (sy_disc t)" using t(1) assms by (simp add: quiet_run_def)
  have "\<exists>u. quiet_run m t u \<and> dr_phase (sy_disc u) PollLoop = Idle
      \<and> (dr_phase (sy_disc t) PollLoop = Idle \<longrightarrow> dr_shared (sy_disc u) = dr_shared (sy_disc t))"
  proof (cases "dr_phase (sy_disc t) PollLoop")
    case Idle
    then show ?thesis using quiet_refl by blast
  next
    case (Listed n l)
    from finish_listed [OF this open_t t(2)] Listed show ?thesis by auto
  next
    case (Reading n l p)
    from finish_reading [OF this open_t t(2)] Reading show ?thesis by auto
  next
    case (Built n st)
    from finish_built [OF this open_t t(2)] Built show ?thesis by auto
  qed
  then obtain u where u: "quiet_run m t u" "dr_phase (sy_disc u) PollLoop = Idle"
    "dr_phase (sy_disc t) PollLoop = Idle \<longrightarrow> dr_shared (sy_disc u) = dr_shared (sy_disc t)" by blast
  obtain v where "quiet_run m u v" "dr_phase (sy_disc v) = dr_phase (sy_disc u)" "dr_out (sy_disc v) = []" "sy_hand v = None"
    "dr_shared (sy_disc v) = dr_shared (sy_disc u)"
    using drain_channel by blast
  with u t(4,5) quiet_trans [OF quiet_trans [OF t(1) u(1)]] show ?thesis by metis
qed

text \<open>So a fresh snapshot can be in the reconciler's hand, taken with the picker as it is when the list is read.\<close>

lemma fresh_in_hand:
  assumes "sys_inv m s" "\<not> dr_closed (sy_disc s)"
    and "fst (dr_docker (sy_disc s)) (buildSnapshotFilter (dr_discriminator (sy_disc s))) = Inr cs"
  shows "\<exists>s' q. quiet_run m s s' \<and> sy_hand s' = Some (dr_changes (sy_disc s'), fresh_snapshot s cs q)
    \<and> picker_inv q \<and> dr_shared (sy_disc s') = snd (Pick (countBackendsPerNetwork cs) q)
    \<and> (dr_phase (sy_disc s) PollLoop = Idle \<longrightarrow> q = dr_shared (sy_disc s))"
proof -
  obtain t where t: "quiet_run m s t" "dr_phase (sy_disc t) PollLoop = Idle" "sy_hand t = None" "dr_out (sy_disc t) = []"
    "dr_phase (sy_disc s) PollLoop = Idle \<longrightarrow> dr_shared (sy_disc t) = dr_shared (sy_disc s)"
    using poll_idle [OF assms(2)] by blast
  have same: "\<not> dr_closed (sy_disc t)" "dr_docker (sy_disc t) = dr_docker (sy_disc s)"
    "dr_discriminator (sy_disc t) = dr_discriminator (sy_disc s)"
    using t(1) assms(2) sys_run_fixed [of m s t] by (simp_all add: quiet_run_def)
  have "sys_inv m t" using sys_inv_run t(1) assms(1) by (auto simp: quiet_run_def)
  then have q: "picker_inv (dr_shared (sy_disc t))" by (simp add: sys_inv_def accurate_def)
  let ?d = "(sy_disc t)\<lparr>dr_phase := (dr_phase (sy_disc t))(PollLoop := Listed (dr_changes (sy_disc t)) cs)\<rparr>"
  let ?x = "(dr_changes (sy_disc t), fresh_snapshot s cs (dr_shared (sy_disc t)))"
  have "disc_step (sy_disc t) ?d"
    by (rule disc_step.listed) (use t(2) same assms(3) in simp_all)
  then have d: "quiet_run m t (t\<lparr>sy_disc := ?d\<rparr>)" by (rule quiet_discovery) simp_all
  obtain u where u: "quiet_run m (t\<lparr>sy_disc := ?d\<rparr>) u" "sy_hand u = None" "dr_out (sy_disc u) = [?x]"
    "dr_shared (sy_disc u) = snd (Pick (countBackendsPerNetwork cs) (dr_shared (sy_disc t)))"
    using finish_listed [of "t\<lparr>sy_disc := ?d\<rparr>" "dr_changes (sy_disc t)" cs m] same(1,2) t(3,4)
    by (auto simp: fresh_snapshot_def)
  let ?v = "u\<lparr>sy_disc := (sy_disc u)\<lparr>dr_out := [], dr_received := Some ?x\<rparr>, sy_hand := Some ?x\<rparr>"
  have "sys_step m u ?v" by (rule sys_step.receive [OF u(2,3)])
  then have "quiet_run m u ?v" using sys_more [OF sys_nil] by (simp add: quiet_run_def)
  moreover have "dr_changes (sy_disc u) = dr_changes (sy_disc t)" using u(1) by (simp add: quiet_run_def)
  ultimately show ?thesis
    using quiet_trans [OF quiet_trans [OF quiet_trans [OF t(1) d] u(1)]] q t(5) u(4)
    by (intro exI [of _ ?v] exI [of _ "dr_shared (sy_disc t)"]) simp
qed

text \<open>The daemon reports addresses of the right family.\<close>

definition typed_pair :: "net_ip \<times> net_ip \<Rightarrow> bool" where
  "typed_pair vs \<longleftrightarrow> (fst vs = [] \<or> to4 (fst vs) \<noteq> []) \<and> (snd vs = [] \<or> to4 (snd vs) = [] \<and> to16 (snd vs) \<noteq> [])"

definition typed_addrs :: "(string \<Rightarrow> net_settings option) \<Rightarrow> summary list \<Rightarrow> bool" where
  "typed_addrs ins cs \<longleftrightarrow> (\<forall>net. \<forall>c \<in> set cs. typed_pair (shared_addrs ins net c))"

lemma snapshot_wf:
  assumes "net \<noteq> []" "distinct (map sm_ID cs)" "typed_addrs ins cs"
  shows "\<forall>(i, b) \<in> set (snapshot_backends rng net ins cs). wf_backend b"
proof clarify
  fix i b
  assume "(i, b) \<in> set (snapshot_backends rng net ins cs)"
  then obtain c where c: "c \<in> set cs" "Parse (sm_Labels c) = Inr (Some (bk_Spec b))"
    "(bk_IPv4 b, bk_IPv6 b) = shared_addrs ins net c"
    by (rule snapshot_mem [OF assms(1,2)])
  have "typed_pair (bk_IPv4 b, bk_IPv6 b)"
    using assms(3) c(1) unfolding c(3) typed_addrs_def by blast
  with Parse_rules_wf [OF c(2)] show "wf_backend b" by (simp add: wf_backend_def typed_pair_def)
qed

lemma fresh_reconciled:
  assumes inv: "sys_inv m s" and use: "usable (dr_shared (sy_disc s))" and opn: "\<not> dr_closed (sy_disc s)"
    and list: "fst (dr_docker (sy_disc s)) (buildSnapshotFilter (dr_discriminator (sy_disc s))) = Inr cs" "distinct (map sm_ID cs)"
    and typed: "typed_addrs (inspectNetworkSettings (snd (dr_docker (sy_disc s)))) cs"
  shows "\<exists>s' q. quiet_run m s s' \<and> sys_inv m s' \<and> sy_done s' = Some (True, dr_changes (sy_disc s'), fresh_snapshot s cs q)
    \<and> picker_inv q \<and> usable q \<and> dr_shared (sy_disc s') = snd (Pick (countBackendsPerNetwork cs) q)
    \<and> (dr_phase (sy_disc s) PollLoop = Idle \<longrightarrow> q = dr_shared (sy_disc s))"
proof -
  obtain t q where t: "quiet_run m s t" "sy_hand t = Some (dr_changes (sy_disc t), fresh_snapshot s cs q)"
    "picker_inv q" "dr_shared (sy_disc t) = snd (Pick (countBackendsPerNetwork cs) q)"
    "dr_phase (sy_disc s) PollLoop = Idle \<longrightarrow> q = dr_shared (sy_disc s)"
    using fresh_in_hand [OF inv opn list(1)] by blast
  let ?st = "fresh_snapshot s cs q"
  have inv_t: "sys_inv m t" using sys_inv_run t(1) inv by (auto simp: quiet_run_def)
  then have k: "nat_inv m (sy_kernel t)" by (simp add: sys_inv_def)
  have use_q: "usable q"
    using t(1,4) use sys_run_fixed [of m s t] by (simp add: quiet_run_def usable_def)
  have wf: "\<forall>(i, b) \<in> set ?st. wf_backend b"
    unfolding fresh_snapshot_def by (rule snapshot_wf [OF Pick_nonempty [OF t(3) use_q] list(2) typed])
  let ?o = "reconcile_apply (SetMap (nft_flush (\<lambda>_ _. True)) m) (\<lambda>xs. xs) (\<lambda>xs. xs) ?st (sy_rec t) (sy_kernel t)"
  have "fst (push_maps (SetMap (nft_flush (\<lambda>_ _. True)) m) (\<lambda>xs. xs) (desiredFromState (\<lambda>xs. xs) ?st) map_order (sy_kernel t)) = None"
    using desired_entries_valid [OF _ _ wf]
    by (intro push_maps_succeeds [OF k]) (auto simp: map_order_def l4_proto_def)
  then have "fst ?o = None"
    by (auto simp: reconcile_apply_def Let_def split: prod.splits option.splits)
  then obtain k' r' fl where r: "?o = (None, k', r', fl)" by (cases ?o) simp
  let ?u = "t\<lparr>sy_hand := None, sy_kernel := k', sy_rec := r',
      sy_done := Some (True, dr_changes (sy_disc t), ?st), sy_count := Suc (sy_count t)\<rparr>"
  have step: "sys_step m t ?u"
    using sys_step.reconcile [OF t(2) _ _ r] by simp
  then have "quiet_run m t ?u" using sys_more [OF sys_nil] by (simp add: quiet_run_def)
  with quiet_trans [OF t(1)] sys_inv_step [OF step inv_t] t(3-5) use_q show ?thesis
    by (intro exI [of _ ?u] exI [of _ q]) simp
qed


subsection \<open>Witnesses\<close>

definition demo_view :: docker_view where
  "demo_view = (\<lambda>_. Inr [demo_web], \<lambda>_. None)"

lemma demo_usable: "usable demo_picker"
  by (simp add: usable_def demo_picker_def)

lemma demo_typed: "typed_addrs (inspectNetworkSettings (\<lambda>_. None)) [demo_web]"
proof -
  have len: "length (parse_ip ''172.18.0.5'') = 16" "to4 (parse_ip ''172.18.0.5'') \<noteq> []"
    "to4 (parse_ip ''172.19.0.2'') \<noteq> []"
    using parse_ip_v4_string [of "[172, 18, 0, 5]"] parse_ip_v4_string [of "[172, 19, 0, 2]"]
    by (simp_all add: v4_string_def show_nat.simps digit_char_def char_of_def bit_Suc_0_iff v4in6_prefix_def to4_def)
  then show ?thesis
    by (auto simp: typed_addrs_def typed_pair_def shared_addrs_def addrs_on_def demo_web_def parseIP_def
        has_prefix_def split: option.splits if_splits)
qed

definition demo_sys :: anchor_sys where
  "demo_sys = sys_start [] demo_picker demo_view demo_kernel"

lemma demo_sys_view:
  "fst (dr_docker (sy_disc demo_sys)) f = Inr [demo_web]" "snd (dr_docker (sy_disc demo_sys)) = (\<lambda>_. None)"
  "\<not> dr_closed (sy_disc demo_sys)" "dr_discriminator (sy_disc demo_sys) = []" "dr_shared (sy_disc demo_sys) = demo_picker"
  "sy_count demo_sys = 0" "nothing_under_way demo_sys"
  by (simp_all add: demo_sys_def sys_start_def disc_New_def demo_view_def nothing_under_way_def)

lemma demo_sys_inv: "sys_inv demo_mgr demo_sys"
  unfolding demo_sys_def by (rule sys_inv_start [OF demo_picker_inv demo_inv])

lemma done_count: "sys_run m s0 s \<Longrightarrow> sy_done s0 = None \<Longrightarrow> sy_done s \<noteq> None \<Longrightarrow> sy_count s \<noteq> 0"
proof (induction rule: sys_run.induct)
  case (sys_more s s')
  from sys_more(2) show ?case
    by (cases rule: sys_step.cases) (use sys_more in auto)
qed simp

text \<open>The example's container is on two of the three candidates, and the first in the alphabet is the best.\<close>

lemma demo_right_network:
  "right_network demo_picker (countBackendsPerNetwork [demo_web]) net \<longleftrightarrow> net = ''app''"
proof -
  have "fst (Pick (countBackendsPerNetwork [demo_web]) demo_picker) = ''app''"
    by (simp add: Pick_def demo_picker_def countBackends_eq attached_def demo_web_def
        containsFold_def to_lower_def lower_char_def has_prefix_def)
  then show ?thesis
    using right_network_Pick [OF demo_picker_inv _ countBackends_nonneg] by (simp add: demo_picker_def)
qed

lemma system_converges_witness:
  "\<exists>s'. sys_run demo_mgr demo_sys s' \<and> sy_count s' \<noteq> 0
    \<and> forwards_exposed demo_mgr (sy_kernel s') (inspectNetworkSettings (\<lambda>_. None)) ''app'' [demo_web]"
proof -
  obtain s' q where s': "quiet_run demo_mgr demo_sys s'"
    "sy_done s' = Some (True, dr_changes (sy_disc s'), fresh_snapshot demo_sys [demo_web] q)"
    using fresh_reconciled [OF demo_sys_inv, of "[demo_web]"] demo_typed demo_usable by (auto simp: demo_sys_view)
  then have run: "sys_run demo_mgr demo_sys s'" "dr_changes (sy_disc s') = dr_changes (sy_disc demo_sys)"
    by (simp_all add: quiet_run_def)
  have count: "sy_count s' \<noteq> 0"
    by (rule done_count [OF run(1)]) (simp_all add: s'(2) demo_sys_def sys_start_def)
  have "\<exists>net. right_network (dr_shared (sy_disc demo_sys)) (countBackendsPerNetwork [demo_web]) net
      \<and> forwards_exposed demo_mgr (sy_kernel s') (inspectNetworkSettings (snd (dr_docker (sy_disc demo_sys)))) net [demo_web]"
    by (rule system_converges [OF demo_inv demo_picker_inv demo_usable, where disc = "[]" and w = demo_view])
      (use demo_sys_view count s'(2) run in \<open>simp_all add: demo_sys_def [symmetric] sys_nil sy_ok_def\<close>)
  with run count show ?thesis by (auto simp: demo_sys_view demo_right_network)
qed


end
