(* ===== verification/Observability.thy ===== *)
theory Observability
  imports Forwarding Metrics Health
begin

section \<open>What the network anchor reports about itself\<close>

text \<open>
  The main loop of the reconciler once more, now with what it tells the outside: the counters and gauges that
  \<open>Run\<close> and \<open>apply\<close> of \<open>src/internal/reconciler/reconciler.go\<close> and \<open>FlushDestination\<close> of
  \<open>src/internal/conntrack/conntrack.go\<close> write into the registry of \<open>internal/metrics\<close>, the call of
  \<open>OnReconciled\<close> that main wires to the tracker of \<open>internal/health\<close>, and the conntrack commands. The duration
  histogram is left out. Without the reports the loop is that of theory \<open>Reconciler\<close>
  (\<open>apply_obs_same\<close>).

  Shown: the reports are true (\<open>reports_are_true\<close>), in every run, with any refusals.
\<close>

subsection \<open>The code with its reports\<close>

definition Family_String :: "family \<Rightarrow> string" where
  "Family_String f = (if f = V6 then ''v6'' else ''v4'')"

definition flush_count :: "net_ip \<Rightarrow> mreg \<Rightarrow> mreg" where
  "flush_count ip g =
     (if ip = [] then g
      else inc ''anchord_conntrack_flushes_total'' [if to4 ip = [] then ''v6'' else ''v4''] g)"

fun push_maps_obs :: "(family \<Rightarrow> string \<Rightarrow> dnat_entries \<Rightarrow> 'k \<Rightarrow> 'e option \<times> 'k)
    \<Rightarrow> (desired_map \<Rightarrow> desired_map) \<Rightarrow> desired_map \<Rightarrow> (family \<times> string) list \<Rightarrow> 'k \<Rightarrow> mreg \<Rightarrow> 'e option \<times> 'k \<times> mreg" where
  "push_maps_obs set_map rng desired [] k g = (None, k, g)"
| "push_maps_obs set_map rng desired ((fam, proto) # rest) k g =
     (let entries = entries_for rng fam proto desired in
      case set_map fam proto entries k of
        (Some e, k') \<Rightarrow> (Some e, k', g)
      | (None, k') \<Rightarrow> push_maps_obs set_map rng desired rest k'
            (gauge_set ''anchord_dnat_entries'' [Family_String fam, proto] (int (length entries)) g))"

record 'k observed =
  ob_kernel :: 'k
  ob_rec :: reconciler
  ob_reg :: mreg
  ob_tracker :: tracker
  ob_commands :: "string list list"

definition apply_obs :: "(family \<Rightarrow> string \<Rightarrow> dnat_entries \<Rightarrow> 'k \<Rightarrow> 'e option \<times> 'k)
    \<Rightarrow> (disc_state \<Rightarrow> disc_state) \<Rightarrow> (desired_map \<Rightarrow> desired_map)
    \<Rightarrow> disc_state \<Rightarrow> 'k observed \<Rightarrow> 'e option \<times> 'k observed" where
  "apply_obs set_map rngS rngD st o1 =
     (let desired = desiredFromState rngS st in
      case push_maps_obs set_map rngD desired map_order (ob_kernel o1) (ob_reg o1) of
        (Some e, k', g) \<Rightarrow> (Some e, o1\<lparr>ob_kernel := k', ob_reg := g\<rparr>)
      | (None, k', g) \<Rightarrow>
          (let ips = flush_loop desired (rngD (rec_last (ob_rec o1))) [] in
           (None, o1\<lparr>ob_kernel := k', ob_rec := (ob_rec o1)\<lparr>rec_last := desired\<rparr>,
              ob_reg := foldl (\<lambda>g ip. flush_count ip g) g ips,
              ob_commands := ob_commands o1 @ List.map_filter FlushDestination ips\<rparr>)))"

definition run_one_obs :: "(family \<Rightarrow> string \<Rightarrow> dnat_entries \<Rightarrow> 'k \<Rightarrow> 'e option \<times> 'k)
    \<Rightarrow> (disc_state \<Rightarrow> disc_state) \<Rightarrow> (desired_map \<Rightarrow> desired_map)
    \<Rightarrow> disc_state \<Rightarrow> 'k observed \<Rightarrow> 'k observed" where
  "run_one_obs set_map rngS rngD st o1 =
     (case apply_obs set_map rngS rngD st o1 of
        (Some e, o2) \<Rightarrow> o2\<lparr>ob_reg := inc ''anchord_reconcile_total'' [''error''] (ob_reg o2)\<rparr>
      | (None, o2) \<Rightarrow> o2\<lparr>ob_reg := inc ''anchord_reconcile_total'' [''ok''] (ob_reg o2),
                        ob_tracker := MarkReconciled (ob_tracker o2)\<rparr>)"

subsection \<open>Nothing but reports is added\<close>

lemma push_maps_obs_same:
  "push_maps_obs set_map rng d ms k g = (e, k', g') \<Longrightarrow> push_maps set_map rng d ms k = (e, k')"
  by (induction set_map rng d ms k g rule: push_maps_obs.induct) (auto simp: Let_def split: prod.splits option.splits)

lemma apply_obs_same:
  assumes "apply_obs set_map rngS rngD st o1 = (e, o2)"
  shows "\<exists>fl. reconcile_apply set_map rngS rngD st (ob_rec o1) (ob_kernel o1) = (e, ob_kernel o2, ob_rec o2, fl)
    \<and> ob_commands o2 = ob_commands o1 @ List.map_filter FlushDestination fl \<and> ob_tracker o2 = ob_tracker o1"
proof -
  obtain e' k' g where p: "push_maps_obs set_map rngD (desiredFromState rngS st) map_order (ob_kernel o1) (ob_reg o1) = (e', k', g)"
    by (cases "push_maps_obs set_map rngD (desiredFromState rngS st) map_order (ob_kernel o1) (ob_reg o1)")
  show ?thesis
    using assms push_maps_obs_same [OF p] p
    by (cases e') (auto simp: apply_obs_def reconcile_apply_def Let_def map_filter_simps)
qed

subsection \<open>Each report\<close>

text \<open>The gauges count the entries of the kernel's maps.\<close>

context dnat_maps
begin

definition gauged :: "'k \<Rightarrow> mreg \<Rightarrow> bool" where
  "gauged k g \<longleftrightarrow> (\<forall>fam proto. l4_proto proto \<longrightarrow> (\<exists>es. holds k fam proto es
     \<and> gauges g (''anchord_dnat_entries'', [Family_String fam, proto]) = Some (int (length es))))"

lemma push_maps_gauged:
  assumes "push_maps_obs set_map rng d ms k g = (e, k', g')" "maps_inv k" "gauged k g"
  shows "maps_inv k' \<and> gauged k' g' \<and> counters g' = counters g"
  using assms
proof (induction ms arbitrary: k g)
  case Nil
  then show ?case by simp
next
  case (Cons m ms)
  obtain fam proto where m: "m = (fam, proto)" by (cases m)
  let ?es = "entries_for rng fam proto d"
  let ?g = "gauge_set ''anchord_dnat_entries'' [Family_String fam, proto] (int (length ?es)) g"
  obtain r k1 where run: "set_map fam proto ?es k = (r, k1)" by (cases "set_map fam proto ?es k")
  show ?case
  proof (cases r)
    case (Some x)
    then have "k' = k" "g' = g"
      using Cons.prems(1) run set_map_failed [of fam proto ?es k x k1] by (auto simp: m Let_def)
    with Cons.prems show ?thesis by simp
  next
    case None
    note run = run [unfolded None]
    have rest: "push_maps_obs set_map rng d ms k1 ?g = (e, k', g')" using Cons.prems(1) run by (simp add: m Let_def)
    have inv1: "maps_inv k1" by (rule set_map_inv [OF Cons.prems(2) _ run]) simp
    have holds1: "holds k1 fam proto ?es" by (rule set_map_holds [OF Cons.prems(2) _ run]) simp
    have others: "holds k1 f p es" if "(f, p) \<noteq> (fam, proto)" "holds k f p es" for f p es
      by (rule set_map_others [OF Cons.prems(2) _ run that]) simp
    have "gauged k1 ?g"
      unfolding gauged_def
    proof (intro allI impI)
      fix f p
      assume p: "l4_proto p"
      show "\<exists>es. holds k1 f p es \<and> gauges ?g (''anchord_dnat_entries'', [Family_String f, p]) = Some (int (length es))"
      proof (cases "(f, p) = (fam, proto)")
        case True
        with holds1 show ?thesis by (auto simp: gauge_set_def)
      next
        case False
        obtain es where "holds k f p es"
          "gauges g (''anchord_dnat_entries'', [Family_String f, p]) = Some (int (length es))"
          using Cons.prems(3) p unfolding gauged_def by blast
        with False others show ?thesis
          by (cases f; cases fam) (auto simp: gauge_set_def Family_String_def)
      qed
    qed
    from Cons.IH [OF rest inv1 this] show ?thesis by (simp add: gauge_set_def)
  qed
qed

end

text \<open>The counters count.\<close>

definition series_count :: "mreg \<Rightarrow> string \<Rightarrow> string list \<Rightarrow> nat" where
  "series_count g v ls = (case counters g (v, ls) of None \<Rightarrow> 0 | Some n \<Rightarrow> n)"

lemma series_count_inc:
  "series_count (inc v ls g) v' ls' = (if v' = v \<and> ls' = ls then Suc (series_count g v ls) else series_count g v' ls')"
  by (auto simp: series_count_def inc_def)

definition flush_total :: "mreg \<Rightarrow> nat" where
  "flush_total g = series_count g ''anchord_conntrack_flushes_total'' [''v4'']
     + series_count g ''anchord_conntrack_flushes_total'' [''v6'']"

lemma flush_count_total:
  "flush_total (flush_count ip g) = flush_total g + (if FlushDestination ip = None then 0 else 1)"
  by (simp add: flush_total_def flush_count_def FlushDestination_def series_count_inc)

lemma flush_count_others:
  "gauges (flush_count ip g) = gauges g"
  "series_count (flush_count ip g) ''anchord_reconcile_total'' ls = series_count g ''anchord_reconcile_total'' ls"
  by (simp_all add: flush_count_def inc_parts series_count_inc)

lemma flush_counts:
  "flush_total (foldl (\<lambda>g ip. flush_count ip g) g ips) = flush_total g + length (List.map_filter FlushDestination ips)"
  "gauges (foldl (\<lambda>g ip. flush_count ip g) g ips) = gauges g"
  "series_count (foldl (\<lambda>g ip. flush_count ip g) g ips) ''anchord_reconcile_total'' ls
     = series_count g ''anchord_reconcile_total'' ls"
  by (induction ips arbitrary: g)
    (auto simp: flush_count_total flush_count_others map_filter_simps split: option.split)

subsection \<open>Runs\<close>

text \<open>The other packages write other series while the loop runs.\<close>

definition same_reports :: "mreg \<Rightarrow> mreg \<Rightarrow> bool" where
  "same_reports g g' \<longleftrightarrow>
     (\<forall>ls. counters g' (''anchord_reconcile_total'', ls) = counters g (''anchord_reconcile_total'', ls)
       \<and> counters g' (''anchord_conntrack_flushes_total'', ls) = counters g (''anchord_conntrack_flushes_total'', ls)
       \<and> gauges g' (''anchord_dnat_entries'', ls) = gauges g (''anchord_dnat_entries'', ls))"

inductive obs_reach :: "manager \<Rightarrow> nat \<Rightarrow> nat \<Rightarrow> nft_kernel observed \<Rightarrow> bool" for m where
  obs_started: "k0 (table_of V4) = None \<Longrightarrow> k0 (table_of V6) = None \<Longrightarrow> k0 (NFPROTO_IPV4, ''anchord_v6'') = None
    \<Longrightarrow> Setup (nft_flush accept) (nat_New iface) k0 = (None, m, k)
    \<Longrightarrow> obs_reach m 0 0 \<lparr>ob_kernel = k, ob_rec = reconciler_New, ob_reg = metrics_init now info,
          ob_tracker = MarkTablesInstalled NewTracker, ob_commands = []\<rparr>"
| obs_ok: "obs_reach m a b o1 \<Longrightarrow> range_perm rngS \<Longrightarrow> range_perm rngD
    \<Longrightarrow> fst (apply_obs (SetMap (nft_flush accept) m) rngS rngD st o1) = None
    \<Longrightarrow> obs_reach m (Suc a) b (run_one_obs (SetMap (nft_flush accept) m) rngS rngD st o1)"
| obs_failed: "obs_reach m a b o1 \<Longrightarrow> range_perm rngS \<Longrightarrow> range_perm rngD
    \<Longrightarrow> fst (apply_obs (SetMap (nft_flush accept) m) rngS rngD st o1) \<noteq> None
    \<Longrightarrow> obs_reach m a (Suc b) (run_one_obs (SetMap (nft_flush accept) m) rngS rngD st o1)"
| obs_others: "obs_reach m a b o1 \<Longrightarrow> same_reports (ob_reg o1) g \<Longrightarrow> obs_reach m a b (o1\<lparr>ob_reg := g\<rparr>)"

definition reports_true :: "manager \<Rightarrow> nat \<Rightarrow> nat \<Rightarrow> nft_kernel observed \<Rightarrow> bool" where
  "reports_true m a b o1 \<longleftrightarrow> nat_inv m (ob_kernel o1)
     \<and> series_count (ob_reg o1) ''anchord_reconcile_total'' [''ok''] = a
     \<and> series_count (ob_reg o1) ''anchord_reconcile_total'' [''error''] = b
     \<and> flush_total (ob_reg o1) = length (ob_commands o1)
     \<and> nat_maps.gauged (ob_kernel o1) (ob_reg o1)
     \<and> ob_tracker o1 = \<lparr>tablesInstalled = True, reconciled = (0 < a), routeInstalled = False\<rparr>"

lemma gauged_cong:
  "(\<And>ls. gauges g' (''anchord_dnat_entries'', ls) = gauges g (''anchord_dnat_entries'', ls))
    \<Longrightarrow> nat_maps.gauged k g' = nat_maps.gauged k g"
  by (simp add: nat_maps.gauged_def)

text \<open>What one \<open>apply\<close> does to the reports.\<close>

lemma apply_obs_reports:
  assumes "apply_obs (SetMap (nft_flush accept) m) rngS rngD st o1 = (e, o2)" "nat_inv m (ob_kernel o1)"
    and "nat_maps.gauged (ob_kernel o1) (ob_reg o1)" "flush_total (ob_reg o1) = length (ob_commands o1)"
  shows "nat_inv m (ob_kernel o2) \<and> nat_maps.gauged (ob_kernel o2) (ob_reg o2)
    \<and> flush_total (ob_reg o2) = length (ob_commands o2) \<and> ob_tracker o2 = ob_tracker o1
    \<and> series_count (ob_reg o2) ''anchord_reconcile_total'' ls = series_count (ob_reg o1) ''anchord_reconcile_total'' ls"
proof -
  let ?push = "push_maps_obs (SetMap (nft_flush accept) m) rngD (desiredFromState rngS st) map_order (ob_kernel o1) (ob_reg o1)"
  obtain e' k' g where p: "?push = (e', k', g)" by (cases ?push)
  have g: "nat_inv m k'" "nat_maps.gauged k' g" "counters g = counters (ob_reg o1)"
    using nat_maps.push_maps_gauged [OF p assms(2,3)] by simp_all
  then have "flush_total g = length (ob_commands o1)"
    "series_count g ''anchord_reconcile_total'' ls = series_count (ob_reg o1) ''anchord_reconcile_total'' ls"
    using assms(4) by (simp_all add: flush_total_def series_count_def)
  with assms(1) p g(1,2) show ?thesis
    by (cases e') (auto simp: apply_obs_def Let_def flush_counts nat_maps.gauged_def)
qed

lemma reports_true_run: "obs_reach m a b o1 \<Longrightarrow> reports_true m a b o1"
proof (induction rule: obs_reach.induct)
  case (obs_started k0 accept iface k now info)
  have zero: "series_count (metrics_init now info) v ls = 0" for v ls
    using warmup_counters [of now info] by (simp add: series_count_def zeroed_def)
  have "gauges (metrics_init now info) (''anchord_dnat_entries'', [Family_String fam, proto]) = Some 0"
    if "l4_proto proto" for fam proto
    using that by (cases "readBuildInfo info"; cases fam)
      (auto simp: metrics_init_def warmup_def warmup_family_def Let_def metric_simps Family_String_def l4_proto_def)
  then have "nat_maps.gauged k (metrics_init now info)"
    using Setup_fresh_inv(2) [OF obs_started] by (force simp: nat_maps.gauged_def)
  then show ?case
    using Setup_fresh_inv(1) [OF obs_started]
    by (simp add: reports_true_def zero flush_total_def MarkTablesInstalled_def NewTracker_def)
next
  case (obs_ok a b o1 rngS rngD accept st)
  obtain o2 where o2: "apply_obs (SetMap (nft_flush accept) m) rngS rngD st o1 = (None, o2)"
    using obs_ok(4) by (cases "apply_obs (SetMap (nft_flush accept) m) rngS rngD st o1") auto
  have "reports_true m a b o1" by (rule obs_ok.IH)
  then show ?case
    using apply_obs_reports [OF o2]
    by (auto simp: reports_true_def run_one_obs_def o2 series_count_inc flush_total_def inc_parts MarkReconciled_def
        nat_maps.gauged_def)
next
  case (obs_failed a b o1 rngS rngD accept st)
  obtain e o2 where o2: "apply_obs (SetMap (nft_flush accept) m) rngS rngD st o1 = (Some e, o2)"
    using obs_failed(4) by (cases "apply_obs (SetMap (nft_flush accept) m) rngS rngD st o1") auto
  have "reports_true m a b o1" by (rule obs_failed.IH)
  then show ?case
    using apply_obs_reports [OF o2]
    by (auto simp: reports_true_def run_one_obs_def o2 series_count_inc flush_total_def inc_parts nat_maps.gauged_def)
next
  case (obs_others a b o1 g)
  then show ?case
    by (auto simp: reports_true_def same_reports_def series_count_def flush_total_def nat_maps.gauged_def)
qed

text \<open>C16. The network anchor tells the truth about itself, in every run from a fresh start, with whatever
  refusals of the kernel and whatever the other packages report meanwhile: the two counters of reconciles are the
  numbers of reconciles without and with an error, the counters of flushes together the number of
  conntrack commands, each gauge the number of entries the kernel holds for its family and protocol, also after
  a reconcile that failed half-way; and the readiness endpoint answers 200 exactly when a reconcile
  has succeeded.\<close>

theorem reports_are_true:
  assumes "obs_reach m a b o1"
  shows "series_count (ob_reg o1) ''anchord_reconcile_total'' [''ok''] = a
    \<and> series_count (ob_reg o1) ''anchord_reconcile_total'' [''error''] = b
    \<and> flush_total (ob_reg o1) = length (ob_commands o1)
    \<and> (\<forall>fam. \<forall>proto \<in> {''tcp'', ''udp''}. \<exists>es. nat_holds (ob_kernel o1) fam proto es
         \<and> gauges (ob_reg o1) (''anchord_dnat_entries'', [Family_String fam, proto]) = Some (int (length es)))
    \<and> rs_status (NetworkAnchorReadinessHandler (ob_tracker o1)) = (if 0 < a then 200 else 503)"
  using reports_true_run [OF assms]
  by (auto simp: reports_true_def nat_maps.gauged_def l4_proto_def NetworkAnchorReadinessHandler_def)

lemma reports_are_true_witness:
  "\<exists>o1. obs_reach demo_mgr 1 0 o1
    \<and> series_count (ob_reg o1) ''anchord_reconcile_total'' [''ok''] = 1
    \<and> rs_status (NetworkAnchorReadinessHandler (ob_tracker o1)) = 200"
proof -
  let ?o = "\<lparr>ob_kernel = demo_kernel, ob_rec = reconciler_New, ob_reg = metrics_init 0 None,
    ob_tracker = MarkTablesInstalled NewTracker, ob_commands = []\<rparr>"
  let ?sm = "SetMap (nft_flush (\<lambda>_ _. True)) demo_mgr"
  have start: "obs_reach demo_mgr 0 0 ?o"
    by (rule obs_started [where accept = "\<lambda>_ _. True" and iface = "''eth0''", OF _ _ _ demo_setup]) simp_all
  obtain e o2 where ap: "apply_obs ?sm (\<lambda>xs. xs) rev demo_snapshot ?o = (e, o2)"
    by (cases "apply_obs ?sm (\<lambda>xs. xs) rev demo_snapshot ?o")
  obtain k' r' fl where "reconcile_apply ?sm (\<lambda>xs. xs) rev demo_snapshot reconciler_New demo_kernel = (None, k', r', fl)"
    by (rule demo_reconcile)
  then have "e = None" using apply_obs_same [OF ap] by auto
  then have "obs_reach demo_mgr (Suc 0) 0 (run_one_obs ?sm (\<lambda>xs. xs) rev demo_snapshot ?o)"
    using ap by (intro obs_ok [OF start]) simp_all
  then show ?thesis using reports_are_true by (metis One_nat_def zero_less_Suc)
qed

end
