(* ===== verification/ServiceReports.thy ===== *)
theory ServiceReports
  imports ServiceAnchor Observability
begin

section \<open>What the service anchor reports about itself\<close>

text \<open>
  \<open>applyRoute\<close>, \<open>reconcile\<close>, \<open>cleanup\<close> and the two modes of \<open>src/internal/serviceanchor/serviceanchor.go\<close> once more,
  with the counters and the gauge they write and the call of \<open>OnRouteInstalled\<close> that main wires to the
  tracker. Without the reports they are those of theory \<open>ServiceAnchor\<close> (\<open>reconcile_obs_same\<close>).

  Shown: the counter of replacements is the number of routes that the kernel accepted, one after the
  other, and the gauge and readiness say whether there was one; lookups are counted by their outcome
  (\<open>sa_reports\<close>). So an anchor that finds its route in place when it starts, for instance after a crash,
  is never ready and reports that no default route is present (\<open>adopted_route_never_ready\<close>).
\<close>

subsection \<open>The code with its reports\<close>

definition sa_familyName :: "af \<Rightarrow> string" where
  "sa_familyName f = (case f of AF_INET \<Rightarrow> ''v4'' | AF_INET6 \<Rightarrow> ''v6'')"

record sa_observed =
  so_mgr :: sa_manager
  so_ns :: netns
  so_reg :: mreg
  so_tracker :: tracker

definition applyRoute_obs :: "af \<Rightarrow> net_ip \<Rightarrow> sa_observed \<Rightarrow> sa_observed" where
  "applyRoute_obs family gw s =
     (let kernelGW = (case RecordDefaultRoute family (so_ns s) of None \<Rightarrow> [] | Some g \<Rightarrow> g);
          cached = (so_mgr s)\<lparr>sa_current := gm_put family gw (sa_current (so_mgr s))\<rparr> in
      if kernelGW \<noteq> [] \<and> ip_equal kernelGW gw then s\<lparr>so_mgr := cached\<rparr>
      else (case sa_ReplaceDefaultRoute family gw (so_ns s) of
              (False, ns') \<Rightarrow> s\<lparr>so_ns := ns'\<rparr>
            | (True, ns') \<Rightarrow> s\<lparr>so_ns := ns', so_mgr := cached,
                so_reg := gauge_set ''anchord_default_route_present'' [sa_familyName family] 1
                            (inc ''anchord_gateway_route_replaces_total'' [sa_familyName family] (so_reg s)),
                so_tracker := MarkRouteInstalled (so_tracker s)\<rparr>))"

definition resolve_inc :: "string \<Rightarrow> string \<Rightarrow> sa_observed \<Rightarrow> sa_observed" where
  "resolve_inc f outcome s = s\<lparr>so_reg := inc ''anchord_gateway_resolve_total'' [f, outcome] (so_reg s)\<rparr>"

definition family_obs :: "af \<Rightarrow> net_ip \<Rightarrow> sa_observed \<Rightarrow> sa_observed" where
  "family_obs family gw s =
     (if gw \<noteq> [] then applyRoute_obs family gw (resolve_inc (sa_familyName family) ''ok'' s)
      else resolve_inc (sa_familyName family) ''error'' s)"

definition reconcile_obs :: "net_ip list option \<Rightarrow> sa_observed \<Rightarrow> sa_observed" where
  "reconcile_obs lookup s =
     (case lookup of None \<Rightarrow> resolve_inc ''v6'' ''error'' (resolve_inc ''v4'' ''error'' s)
      | Some addrs \<Rightarrow>
          (let (v4, v6) = pick_addrs addrs [] [] in family_obs AF_INET6 v6 (family_obs AF_INET v4 s)))"

fun remove_loop_obs :: "gw_map \<Rightarrow> sa_observed \<Rightarrow> sa_observed" where
  "remove_loop_obs [] s = s"
| "remove_loop_obs ((fam, gw) # rest) s =
     (case sa_RemoveDefaultRoute fam gw (so_ns s) of
        (False, ns') \<Rightarrow> remove_loop_obs rest (s\<lparr>so_ns := ns'\<rparr>)
      | (True, ns') \<Rightarrow> remove_loop_obs rest (s\<lparr>so_ns := ns',
            so_reg := gauge_set ''anchord_default_route_present'' [sa_familyName fam] 0 (so_reg s)\<rparr>))"

definition cleanup_obs :: "(gw_map \<Rightarrow> gw_map) \<Rightarrow> sa_observed \<Rightarrow> sa_observed" where
  "cleanup_obs rng s =
     (let s1 = remove_loop_obs (rng (sa_current (so_mgr s))) s;
          ns2 = restore_loop (sa_current (so_mgr s)) (rng (sa_original (so_mgr s))) (so_ns s1)
      in s1\<lparr>so_ns := ns2, so_mgr := (so_mgr s)\<lparr>sa_current := [], sa_original := []\<rparr>\<rparr>)"

text \<open>Until the context ends: the mode is chosen by the configured addresses.\<close>

definition sa_loop_obs :: "net_ip list \<Rightarrow> net_ip list option list \<Rightarrow> sa_observed \<Rightarrow> sa_observed" where
  "sa_loop_obs ips lookups s =
     (let s1 = s\<lparr>so_mgr := recordOriginals (so_ns s) (so_mgr s)\<rparr> in
      if ips \<noteq> [] then foldl (\<lambda>s ip. applyRoute_obs (if to4 ip = [] then AF_INET6 else AF_INET) ip s) s1 ips
      else foldl (\<lambda>s l. reconcile_obs l s) s1 lookups)"

definition sa_Run_obs :: "(gw_map \<Rightarrow> gw_map) \<Rightarrow> net_ip list \<Rightarrow> net_ip list option list \<Rightarrow> sa_observed \<Rightarrow> sa_observed" where
  "sa_Run_obs rng ips lookups s = cleanup_obs rng (sa_loop_obs ips lookups s)"

definition sa_boot :: "netns \<Rightarrow> int \<Rightarrow> (string \<times> (string \<times> string) list) option \<Rightarrow> sa_observed" where
  "sa_boot ns now info = \<lparr>so_mgr = sa_New, so_ns = ns, so_reg = metrics_init now info, so_tracker = NewTracker\<rparr>"

subsection \<open>Nothing but reports is added\<close>

definition sa_core :: "sa_observed \<Rightarrow> sa_manager \<times> netns" where
  "sa_core s = (so_mgr s, so_ns s)"

lemma applyRoute_obs_same: "sa_core (applyRoute_obs fam gw s) = fst (applyRoute fam gw (sa_core s))"
  by (simp add: applyRoute_obs_def applyRoute_def sa_core_def Let_def split: prod.split bool.split)

lemma resolve_inc_same [simp]:
  "sa_core (resolve_inc f out s) = sa_core s" "so_ns (resolve_inc f out s) = so_ns s" "so_mgr (resolve_inc f out s) = so_mgr s"
  "so_tracker (resolve_inc f out s) = so_tracker s"
  by (simp_all add: resolve_inc_def sa_core_def)

lemma family_obs_same:
  "sa_core (family_obs fam gw s) = (if gw \<noteq> [] then fst (applyRoute fam gw (sa_core s)) else sa_core s)"
  by (simp add: family_obs_def applyRoute_obs_same)

lemma reconcile_obs_same: "sa_core (reconcile_obs l s) = sa_reconcile l (sa_core s)"
  by (simp add: reconcile_obs_def sa_reconcile_def family_obs_same Let_def split: option.split prod.split)

lemma remove_loop_obs_same: "so_ns (remove_loop_obs cur s) = remove_loop cur (so_ns s)"
  by (induction cur s rule: remove_loop_obs.induct) (auto split: prod.splits bool.splits)

lemma sa_Run_obs_same:
  "sa_core (sa_Run_obs rng ips lookups s) =
     (if ips \<noteq> [] then runIPMode rng ips (so_mgr s) (so_ns s) else runDNSMode rng lookups (so_mgr s) (so_ns s))"
proof -
  have clean: "sa_core (cleanup_obs rng t) = cleanup rng (sa_core t)" for t
    by (simp add: cleanup_obs_def cleanup_def sa_core_def Let_def remove_loop_obs_same)
  have ips: "sa_core (foldl (\<lambda>s ip. applyRoute_obs (if to4 ip = [] then AF_INET6 else AF_INET) ip s) t is)
      = install_ips is (sa_core t)" for t "is"
    by (induction "is" arbitrary: t) (simp_all add: applyRoute_obs_same del: if_split_asm)
  have dns: "sa_core (foldl (\<lambda>s l. reconcile_obs l s) t ls) = foldl (\<lambda>s l. sa_reconcile l s) (sa_core t) ls" for t ls
    by (induction ls arbitrary: t) (simp_all add: reconcile_obs_same)
  show ?thesis
    by (simp add: sa_Run_obs_def clean sa_loop_obs_def Let_def ips dns runIPMode_def runDNSMode_def) (simp add: sa_core_def)
qed

subsection \<open>What the reports are about\<close>

text \<open>
  What the kernel does on its side: which routes the anchor asks for, in order; whether such a route is in place already; and whether
  a replacement is made, which is when it is not in place, is a route of its family, and is not refused.
\<close>

definition in_place :: "netns \<Rightarrow> af \<times> net_ip \<Rightarrow> bool" where
  "in_place ns w \<longleftrightarrow> (\<exists>g. RecordDefaultRoute (fst w) ns = Some g \<and> g \<noteq> [] \<and> ip_equal g (snd w))"

definition route_replaced :: "netns \<Rightarrow> af \<times> net_ip \<Rightarrow> bool" where
  "route_replaced ns w \<longleftrightarrow> \<not> in_place ns w
     \<and> (\<exists>r. sa_defaultRouteFor (fst w) (snd w) = Some r \<and> \<not> ns_add_fails ns (fst w) r)"

definition after_route :: "af \<times> net_ip \<Rightarrow> netns \<Rightarrow> netns" where
  "after_route w ns = (if route_replaced ns w then snd (sa_ReplaceDefaultRoute (fst w) (snd w) ns) else ns)"

fun replacements :: "af \<Rightarrow> (af \<times> net_ip) list \<Rightarrow> netns \<Rightarrow> nat" where
  "replacements f [] ns = 0"
| "replacements f (w # ws) ns = (if fst w = f \<and> route_replaced ns w then 1 else 0) + replacements f ws (after_route w ns)"

definition lookup_routes :: "net_ip list option \<Rightarrow> (af \<times> net_ip) list" where
  "lookup_routes l = (case l of None \<Rightarrow> []
     | Some addrs \<Rightarrow> filter (\<lambda>w. snd w \<noteq> []) [(AF_INET, first_addr AF_INET addrs), (AF_INET6, first_addr AF_INET6 addrs)])"

definition wanted_routes :: "net_ip list \<Rightarrow> net_ip list option list \<Rightarrow> (af \<times> net_ip) list" where
  "wanted_routes ips lookups =
     (if ips \<noteq> [] then map (\<lambda>ip. (if to4 ip = [] then AF_INET6 else AF_INET, ip)) ips
      else concat (map lookup_routes lookups))"

definition resolves :: "af \<Rightarrow> net_ip list option \<Rightarrow> bool" where
  "resolves fam l \<longleftrightarrow> (\<exists>addrs. l = Some addrs \<and> first_addr fam addrs \<noteq> [])"

text \<open>A replacement that is made gives the family a default route by the wanted gateway.\<close>

lemma replaced_in_place:
  assumes "route_replaced ns (fam, gw)" "gw \<noteq> []" "\<not> ns_list_fails ns fam"
  shows "in_place (after_route (fam, gw) ns) (fam, gw)"
proof -
  have "fst (sa_ReplaceDefaultRoute fam gw ns)"
    using assms(1) by (auto simp: route_replaced_def sa_ReplaceDefaultRoute_def RouteReplace_def)
  moreover have after: "after_route (fam, gw) ns = er_assert RecordDefaultRoute sa_ReplaceDefaultRoute fam gw ns"
    using assms(1,2) by (auto simp: after_route_def er_assert_def route_replaced_def in_place_def Let_def split: option.split)
  moreover have "fst (sa_ReplaceDefaultRoute fam gw (after_route (fam, gw) ns))"
    using assms(1) by (auto simp: after route_replaced_def sa_ReplaceDefaultRoute_def RouteReplace_def)
  moreover have "RecordDefaultRoute fam (after_route (fam, gw) ns) \<noteq> None"
    using assms(3) by (simp add: after RecordDefaultRoute_def RouteList_def)
  ultimately show ?thesis
    using sa_router.assert_settles [OF assms(2), of fam ns] by (auto simp: in_place_def sa_router.settled_on_def)
qed

lemma replacements_append:
  "replacements f (ws @ vs) ns = replacements f ws ns + replacements f vs (foldl (\<lambda>ns w. after_route w ns) ns ws)"
  by (induction ws arbitrary: ns) simp_all

subsection \<open>What the reports mean\<close>

definition replaced :: "mreg \<Rightarrow> string \<Rightarrow> nat" where
  "replaced g f = series_count g ''anchord_gateway_route_replaces_total'' [f]"

definition sa_reports_inv :: "sa_observed \<Rightarrow> bool" where
  "sa_reports_inv s \<longleftrightarrow>
     (\<forall>fam. gauges (so_reg s) (''anchord_default_route_present'', [sa_familyName fam])
        = Some (if 0 < replaced (so_reg s) (sa_familyName fam) then 1 else 0))
     \<and> (routeInstalled (so_tracker s) \<longleftrightarrow> (\<exists>fam. 0 < replaced (so_reg s) (sa_familyName fam)))"

lemma familyName_eq [simp]: "sa_familyName f = sa_familyName f' \<longleftrightarrow> f = f'"
  by (cases f; cases f') (simp_all add: sa_familyName_def)

lemma applyRoute_obs_reports:
  assumes inv: "sa_reports_inv s"
  shows "sa_reports_inv (applyRoute_obs fam gw s)"
proof -
  let ?r = "\<lambda>t. so_reg t"
  have step: "applyRoute_obs fam gw s \<in> {t. ?r t = ?r s \<and> so_tracker t = so_tracker s}
      \<union> {t. ?r t = gauge_set ''anchord_default_route_present'' [sa_familyName fam] 1
              (inc ''anchord_gateway_route_replaces_total'' [sa_familyName fam] (?r s))
            \<and> so_tracker t = MarkRouteInstalled (so_tracker s)}"
    by (auto simp: applyRoute_obs_def Let_def split: prod.split bool.split)
  have count: "series_count (gauge_set v ls x g) v' ls' = series_count g v' ls'" for v ls x g v' ls'
    by (simp add: series_count_def gauge_set_def)
  have "sa_reports_inv t" if "?r t = ?r s" "so_tracker t = so_tracker s" for t
    using inv that by (simp add: sa_reports_inv_def)
  moreover have "sa_reports_inv t"
    if "?r t = gauge_set ''anchord_default_route_present'' [sa_familyName fam] 1
            (inc ''anchord_gateway_route_replaces_total'' [sa_familyName fam] (?r s))"
      "so_tracker t = MarkRouteInstalled (so_tracker s)" for t
  proof -
    have n: "replaced (?r t) (sa_familyName f) = replaced (?r s) (sa_familyName f) + (if f = fam then 1 else 0)" for f
      by (simp add: that replaced_def count series_count_inc)
    have g: "gauges (?r t) (''anchord_default_route_present'', [sa_familyName f])
        = (if f = fam then Some 1 else gauges (?r s) (''anchord_default_route_present'', [sa_familyName f]))" for f
      by (simp add: that gauge_set_parts inc_parts)
    show ?thesis
      unfolding sa_reports_inv_def n g using inv by (auto simp: sa_reports_inv_def that MarkRouteInstalled_def intro: exI [of _ fam])
  qed
  ultimately show ?thesis using step by blast
qed

lemma resolve_inc_reports [simp]: "sa_reports_inv (resolve_inc f out s) \<longleftrightarrow> sa_reports_inv s"
  by (simp add: sa_reports_inv_def resolve_inc_def replaced_def series_count_inc inc_parts)

lemma reconcile_obs_reports:
  assumes "sa_reports_inv s"
  shows "sa_reports_inv (reconcile_obs l s)"
proof -
  have "sa_reports_inv (family_obs fam gw t)" if "sa_reports_inv t" for fam gw t
    using that by (simp add: family_obs_def applyRoute_obs_reports)
  with assms show ?thesis by (simp add: reconcile_obs_def split: option.split prod.split)
qed

definition count_of :: "mreg \<Rightarrow> string \<Rightarrow> string \<Rightarrow> nat" where
  "count_of g f outcome = series_count g ''anchord_gateway_resolve_total'' [f, outcome]"

lemma boot_reports:
  "sa_reports_inv (sa_boot ns now info)"
  "replaced (so_reg (sa_boot ns now info)) f = 0" "count_of (so_reg (sa_boot ns now info)) f outcome = 0"
proof -
  have zero: "series_count (metrics_init now info) v ls = 0" for v ls
    using warmup_counters [of now info] by (simp add: series_count_def zeroed_def)
  have "gauges (metrics_init now info) (''anchord_default_route_present'', [sa_familyName fam]) = Some 0" for fam
    by (cases "readBuildInfo info"; cases fam)
      (auto simp: metrics_init_def warmup_def warmup_family_def Let_def metric_simps sa_familyName_def)
  then show "sa_reports_inv (sa_boot ns now info)"
    "replaced (so_reg (sa_boot ns now info)) f = 0" "count_of (so_reg (sa_boot ns now info)) f outcome = 0"
    by (simp_all add: sa_reports_inv_def sa_boot_def replaced_def count_of_def zero NewTracker_def)
qed

lemma sa_loop_reports:
  "sa_reports_inv (sa_loop_obs ips lookups (sa_boot ns now info))"
proof -
  let ?s = "(sa_boot ns now info)\<lparr>so_mgr := recordOriginals (so_ns (sa_boot ns now info)) (so_mgr (sa_boot ns now info))\<rparr>"
  have start: "sa_reports_inv ?s" using boot_reports(1) [of ns now info] by (simp add: sa_reports_inv_def)
  have "sa_reports_inv t \<Longrightarrow> sa_reports_inv (foldl (\<lambda>s ip. applyRoute_obs (if to4 ip = [] then AF_INET6 else AF_INET) ip s) t ips)" for t
    by (induction ips arbitrary: t) (simp_all add: applyRoute_obs_reports)
  moreover have "sa_reports_inv t \<Longrightarrow> sa_reports_inv (foldl (\<lambda>s l. reconcile_obs l s) t lookups)" for t
    by (induction lookups arbitrary: t) (simp_all add: reconcile_obs_reports)
  ultimately show ?thesis using start by (simp add: sa_loop_obs_def Let_def)
qed

text \<open>One route asked for: the namespace, and the counters.\<close>

lemma applyRoute_obs_step:
  "so_ns (applyRoute_obs fam gw s) = after_route (fam, gw) (so_ns s)"
  "replaced (so_reg (applyRoute_obs fam gw s)) (sa_familyName f)
     = replaced (so_reg s) (sa_familyName f) + (if fam = f \<and> route_replaced (so_ns s) (fam, gw) then 1 else 0)"
  "count_of (so_reg (applyRoute_obs fam gw s)) g outcome = count_of (so_reg s) g outcome"
proof -
  have count: "series_count (gauge_set v ls x g) v' ls' = series_count g v' ls'" for v ls x g v' ls'
    by (simp add: series_count_def gauge_set_def)
  have place: "in_place (so_ns s) (fam, gw)
      \<longleftrightarrow> (case RecordDefaultRoute fam (so_ns s) of None \<Rightarrow> [] | Some g \<Rightarrow> g) \<noteq> []
        \<and> ip_equal (case RecordDefaultRoute fam (so_ns s) of None \<Rightarrow> [] | Some g \<Rightarrow> g) gw"
    by (auto simp: in_place_def split: option.split)
  show "so_ns (applyRoute_obs fam gw s) = after_route (fam, gw) (so_ns s)"
    "replaced (so_reg (applyRoute_obs fam gw s)) (sa_familyName f)
       = replaced (so_reg s) (sa_familyName f) + (if fam = f \<and> route_replaced (so_ns s) (fam, gw) then 1 else 0)"
    "count_of (so_reg (applyRoute_obs fam gw s)) g outcome = count_of (so_reg s) g outcome"
    unfolding applyRoute_obs_def Let_def place [symmetric] after_route_def route_replaced_def
    by (auto simp: sa_ReplaceDefaultRoute_def RouteReplace_def replaced_def count_of_def count series_count_inc split: option.split)
qed

lemma resolve_inc_step:
  "replaced (so_reg (resolve_inc f out s)) g = replaced (so_reg s) g"
  "count_of (so_reg (resolve_inc f out s)) g outcome = count_of (so_reg s) g outcome + (if g = f \<and> outcome = out then 1 else 0)"
  by (auto simp: resolve_inc_def replaced_def count_of_def series_count_inc)

lemma family_obs_step:
  "so_ns (family_obs fam gw s) = foldl (\<lambda>ns w. after_route w ns) (so_ns s) (filter (\<lambda>w. snd w \<noteq> []) [(fam, gw)])"
  "replaced (so_reg (family_obs fam gw s)) (sa_familyName f)
     = replaced (so_reg s) (sa_familyName f) + replacements f (filter (\<lambda>w. snd w \<noteq> []) [(fam, gw)]) (so_ns s)"
  "count_of (so_reg (family_obs fam gw s)) (sa_familyName f) ''ok''
     = count_of (so_reg s) (sa_familyName f) ''ok'' + (if f = fam \<and> gw \<noteq> [] then 1 else 0)"
  "count_of (so_reg (family_obs fam gw s)) (sa_familyName f) ''error''
     = count_of (so_reg s) (sa_familyName f) ''error'' + (if f = fam \<and> gw = [] then 1 else 0)"
  by (auto simp: family_obs_def applyRoute_obs_step resolve_inc_step)

lemma reconcile_obs_step:
  "so_ns (reconcile_obs l s) = foldl (\<lambda>ns w. after_route w ns) (so_ns s) (lookup_routes l)"
  "replaced (so_reg (reconcile_obs l s)) (sa_familyName f)
     = replaced (so_reg s) (sa_familyName f) + replacements f (lookup_routes l) (so_ns s)"
  "count_of (so_reg (reconcile_obs l s)) (sa_familyName f) ''ok''
     = count_of (so_reg s) (sa_familyName f) ''ok'' + (if resolves f l then 1 else 0)"
  "count_of (so_reg (reconcile_obs l s)) (sa_familyName f) ''error''
     = count_of (so_reg s) (sa_familyName f) ''error'' + (if resolves f l then 0 else 1)"
proof -
  have none: "reconcile_obs None s = resolve_inc (sa_familyName AF_INET6) ''error'' (resolve_inc (sa_familyName AF_INET) ''error'' s)"
    by (simp add: reconcile_obs_def sa_familyName_def)
  have some: "reconcile_obs (Some addrs) s = family_obs AF_INET6 (first_addr AF_INET6 addrs) (family_obs AF_INET (first_addr AF_INET addrs) s)" for addrs
    by (simp add: reconcile_obs_def pick_addrs_eq)
  show "so_ns (reconcile_obs l s) = foldl (\<lambda>ns w. after_route w ns) (so_ns s) (lookup_routes l)"
    by (cases l) (simp_all add: none some family_obs_step lookup_routes_def)
  show "replaced (so_reg (reconcile_obs l s)) (sa_familyName f)
     = replaced (so_reg s) (sa_familyName f) + replacements f (lookup_routes l) (so_ns s)"
    by (cases l) (simp_all add: none some family_obs_step lookup_routes_def resolve_inc_step)
  show "count_of (so_reg (reconcile_obs l s)) (sa_familyName f) ''ok''
     = count_of (so_reg s) (sa_familyName f) ''ok'' + (if resolves f l then 1 else 0)"
    by (cases l; cases f) (simp_all add: none some family_obs_step resolve_inc_step resolves_def)
  show "count_of (so_reg (reconcile_obs l s)) (sa_familyName f) ''error''
     = count_of (so_reg s) (sa_familyName f) ''error'' + (if resolves f l then 0 else 1)"
    by (cases l; cases f) (simp_all add: none some family_obs_step resolve_inc_step resolves_def)
qed

lemma reconciles_obs_step:
  "so_ns (foldl (\<lambda>s l. reconcile_obs l s) s ls) = foldl (\<lambda>ns w. after_route w ns) (so_ns s) (concat (map lookup_routes ls))
    \<and> replaced (so_reg (foldl (\<lambda>s l. reconcile_obs l s) s ls)) (sa_familyName f)
      = replaced (so_reg s) (sa_familyName f) + replacements f (concat (map lookup_routes ls)) (so_ns s)
    \<and> count_of (so_reg (foldl (\<lambda>s l. reconcile_obs l s) s ls)) (sa_familyName f) ''ok''
      = count_of (so_reg s) (sa_familyName f) ''ok'' + length (filter (resolves f) ls)
    \<and> count_of (so_reg (foldl (\<lambda>s l. reconcile_obs l s) s ls)) (sa_familyName f) ''error''
      = count_of (so_reg s) (sa_familyName f) ''error'' + length (filter (\<lambda>l. \<not> resolves f l) ls)"
  by (induction ls arbitrary: s) (simp_all add: reconcile_obs_step replacements_append)

lemma installs_obs_step:
  "so_ns (foldl (\<lambda>s ip. applyRoute_obs (fam_of ip) ip s) s ips) = foldl (\<lambda>ns w. after_route w ns) (so_ns s) (map (\<lambda>ip. (fam_of ip, ip)) ips)
    \<and> replaced (so_reg (foldl (\<lambda>s ip. applyRoute_obs (fam_of ip) ip s) s ips)) (sa_familyName f)
      = replaced (so_reg s) (sa_familyName f) + replacements f (map (\<lambda>ip. (fam_of ip, ip)) ips) (so_ns s)
    \<and> count_of (so_reg (foldl (\<lambda>s ip. applyRoute_obs (fam_of ip) ip s) s ips)) g outcome = count_of (so_reg s) g outcome"
  by (induction ips arbitrary: s) (simp_all add: applyRoute_obs_step)

text \<open>C32. What a running service anchor reports is what has happened in its namespace. In either mode and after any lookups, with any
  routes before and any refusals of the kernel: the counter of a family is the number of times a gateway of that family
  that was asked for was not that of the default route and the kernel accepted the replacement, one route after the other; the gauge of the family is one exactly
  when this has happened, and the readiness endpoint answers 200 exactly when it has happened in some family. In
  DNS mode a lookup is counted as ok for a family exactly when it gave an address of the family, and as an error otherwise.\<close>

theorem sa_reports:
  "let s = sa_loop_obs ips lookups (sa_boot ns now info); made = (\<lambda>fam. replacements fam (wanted_routes ips lookups) ns) in
     so_ns s = foldl (\<lambda>ns w. after_route w ns) ns (wanted_routes ips lookups)
     \<and> (\<forall>fam. replaced (so_reg s) (sa_familyName fam) = made fam
        \<and> gauges (so_reg s) (''anchord_default_route_present'', [sa_familyName fam]) = Some (if made fam = 0 then 0 else 1)
        \<and> count_of (so_reg s) (sa_familyName fam) ''ok'' = (if ips = [] then length (filter (resolves fam) lookups) else 0)
        \<and> count_of (so_reg s) (sa_familyName fam) ''error'' = (if ips = [] then length (filter (\<lambda>l. \<not> resolves fam l) lookups) else 0))
     \<and> rs_status (ServiceAnchorReadinessHandler (so_tracker s)) = (if \<exists>fam. made fam \<noteq> 0 then 200 else 503)"
proof -
  let ?b = "sa_boot ns now info"
  let ?t = "?b\<lparr>so_mgr := recordOriginals (so_ns ?b) (so_mgr ?b)\<rparr>" and ?s = "sa_loop_obs ips lookups ?b"
  have start: "so_ns ?t = ns" by (simp add: sa_boot_def)
  have loop: "so_ns ?s = foldl (\<lambda>ns w. after_route w ns) ns (wanted_routes ips lookups)
      \<and> replaced (so_reg ?s) (sa_familyName f) = replacements f (wanted_routes ips lookups) ns
      \<and> count_of (so_reg ?s) (sa_familyName f) ''ok'' = (if ips = [] then length (filter (resolves f) lookups) else 0)
      \<and> count_of (so_reg ?s) (sa_familyName f) ''error'' = (if ips = [] then length (filter (\<lambda>l. \<not> resolves f l) lookups) else 0)" for f
  proof (cases "ips = []")
    case True
    then show ?thesis
      using reconciles_obs_step [of ?t lookups f] by (simp add: sa_loop_obs_def Let_def wanted_routes_def start boot_reports)
  next
    case False
    then show ?thesis
      using installs_obs_step [of "\<lambda>ip. if to4 ip = [] then AF_INET6 else AF_INET" ?t ips f]
      by (simp add: sa_loop_obs_def Let_def wanted_routes_def start boot_reports)
  qed
  with sa_loop_reports [of ips lookups ns now info] show ?thesis
    by (simp add: sa_reports_inv_def ServiceAnchorReadinessHandler_def Let_def)
qed

text \<open>Two lookups, the second of which fails: with a kernel that accepts the route it is counted and the anchor is ready;
  with one that refuses it nothing is reported but the lookups.\<close>

definition two_lookups :: "bool \<Rightarrow> sa_observed" where
  "two_lookups refused = sa_loop_obs [] [Some [[10, 0, 0, 9]], None]
     (sa_boot (demo_netns []\<lparr>ns_add_fails := \<lambda>_ _. refused\<rparr>) 7 None)"

lemma sa_reports_witness:
  "\<forall>refused. replaced (so_reg (two_lookups refused)) (sa_familyName AF_INET) = (if refused then 0 else 1)
   \<and> count_of (so_reg (two_lookups refused)) (sa_familyName AF_INET) ''ok'' = 1
   \<and> count_of (so_reg (two_lookups refused)) (sa_familyName AF_INET) ''error'' = 1
   \<and> rs_status (ServiceAnchorReadinessHandler (so_tracker (two_lookups refused))) = (if refused then 503 else 200)"
proof
  fix refused
  let ?ns = "demo_netns []\<lparr>ns_add_fails := \<lambda>_ _. refused\<rparr>" and ?ls = "[Some [[10, 0, 0, 9]], None]"
  have addr: "first_addr AF_INET [[10, 0, 0, 9]] = [10, 0, 0, 9]" "first_addr AF_INET6 [[10, 0, 0, 9]] = []" by code_simp+
  have "wanted_routes [] ?ls = [(AF_INET, [10, 0, 0, 9])]"
    by (simp add: wanted_routes_def lookup_routes_def addr)
  moreover have "route_replaced ?ns (AF_INET, [10, 0, 0, 9]) \<longleftrightarrow> \<not> refused"
    by (simp add: route_replaced_def in_place_def RecordDefaultRoute_def RouteList_def demo_netns_def sa_defaultRouteFor_def to4_def)
  ultimately have made: "replacements fam (wanted_routes [] ?ls) ?ns = (if fam = AF_INET \<and> \<not> refused then 1 else 0)" for fam by auto
  have look: "resolves AF_INET (Some [[10, 0, 0, 9]])" "\<not> resolves AF_INET None" by (simp_all add: resolves_def addr)
  show "replaced (so_reg (two_lookups refused)) (sa_familyName AF_INET) = (if refused then 0 else 1)
      \<and> count_of (so_reg (two_lookups refused)) (sa_familyName AF_INET) ''ok'' = 1
      \<and> count_of (so_reg (two_lookups refused)) (sa_familyName AF_INET) ''error'' = 1
      \<and> rs_status (ServiceAnchorReadinessHandler (so_tracker (two_lookups refused))) = (if refused then 503 else 200)"
    using sa_reports [of "[]" ?ls ?ns 7 None] unfolding two_lookups_def made Let_def by (auto simp: look made)
qed

subsection \<open>An adopted route\<close>

text \<open>The gateways that the configuration or the lookups ask for.\<close>

definition wanted_gateways :: "net_ip list \<Rightarrow> net_ip list option list \<Rightarrow> (af \<times> net_ip) set" where
  "wanted_gateways ips lookups =
     (if ips \<noteq> [] then {(if to4 ip = [] then AF_INET6 else AF_INET, ip) |ip. ip \<in> set ips}
      else {(fam, first_addr fam addrs) |fam addrs. Some addrs \<in> set lookups \<and> first_addr fam addrs \<noteq> []})"

lemma applyRoute_obs_in_place:
  assumes "in_place (so_ns s) (fam, gw)"
  shows "so_ns (applyRoute_obs fam gw s) = so_ns s" "so_reg (applyRoute_obs fam gw s) = so_reg s"
    "so_tracker (applyRoute_obs fam gw s) = so_tracker s"
  using assms by (auto simp: in_place_def applyRoute_obs_def)

lemma reconcile_obs_in_place:
  assumes "\<And>fam addrs. l = Some addrs \<Longrightarrow> first_addr fam addrs \<noteq> [] \<Longrightarrow> in_place (so_ns s) (fam, first_addr fam addrs)"
  shows "so_ns (reconcile_obs l s) = so_ns s" "replaced (so_reg (reconcile_obs l s)) f = replaced (so_reg s) f"
proof -
  have one: "so_ns (family_obs fam gw t) = so_ns t \<and> replaced (so_reg (family_obs fam gw t)) f = replaced (so_reg t) f"
    if "gw \<noteq> [] \<Longrightarrow> in_place (so_ns t) (fam, gw)" for fam gw t
    using that applyRoute_obs_in_place [of "resolve_inc (sa_familyName fam) ''ok'' t" fam gw]
    by (auto simp: family_obs_def resolve_inc_def replaced_def series_count_inc)
  show "so_ns (reconcile_obs l s) = so_ns s" "replaced (so_reg (reconcile_obs l s)) f = replaced (so_reg s) f"
    using assms one
    by (auto simp: reconcile_obs_def pick_addrs_eq resolve_inc_def replaced_def series_count_inc split: option.split)
qed

lemma sa_loop_in_place:
  assumes "\<And>w. w \<in> wanted_gateways ips lookups \<Longrightarrow> in_place (so_ns s) w"
  shows "so_ns (sa_loop_obs ips lookups s) = so_ns s" "replaced (so_reg (sa_loop_obs ips lookups s)) f = replaced (so_reg s) f"
proof -
  have ip: "so_ns (foldl (\<lambda>s ip. applyRoute_obs (if to4 ip = [] then AF_INET6 else AF_INET) ip s) t is) = so_ns t
      \<and> so_reg (foldl (\<lambda>s ip. applyRoute_obs (if to4 ip = [] then AF_INET6 else AF_INET) ip s) t is) = so_reg t"
    if "\<And>ip. ip \<in> set is \<Longrightarrow> in_place (so_ns t) (if to4 ip = [] then AF_INET6 else AF_INET, ip)" for t "is"
    using that by (induction "is" arbitrary: t) (simp_all add: applyRoute_obs_in_place del: if_split_asm)
  have dns: "so_ns (foldl (\<lambda>s l. reconcile_obs l s) t ls) = so_ns t
      \<and> replaced (so_reg (foldl (\<lambda>s l. reconcile_obs l s) t ls)) f = replaced (so_reg t) f"
    if "\<And>fam addrs. Some addrs \<in> set ls \<Longrightarrow> first_addr fam addrs \<noteq> [] \<Longrightarrow> in_place (so_ns t) (fam, first_addr fam addrs)" for t ls
    using that by (induction ls arbitrary: t) (simp_all add: reconcile_obs_in_place)
  let ?s = "s\<lparr>so_mgr := recordOriginals (so_ns s) (so_mgr s)\<rparr>"
  have "so_ns (sa_loop_obs ips lookups s) = so_ns s \<and> replaced (so_reg (sa_loop_obs ips lookups s)) f = replaced (so_reg s) f"
  proof (cases "ips = []")
    case True
    have "in_place (so_ns ?s) (fam, first_addr fam addrs)"
      if "Some addrs \<in> set lookups" "first_addr fam addrs \<noteq> []" for fam addrs
      using assms [of "(fam, first_addr fam addrs)"] that True by (auto simp: wanted_gateways_def)
    then show ?thesis using dns [of lookups ?s] True by (simp add: sa_loop_obs_def)
  next
    case False
    have "in_place (so_ns ?s) (if to4 ip = [] then AF_INET6 else AF_INET, ip)" if "ip \<in> set ips" for ip
      using assms that False by (auto simp: wanted_gateways_def)
    then show ?thesis using ip [of ips ?s] False by (simp add: sa_loop_obs_def)
  qed
  then show "so_ns (sa_loop_obs ips lookups s) = so_ns s" "replaced (so_reg (sa_loop_obs ips lookups s)) f = replaced (so_reg s) f"
    by simp_all
qed

text \<open>C33. A service anchor that finds its routes in place is never ready. If every gateway that the configuration or the
  lookups ask for is the gateway of the kernel's default route already, as it is after the anchor
  itself has been killed and started again, then nothing is replaced, so the readiness endpoint
  answers 503 and the gauge of the present default route stays zero in both families, after any number of ticks.\<close>

theorem adopted_route_never_ready:
  assumes "\<And>w. w \<in> wanted_gateways ips lookups \<Longrightarrow> in_place ns w"
  shows "let s = sa_loop_obs ips lookups (sa_boot ns now info) in
     so_ns s = ns
     \<and> rs_status (ServiceAnchorReadinessHandler (so_tracker s)) = 503
     \<and> (\<forall>fam. gauges (so_reg s) (''anchord_default_route_present'', [sa_familyName fam]) = Some 0)"
proof -
  have none: "replaced (so_reg (sa_loop_obs ips lookups (sa_boot ns now info))) f = 0" for f
    using sa_loop_in_place(2) [of ips lookups "sa_boot ns now info" f] assms by (simp add: boot_reports) (simp add: sa_boot_def)
  show ?thesis
    using sa_loop_reports [of ips lookups ns now info] sa_loop_in_place(1) [of ips lookups "sa_boot ns now info"] assms
    by (simp add: sa_reports_inv_def none ServiceAnchorReadinessHandler_def Let_def) (simp add: sa_boot_def)
qed

definition adopted_netns :: netns where
  "adopted_netns = \<lparr>ns_routes = (\<lambda>fam. if fam = AF_INET
       then [\<lparr>rt_dst = None, rt_gw = [172, 18, 0, 2], rt_prio = 0\<rparr>] else []),
     ns_list_fails = (\<lambda>_. False), ns_add_fails = (\<lambda>_ _. False), ns_del_fails = (\<lambda>_ _. False)\<rparr>"

lemma adopted_route_never_ready_witness:
  "let s = sa_loop_obs [] [Some [[172, 18, 0, 2]], None, Some [[172, 18, 0, 2]]] (sa_boot adopted_netns 7 None) in
     so_ns s = adopted_netns
     \<and> rs_status (ServiceAnchorReadinessHandler (so_tracker s)) = 503
     \<and> (\<forall>fam. gauges (so_reg s) (''anchord_default_route_present'', [sa_familyName fam]) = Some 0)"
proof (rule adopted_route_never_ready)
  fix w assume "w \<in> wanted_gateways [] [Some [[172, 18, 0, 2]], None, Some [[172, 18, 0, 2]]]"
  then obtain fam where w: "w = (fam, first_addr fam [[172, 18, 0, 2]])" "first_addr fam [[172, 18, 0, 2]] \<noteq> []"
    by (auto simp: wanted_gateways_def)
  have "RecordDefaultRoute AF_INET adopted_netns = Some [172, 18, 0, 2]" by code_simp
  moreover have "first_addr AF_INET6 [[172, 18, 0, 2]] = []" "first_addr AF_INET [[172, 18, 0, 2]] = [172, 18, 0, 2]"
    by code_simp+
  ultimately show "in_place adopted_netns w" using w by (cases fam) (auto simp: in_place_def ip_equal_def)
qed

end
