(* ===== verification/ServiceProcess.thy ===== *)
theory ServiceProcess
  imports AnchordMain ServiceReports
begin

section \<open>A service anchor from its start to its end\<close>

text \<open>
  \<open>run\<close> of \<open>src/cmd/anchord/main.go\<close> and the service anchor as a process: the mode, the configuration, the loop of
  either mode with its reports (theory \<open>ServiceReports\<close>), and the cleanup after a signal. The routing tables are the
  environment of theory \<open>NetlinkRoutes\<close>; here nothing is refused, and each table has at most one default route to begin with.

  Shown: what the process leaves behind, exactly, for any configuration and any lookups (\<open>service_anchor_ends\<close>).
  A family is followed through a run by the list of the gateways that were asked for (\<open>tracked\<close>).
\<close>

subsection \<open>One routing table through a run\<close>

definition default_route :: "nl_route \<Rightarrow> bool" where
  "default_route r \<longleftrightarrow> is_default_dst (rt_dst r)"

text \<open>The table of a family as Docker leaves it: at most one default route, which the reader can see and
  \<open>RouteReplace\<close> replaces.\<close>

definition tidy :: "nl_route list \<Rightarrow> bool" where
  "tidy rs \<longleftrightarrow> length (filter default_route rs) \<le> 1
     \<and> (\<forall>r \<in> set rs. default_route r \<longrightarrow> rt_prio r = 0 \<and> rt_gw r \<noteq> [] \<and> (rt_dst r = None \<or> sa_isAllZerosCIDR (rt_dst r)))"

lemma tidy_Cons:
  "tidy (r # rs) \<longleftrightarrow> (if default_route r
     then filter default_route rs = [] \<and> rt_prio r = 0 \<and> rt_gw r \<noteq> [] \<and> (rt_dst r = None \<or> sa_isAllZerosCIDR (rt_dst r))
     else tidy rs)"
  by (auto simp: tidy_def filter_empty_conv)

lemma tidy_gw: "tidy rs \<Longrightarrow> filter default_route rs = d # ds \<Longrightarrow> rt_gw d \<noteq> []"
  by (induction rs) (auto simp: tidy_Cons split: if_splits)

lemma zeros_default: "rt_dst r = None \<or> sa_isAllZerosCIDR (rt_dst r) \<Longrightarrow> default_route r"
  by (auto simp: default_route_def is_default_dst_def sa_isAllZerosCIDR_def split: option.splits)

lemma first_gateway_tidy:
  "tidy rs \<Longrightarrow> sa_first_gateway rs = (case filter default_route rs of [] \<Rightarrow> [] | r # _ \<Rightarrow> rt_gw r)"
proof (induction rs)
  case (Cons r rs)
  then show ?case using zeros_default [of r] by (auto simp: tidy_Cons split: if_splits)
qed simp

lemma route_for:
  assumes "sa_defaultRouteFor fam gw = Some r" "gw \<noteq> []"
  shows "default_route r" "rt_prio r = 0" "rt_gw r \<noteq> []" "sa_isAllZerosCIDR (rt_dst r)" "ip_equal (rt_gw r) gw"
  using assms
  by (auto simp: sa_defaultRouteFor_def default_route_def is_default_dst_def sa_isAllZerosCIDR_def v4_zero_def v6_zero_def
      is_unspecified_def ip_equal_to4 split: af.splits if_splits)

lemma same_dst_default: "default_route r \<Longrightarrow> same_dst r x \<longleftrightarrow> default_route x"
  by (auto simp: same_dst_def default_route_def)

lemma replace_in_tidy:
  assumes "tidy rs" "default_route r" "rt_prio r = 0"
  shows "filter default_route (replace_in r rs) = [r]"
    "filter (\<lambda>x. \<not> default_route x) (replace_in r rs) = filter (\<lambda>x. \<not> default_route x) rs"
  using assms by (induction rs) (auto simp: tidy_Cons same_dst_default split: if_splits)

lemma delete_in_tidy:
  assumes "tidy rs" "default_route r"
  shows "delete_in r rs = (case filter default_route rs of [] \<Rightarrow> None
      | x # _ \<Rightarrow> if ip_equal (rt_gw r) (rt_gw x) then Some (filter (\<lambda>x. \<not> default_route x) rs) else None)"
  using assms
proof (induction rs)
  case (Cons x rs)
  have all: "filter default_route rs = [] \<Longrightarrow> filter (\<lambda>x. \<not> default_route x) rs = rs"
    by (auto simp: filter_empty_conv filter_id_conv)
  have none: "filter default_route rs = [] \<Longrightarrow> delete_in r rs = None"
    using Cons.prems(2) by (induction rs) (auto simp: same_dst_default split: if_splits)
  show ?case
    using Cons by (cases "default_route x") (auto simp: tidy_Cons same_dst_default all none split: list.split)
qed simp

lemma tidyI: "filter default_route rs' = [r] \<Longrightarrow> rt_prio r = 0 \<Longrightarrow> rt_gw r \<noteq> [] \<Longrightarrow> rt_dst r = None \<or> sa_isAllZerosCIDR (rt_dst r)
    \<Longrightarrow> tidy rs'"
proof -
  assume f: "filter default_route rs' = [r]" and r: "rt_prio r = 0" "rt_gw r \<noteq> []" "rt_dst r = None \<or> sa_isAllZerosCIDR (rt_dst r)"
  have "x = r" if "x \<in> set rs'" "default_route x" for x
  proof -
    have "x \<in> set (filter default_route rs')" using that by simp
    then show ?thesis by (simp add: f)
  qed
  with f r show "tidy rs'" by (auto simp: tidy_def)
qed

text \<open>What \<open>applyRoute\<close> does to the family of its route: the table, and the cached gateway.\<close>

definition family_step :: "af \<Rightarrow> net_ip \<Rightarrow> nl_route list \<Rightarrow> nl_route list" where
  "family_step fam w rs =
     (if sa_first_gateway rs \<noteq> [] \<and> ip_equal (sa_first_gateway rs) w then rs
      else case sa_defaultRouteFor fam w of None \<Rightarrow> rs | Some r \<Rightarrow> replace_in r rs)"

definition willing :: "netns \<Rightarrow> bool" where
  "willing ns \<longleftrightarrow> (\<forall>fam. \<not> ns_list_fails ns fam) \<and> (\<forall>fam r. \<not> ns_add_fails ns fam r) \<and> (\<forall>fam r. \<not> ns_del_fails ns fam r)"

lemma applyRoute_family:
  assumes "willing ns" "sa_defaultRouteFor fam w \<noteq> None" "applyRoute fam w (m, ns) = ((m', ns'), b)"
  shows "willing ns'" "ns_routes ns' fam' = (if fam' = fam then family_step fam w (ns_routes ns fam) else ns_routes ns fam')"
    "map_of (sa_current m') fam' = (if fam' = fam then Some w else map_of (sa_current m) fam')"
    "sa_original m' = sa_original m" "gm_ok (sa_current m) \<Longrightarrow> gm_ok (sa_current m')"
  using assms
  by (auto simp: applyRoute_def Let_def RecordDefaultRoute_def RouteList_def willing_def family_step_def sa_ReplaceDefaultRoute_def
      RouteReplace_def split: option.splits if_splits)

lemma family_step_tidy:
  assumes "tidy rs" "sa_defaultRouteFor fam w = Some r" "w \<noteq> []"
  shows "tidy (family_step fam w rs)"
    "filter (\<lambda>x. \<not> default_route x) (family_step fam w rs) = filter (\<lambda>x. \<not> default_route x) rs"
    "\<exists>d. filter default_route (family_step fam w rs) = [d] \<and> ip_equal (rt_gw d) w"
proof -
  note r = route_for [OF assms(2,3)]
  note rep = replace_in_tidy [OF assms(1) r(1,2)]
  have "tidy (replace_in r rs)" using tidyI [OF rep(1)] r by blast
  then show "tidy (family_step fam w rs)" using assms(1) by (simp add: family_step_def assms(2))
  show "filter (\<lambda>x. \<not> default_route x) (family_step fam w rs) = filter (\<lambda>x. \<not> default_route x) rs"
    by (simp add: family_step_def assms(2) rep(2))
  show "\<exists>d. filter default_route (family_step fam w rs) = [d] \<and> ip_equal (rt_gw d) w"
  proof (cases "sa_first_gateway rs \<noteq> [] \<and> ip_equal (sa_first_gateway rs) w")
    case True
    then obtain d ds where d: "filter default_route rs = d # ds" "ip_equal (rt_gw d) w"
      using first_gateway_tidy [OF assms(1)] by (auto split: list.splits)
    moreover have "length (filter default_route rs) \<le> 1" using assms(1) by (simp add: tidy_def)
    ultimately show ?thesis using True by (simp add: family_step_def)
  next
    case False
    then have "family_step fam w rs = replace_in r rs" by (auto simp: family_step_def assms(2))
    then show ?thesis by (simp add: rep(1) r(5))
  qed
qed

definition followed :: "nl_route list \<Rightarrow> net_ip list \<Rightarrow> af \<Rightarrow> sa_manager \<times> netns \<Rightarrow> bool" where
  "followed rs0 ws fam s \<longleftrightarrow> tidy (ns_routes (snd s) fam)
     \<and> filter (\<lambda>x. \<not> default_route x) (ns_routes (snd s) fam) = filter (\<lambda>x. \<not> default_route x) rs0
     \<and> (if ws = [] then ns_routes (snd s) fam = rs0 \<and> map_of (sa_current (fst s)) fam = None
        else map_of (sa_current (fst s)) fam = Some (last ws) \<and> last ws \<noteq> [] \<and> sa_defaultRouteFor fam (last ws) \<noteq> None
           \<and> (\<exists>d. filter default_route (ns_routes (snd s) fam) = [d] \<and> ip_equal (rt_gw d) (last ws)))"

lemma followed_apply:
  assumes "followed rs0 ws fam s" "willing (snd s)" "w \<noteq> []" "sa_defaultRouteFor fam' w \<noteq> None"
  shows "followed rs0 (if fam' = fam then ws @ [w] else ws) fam (fst (applyRoute fam' w s))"
    "willing (snd (fst (applyRoute fam' w s)))"
    "sa_original (fst (fst (applyRoute fam' w s))) = sa_original (fst s)"
    "gm_ok (sa_current (fst s)) \<Longrightarrow> gm_ok (sa_current (fst (fst (applyRoute fam' w s))))"
proof -
  obtain m ns where s: "s = (m, ns)" by (cases s)
  obtain m' ns' b where run: "applyRoute fam' w (m, ns) = ((m', ns'), b)" by (metis prod.collapse)
  obtain r where r: "sa_defaultRouteFor fam' w = Some r" using assms(4) by blast
  note step = applyRoute_family [OF assms(2) [unfolded s snd_conv] assms(4) run]
  have "followed rs0 (if fam' = fam then ws @ [w] else ws) fam (m', ns')"
    using assms(1,3) r family_step_tidy [OF _ r assms(3), of "ns_routes ns fam'"] step(2,3)
    by (cases "fam' = fam") (auto simp: s followed_def)
  then show "followed rs0 (if fam' = fam then ws @ [w] else ws) fam (fst (applyRoute fam' w s))" by (simp add: s run)
  show "willing (snd (fst (applyRoute fam' w s)))"
    "sa_original (fst (fst (applyRoute fam' w s))) = sa_original (fst s)"
    "gm_ok (sa_current (fst s)) \<Longrightarrow> gm_ok (sa_current (fst (fst (applyRoute fam' w s))))"
    using step(1,4,5) by (simp_all add: s run)
qed
text \<open>The gateways a run has asked for, in order.\<close>

definition asked :: "net_ip list \<Rightarrow> net_ip list option list \<Rightarrow> af \<Rightarrow> net_ip list" where
  "asked ips lookups fam =
     (if ips \<noteq> [] then filter (\<lambda>ip. (to4 ip = []) = (fam = AF_INET6)) ips
      else filter (\<lambda>a. a \<noteq> []) (map (first_addr fam) (List.map_filter id lookups)))"

definition tracked :: "(af \<Rightarrow> nl_route list) \<Rightarrow> (af \<Rightarrow> net_ip list) \<Rightarrow> sa_manager \<times> netns \<Rightarrow> sa_manager \<times> netns \<Rightarrow> bool" where
  "tracked rs0 ws s0 s \<longleftrightarrow> (\<forall>fam. followed (rs0 fam) (ws fam) fam s) \<and> willing (snd s)
     \<and> sa_original (fst s) = sa_original (fst s0) \<and> gm_ok (sa_current (fst s))"

lemma tracked_apply:
  assumes "tracked rs0 ws s0 s" "w \<noteq> []" "sa_defaultRouteFor fam w \<noteq> None"
  shows "tracked rs0 (ws(fam := ws fam @ [w])) s0 (fst (applyRoute fam w s))"
proof -
  have f: "followed (rs0 f) (ws f) f s" and w: "willing (snd s)" for f using assms(1) by (simp_all add: tracked_def)
  note step = followed_apply [OF f w assms(2,3)]
  have "followed (rs0 f) ((ws(fam := ws fam @ [w])) f) f (fst (applyRoute fam w s))" for f
    using step(1) [of f] by (cases "f = fam") (simp_all split: if_splits)
  then show ?thesis using assms(1) step(2-4) by (simp add: tracked_def)
qed

lemma tracked_ips:
  assumes "tracked rs0 ws s0 s" "[] \<notin> set ips"
  shows "tracked rs0 (\<lambda>fam. ws fam @ filter (\<lambda>ip. (to4 ip = []) = (fam = AF_INET6)) ips) s0 (install_ips ips s)"
  using assms
proof (induction ips arbitrary: ws s)
  case (Cons ip ips)
  let ?fam = "if to4 ip = [] then AF_INET6 else AF_INET"
  have "tracked rs0 (ws(?fam := ws ?fam @ [ip])) s0 (fst (applyRoute ?fam ip s))"
    by (rule tracked_apply [OF Cons.prems(1)]) (use Cons.prems(2) in \<open>auto simp: sa_defaultRouteFor_def\<close>)
  from Cons.IH [OF this] Cons.prems(2)
  have "tracked rs0 (\<lambda>fam. (ws(?fam := ws ?fam @ [ip])) fam @ filter (\<lambda>ip. (to4 ip = []) = (fam = AF_INET6)) ips) s0
      (install_ips (ip # ips) s)" by simp
  moreover have "(\<lambda>fam. (ws(?fam := ws ?fam @ [ip])) fam @ filter (\<lambda>ip. (to4 ip = []) = (fam = AF_INET6)) ips)
      = (\<lambda>fam. ws fam @ filter (\<lambda>ip. (to4 ip = []) = (fam = AF_INET6)) (ip # ips))"
  proof
    fix fam
    show "(ws(?fam := ws ?fam @ [ip])) fam @ filter (\<lambda>ip. (to4 ip = []) = (fam = AF_INET6)) ips
        = ws fam @ filter (\<lambda>ip. (to4 ip = []) = (fam = AF_INET6)) (ip # ips)"
      by (cases fam) simp_all
  qed
  ultimately show ?case by simp
qed simp

lemma tracked_reconcile:
  assumes "tracked rs0 ws s0 s"
  shows "tracked rs0 (\<lambda>fam. ws fam @ filter (\<lambda>a. a \<noteq> []) (map (first_addr fam) (List.map_filter id [l]))) s0 (sa_reconcile l s)"
proof (cases l)
  case None
  then show ?thesis using assms by (simp add: sa_reconcile_def map_filter_simps)
next
  case (Some addrs)
  let ?w = "\<lambda>fam. first_addr fam addrs"
  have one: "tracked rs0 (\<lambda>f. if f = fam then vs fam @ filter (\<lambda>a. a \<noteq> []) [?w fam] else vs f) s0
      (if ?w fam \<noteq> [] then fst (applyRoute fam (?w fam) t) else t)" if "tracked rs0 vs s0 t" for vs t fam
  proof (cases "?w fam = []")
    case True
    have "(\<lambda>f. if f = fam then vs fam @ filter (\<lambda>a. a \<noteq> []) [?w fam] else vs f) = vs" using True by (intro ext) simp
    with that True show ?thesis by simp
  next
    case False
    have "(\<lambda>f. if f = fam then vs fam @ filter (\<lambda>a. a \<noteq> []) [?w fam] else vs f) = vs(fam := vs fam @ [?w fam])"
      using False by (intro ext) simp
    with tracked_apply [OF that False] first_addr_fits [OF False] False show ?thesis by simp
  qed
  have two: "(\<lambda>f. if f = AF_INET6 then (if AF_INET6 = AF_INET then ws AF_INET @ filter (\<lambda>a. a \<noteq> []) [?w AF_INET] else ws AF_INET6)
        @ filter (\<lambda>a. a \<noteq> []) [?w AF_INET6] else if f = AF_INET then ws AF_INET @ filter (\<lambda>a. a \<noteq> []) [?w AF_INET] else ws f)
      = (\<lambda>f. ws f @ filter (\<lambda>a. a \<noteq> []) [?w f])"
  proof
    fix f :: af
    show "(if f = AF_INET6 then (if AF_INET6 = AF_INET then ws AF_INET @ filter (\<lambda>a. a \<noteq> []) [?w AF_INET] else ws AF_INET6)
        @ filter (\<lambda>a. a \<noteq> []) [?w AF_INET6] else if f = AF_INET then ws AF_INET @ filter (\<lambda>a. a \<noteq> []) [?w AF_INET] else ws f)
      = ws f @ filter (\<lambda>a. a \<noteq> []) [?w f]" by (cases f) auto
  qed
  show ?thesis
    using one [OF one [OF assms, of AF_INET], of AF_INET6] unfolding two
    by (simp add: Some sa_reconcile_eq Let_def map_filter_simps)
qed

lemma tracked_lookups:
  assumes "tracked rs0 ws s0 s"
  shows "tracked rs0 (\<lambda>fam. ws fam @ filter (\<lambda>a. a \<noteq> []) (map (first_addr fam) (List.map_filter id ls))) s0
      (foldl (\<lambda>s l. sa_reconcile l s) s ls)"
  using assms
proof (induction ls arbitrary: ws s)
  case (Cons l ls)
  let ?F = "\<lambda>ls fam. filter (\<lambda>a. a \<noteq> []) (map (first_addr fam) (List.map_filter id ls))"
  have "(\<lambda>fam. (ws fam @ ?F [l] fam) @ ?F ls fam) = (\<lambda>fam. ws fam @ ?F (l # ls) fam)"
    by (intro ext) (cases l, simp_all add: map_filter_simps)
  with Cons.IH [OF tracked_reconcile [OF Cons.prems, of l]] show ?case by (simp only: foldl.simps)
qed (simp add: map_filter_simps)

lemma tracked_start:
  assumes "willing ns" "\<And>fam. tidy (ns_routes ns fam)"
  shows "tracked (ns_routes ns) (\<lambda>_. []) (recordOriginals ns sa_New, ns) (recordOriginals ns sa_New, ns)"
  using assms record_lookup(3) [of ns] by (simp add: tracked_def followed_def)

subsection \<open>The end of a run\<close>

lemma remove_family:
  assumes "gm_ok cur" "willing ns"
  shows "willing (remove_loop cur ns)"
    "ns_routes (remove_loop cur ns) fam = (case map_of cur fam of None \<Rightarrow> ns_routes ns fam
       | Some w \<Rightarrow> (case sa_defaultRouteFor fam w of None \<Rightarrow> ns_routes ns fam
           | Some r \<Rightarrow> (case delete_in r (ns_routes ns fam) of None \<Rightarrow> ns_routes ns fam | Some rs \<Rightarrow> rs)))"
proof -
  have w: "willing (snd (sa_RemoveDefaultRoute f g n))" if "willing n" for f g n
    using that by (auto simp: willing_def sa_RemoveDefaultRoute_def RouteDel_def split: option.split)
  have o: "ns_routes (snd (sa_RemoveDefaultRoute f g n)) fam' = ns_routes n fam'" if "f \<noteq> fam'" for f g n fam'
    using that by (auto simp: sa_RemoveDefaultRoute_def RouteDel_def split: option.split)
  have other: "ns_routes (remove_loop c n) f = ns_routes n f" if "f \<notin> fst ` set c" for c n f
    using that by (induction c n rule: remove_loop.induct) (auto simp: o)
  show "willing (remove_loop cur ns)" using assms(2) by (induction cur ns rule: remove_loop.induct) (simp_all add: w)
  show "ns_routes (remove_loop cur ns) fam = (case map_of cur fam of None \<Rightarrow> ns_routes ns fam
       | Some w \<Rightarrow> (case sa_defaultRouteFor fam w of None \<Rightarrow> ns_routes ns fam
           | Some r \<Rightarrow> (case delete_in r (ns_routes ns fam) of None \<Rightarrow> ns_routes ns fam | Some rs \<Rightarrow> rs)))"
    using assms(1,2)
  proof (induction cur ns rule: remove_loop.induct)
    case (2 f w rest n)
    show ?case
    proof (cases "f = fam")
      case True
      then have "fam \<notin> fst ` set rest" using "2.prems"(1) by (auto simp: gm_ok_def)
      then show ?thesis using True "2.prems"(2)
        by (simp add: other) (auto simp: sa_RemoveDefaultRoute_def RouteDel_def willing_def split: option.split)
    next
      case False
      have "gm_ok rest" using "2.prems"(1) by (simp add: gm_ok_def)
      with "2.IH" [OF _ w [OF "2.prems"(2)]] False show ?thesis by (simp only: remove_loop.simps o [OF False] map_of.simps) simp
    qed
  qed simp
qed

lemma restore_family:
  assumes "gm_ok orig" "willing ns"
  shows "ns_routes (restore_loop cur orig ns) fam = (case map_of orig fam of None \<Rightarrow> ns_routes ns fam
     | Some g \<Rightarrow> (case map_of cur fam of None \<Rightarrow> ns_routes ns fam
       | Some c \<Rightarrow> if ip_equal c g then ns_routes ns fam
           else (case sa_defaultRouteFor fam g of None \<Rightarrow> ns_routes ns fam | Some r \<Rightarrow> replace_in r (ns_routes ns fam))))"
proof -
  have w: "willing (snd (sa_ReplaceDefaultRoute f g n))" if "willing n" for f g n
    using that by (auto simp: willing_def sa_ReplaceDefaultRoute_def RouteReplace_def split: option.split)
  have o: "ns_routes (snd (sa_ReplaceDefaultRoute f g n)) fam' = ns_routes n fam'" if "f \<noteq> fam'" for f g n fam'
    using that by (auto simp: sa_ReplaceDefaultRoute_def RouteReplace_def split: option.split)
  have other: "ns_routes (restore_loop d c n) f = ns_routes n f" if "f \<notin> fst ` set c" for d c n f
    using that by (induction d c n rule: restore_loop.induct) (auto simp: o split: option.split)
  show ?thesis
    using assms
  proof (induction cur orig ns rule: restore_loop.induct)
    case (2 cur f g rest n)
    have ok: "gm_ok rest" using "2.prems"(1) by (simp add: gm_ok_def)
    show ?case
    proof (cases "f = fam")
      case True
      then have "fam \<notin> fst ` set rest" using "2.prems"(1) by (auto simp: gm_ok_def)
      then show ?thesis using True "2.prems"(2)
        by (auto simp: other sa_ReplaceDefaultRoute_def RouteReplace_def willing_def split: option.split)
    next
      case False
      then show ?thesis
        using "2.IH" ok "2.prems"(2) w [OF "2.prems"(2), of f g]
        by (auto simp: o split: option.split)
    qed
  qed simp
qed

text \<open>The default routes that a run leaves to a family whose default routes were \<open>ds\<close> and for which it has asked for
  the gateways \<open>ws\<close>.\<close>

definition left_behind :: "af \<Rightarrow> nl_route list \<Rightarrow> net_ip list \<Rightarrow> nl_route list" where
  "left_behind fam ds ws =
     (if ws = [] then ds
      else case ds of [] \<Rightarrow> []
      | d # _ \<Rightarrow> if ip_equal (last ws) (rt_gw d) then []
          else (case sa_defaultRouteFor fam (rt_gw d) of None \<Rightarrow> [] | Some r \<Rightarrow> [r]))"

lemma ip_equal_trans_any: "ip_equal a b \<Longrightarrow> ip_equal b c \<Longrightarrow> ip_equal a c"
  by (auto simp: ip_equal_def split: if_splits) (metis append_take_drop_id)

lemma cleanup_leaves:
  assumes "tracked (ns_routes ns) ws (recordOriginals ns sa_New, ns) s" "willing ns" "\<And>fam. tidy (ns_routes ns fam)"
    and "range_perm rng"
  shows "filter default_route (ns_routes (snd (cleanup rng s)) fam) = left_behind fam (filter default_route (ns_routes ns fam)) (ws fam)"
    "filter (\<lambda>x. \<not> default_route x) (ns_routes (snd (cleanup rng s)) fam) = filter (\<lambda>x. \<not> default_route x) (ns_routes ns fam)"
proof -
  obtain m n where s: "s = (m, n)" by (cases s)
  have f: "followed (ns_routes ns fam) (ws fam) fam (m, n)" and n: "willing n" and ok: "gm_ok (sa_current m)"
    and orig: "sa_original m = sa_original (recordOriginals ns sa_New)" using assms(1) by (simp_all add: tracked_def s)
  let ?n1 = "remove_loop (rng (sa_current m)) n"
  let ?rs = "ns_routes ns fam" and ?ds = "filter default_route (ns_routes ns fam)"
  let ?other = "filter (\<lambda>x. \<not> default_route x)"
  have rem: "willing ?n1" "ns_routes ?n1 fam = (case map_of (sa_current m) fam of None \<Rightarrow> ns_routes n fam
       | Some w \<Rightarrow> (case sa_defaultRouteFor fam w of None \<Rightarrow> ns_routes n fam
           | Some r \<Rightarrow> (case delete_in r (ns_routes n fam) of None \<Rightarrow> ns_routes n fam | Some rs \<Rightarrow> rs)))"
    using remove_family [of "rng (sa_current m)" n] ok n assms(4) by simp_all
  have o: "map_of (sa_original m) fam = (case ?ds of [] \<Rightarrow> None | d # _ \<Rightarrow> Some (rt_gw d))" "gm_ok (sa_original m)"
    using assms(2) first_gateway_tidy [OF assms(3) [of fam]] tidy_gw [OF assms(3) [of fam]]
    by (auto simp: orig record_lookup RecordDefaultRoute_def RouteList_def willing_def split: list.splits)
  have end_: "ns_routes (snd (cleanup rng s)) fam = (case map_of (sa_original m) fam of None \<Rightarrow> ns_routes ?n1 fam
     | Some g \<Rightarrow> (case map_of (sa_current m) fam of None \<Rightarrow> ns_routes ?n1 fam
       | Some c \<Rightarrow> if ip_equal c g then ns_routes ?n1 fam
           else (case sa_defaultRouteFor fam g of None \<Rightarrow> ns_routes ?n1 fam | Some r \<Rightarrow> replace_in r (ns_routes ?n1 fam))))"
    using restore_family [of "rng (sa_original m)" ?n1] o(2) rem(1) assms(4) by (simp add: cleanup_def s)
  have "filter default_route (ns_routes (snd (cleanup rng s)) fam) = left_behind fam ?ds (ws fam)
      \<and> ?other (ns_routes (snd (cleanup rng s)) fam) = ?other ?rs"
  proof (cases "ws fam = []")
    case True
    then have "map_of (sa_current m) fam = None" "ns_routes n fam = ?rs" using f by (simp_all add: followed_def)
    with True rem(2) show ?thesis by (simp add: end_ left_behind_def split: option.split)
  next
    case False
    let ?w = "last (ws fam)"
    obtain r d where w: "map_of (sa_current m) fam = Some ?w" "sa_defaultRouteFor fam ?w = Some r" "?w \<noteq> []"
      and d: "filter default_route (ns_routes n fam) = [d]" "ip_equal (rt_gw d) ?w"
      and t: "tidy (ns_routes n fam)" "?other (ns_routes n fam) = ?other ?rs"
      using f False by (auto simp: followed_def)
    note r = route_for [OF w(2,3)]
    have "ip_equal (rt_gw r) (rt_gw d)" using ip_equal_trans_any [OF r(5)] d(2) by (simp add: ip_equal_sym)
    then have n1: "ns_routes ?n1 fam = ?other ?rs"
      using delete_in_tidy [OF t(1) r(1)] by (simp add: rem(2) w(1,2) d(1) t(2))
    have t1: "tidy (?other ?rs)" by (auto simp: tidy_def)
    have put: "filter default_route (replace_in r' (?other ?rs)) = [r']" "?other (replace_in r' (?other ?rs)) = ?other ?rs"
      if "sa_defaultRouteFor fam g = Some r'" "g \<noteq> []" for g r'
      using replace_in_tidy [OF t1] route_for(1,2) [OF that] by simp_all
    show ?thesis
      using False put tidy_gw [OF assms(3) [of fam]]
      by (cases ?ds; auto simp: end_ n1 o(1) w(1) left_behind_def split: option.split)
  qed
  then show "filter default_route (ns_routes (snd (cleanup rng s)) fam) = left_behind fam ?ds (ws fam)"
    "?other (ns_routes (snd (cleanup rng s)) fam) = ?other ?rs" by simp_all
qed
subsection \<open>The process\<close>

text \<open>\<open>run\<close> of \<open>src/cmd/anchord/main.go\<close>: the modes are its argument; the doctor is given what follows its name.\<close>

definition main_run :: "(Mode \<Rightarrow> string list \<Rightarrow> 's \<Rightarrow> outcome \<times> 's) \<Rightarrow> string list \<Rightarrow> string \<Rightarrow> 's \<Rightarrow> outcome \<times> 's" where
  "main_run modes osArgs envMode s =
     (case selectMode osArgs envMode of Inl e \<Rightarrow> (Returned (Some e), s)
      | Inr mode \<Rightarrow>
          if mode = ModeDoctor then (if length osArgs < 2 then (Panics, s) else modes ModeDoctor (drop 2 osArgs) s)
          else modes mode [] s)"

text \<open>\<open>LookupIP\<close> of the production resolver: the addresses of the library's answer without their zones.\<close>

definition LookupIP :: "(net_ip \<times> string) list option \<Rightarrow> net_ip list option" where
  "LookupIP answer = (case answer of None \<Rightarrow> None | Some addrs \<Rightarrow> Some (map fst addrs))"

text \<open>\<open>runServiceAnchor\<close> until a signal has ended the context and \<open>Run\<close> has returned its error.\<close>

definition serviceAnchor :: "(string \<Rightarrow> duration option) \<Rightarrow> env \<Rightarrow> (gw_map \<Rightarrow> gw_map)
    \<Rightarrow> (net_ip \<times> string) list option list \<Rightarrow> sa_observed \<Rightarrow> outcome \<times> sa_observed" where
  "serviceAnchor parse_duration env rng answers s =
     (case runServiceAnchor parse_duration env of Inl e \<Rightarrow> (Returned (Some e), s)
      | Inr r \<Rightarrow> (Returned (Some Canceled), sa_Run_obs rng (sc_GatewayIPs (fst (mr_loop r))) (map LookupIP answers) s))"

lemma gateways_nonempty: "LoadServiceAnchor pd env = Inr cfg \<Longrightarrow> [] \<notin> set (sc_GatewayIPs cfg)"
  by (auto simp: LoadServiceAnchor_def parseGatewayIPs_def gateway_loop_iff canonical_def is_v4_def split: if_splits)

lemma sa_Run_tracked:
  assumes "willing ns" "\<And>fam. tidy (ns_routes ns fam)" "[] \<notin> set ips"
  shows "\<exists>s. snd (sa_core (sa_Run_obs rng ips lookups (sa_boot ns now info))) = snd (cleanup rng s)
    \<and> tracked (ns_routes ns) (asked ips lookups) (recordOriginals ns sa_New, ns) s"
proof (cases "ips = []")
  case True
  show ?thesis
    using tracked_lookups [OF tracked_start [OF assms(1,2)], of lookups] True
    by (intro exI [of _ "foldl (\<lambda>s l. sa_reconcile l s) (recordOriginals ns sa_New, ns) lookups"])
      (simp add: sa_Run_obs_same runDNSMode_def sa_boot_def asked_def [abs_def])
next
  case False
  show ?thesis
    using tracked_ips [OF tracked_start [OF assms(1,2)] assms(3)] False
    by (intro exI [of _ "install_ips ips (recordOriginals ns sa_New, ns)"])
      (simp add: sa_Run_obs_same runIPMode_def sa_boot_def asked_def [abs_def])
qed

text \<open>C31. The end of a service anchor. Whatever gateways it has been told to use, by configuration or by lookups, and
  whatever the order of the maps: a process that is told to stop exits with 0, has touched no route but the default
  ones, and leaves in each family: the default route it has found, when it was never asked for a gateway of the
  family; a route to the gateway that it has found, when the last one asked for is another; no default
  route, when there was none before. When the last one asked for is the one that was there, the
  default route is gone as well, although it was not the anchor's.\<close>

theorem service_anchor_ends:
  assumes "selectMode args envMode = Inr ModeServiceAnchor" "LoadServiceAnchor pd env = Inr cfg"
    and "modes ModeServiceAnchor [] = serviceAnchor pd env rng answers" "range_perm rng"
    and "willing ns" "\<And>fam. tidy (ns_routes ns fam)"
  shows "case main_run modes args envMode (sa_boot ns now info) of (out, s) \<Rightarrow>
    exit_code lib out = Some 0
    \<and> filter (\<lambda>r. \<not> default_route r) (ns_routes (so_ns s) fam) = filter (\<lambda>r. \<not> default_route r) (ns_routes ns fam)
    \<and> filter default_route (ns_routes (so_ns s) fam)
      = left_behind fam (filter default_route (ns_routes ns fam)) (asked (sc_GatewayIPs cfg) (map LookupIP answers) fam)"
proof -
  let ?o = "sa_Run_obs rng (sc_GatewayIPs cfg) (map LookupIP answers) (sa_boot ns now info)"
  have run: "main_run modes args envMode (sa_boot ns now info) = (Returned (Some Canceled), ?o)"
    using assms(1-3) by (simp add: main_run_def serviceAnchor_def runServiceAnchor_def)
  obtain s where s: "so_ns ?o = snd (cleanup rng s)"
    "tracked (ns_routes ns) (asked (sc_GatewayIPs cfg) (map LookupIP answers)) (recordOriginals ns sa_New, ns) s"
    using sa_Run_tracked [OF assms(5,6) gateways_nonempty [OF assms(2)], of rng "map LookupIP answers" now info]
    by (auto simp: sa_core_def)
  show ?thesis
    using cleanup_leaves [OF s(2) assms(5,6,4)] by (simp add: run s(1))
qed

lemma service_anchor_ends_witness:
  "case main_run (\<lambda>md rest. if md = ModeServiceAnchor then serviceAnchor (\<lambda>_. None) (env_of []) rev [Some [([10, 0, 0, 9], [])]]
        else (\<lambda>s. (Returned None, s)))
      [''anchord'', ''service-anchor''] [] (sa_boot (demo_netns [bridge_default]) 7 None) of (out, s) \<Rightarrow>
    exit_code False out = Some 0
    \<and> filter default_route (ns_routes (so_ns s) AF_INET) = [\<lparr>rt_dst = Some (v4_zero, 0), rt_gw = [172, 18, 0, 1], rt_prio = 0\<rparr>]"
proof -
  obtain cfg where cfg: "LoadServiceAnchor (\<lambda>_. None) (env_of []) = Inr cfg" "sc_GatewayIPs cfg = []"
    by (simp add: LoadServiceAnchor_def env_eval second_def)
  have mode: "selectMode [''anchord'', ''service-anchor''] [] = Inr ModeServiceAnchor" by code_simp
  have clean: "willing (demo_netns [bridge_default])" "tidy (ns_routes (demo_netns [bridge_default]) fam)" for fam
    by (simp_all add: willing_def demo_netns_def bridge_default_def tidy_def default_route_def is_default_dst_def)
  show ?thesis
    using service_anchor_ends [OF mode cfg(1) _ _ clean, where modes = "\<lambda>md rest. if md = ModeServiceAnchor
        then serviceAnchor (\<lambda>_. None) (env_of []) rev [Some [([10, 0, 0, 9], [])]] else (\<lambda>s. (Returned None, s))" and rng = rev
        and answers = "[Some [([10, 0, 0, 9], [])]]" and now = 7 and info = None and lib = False and fam = AF_INET]
    by (auto simp: cfg(2) LookupIP_def asked_def left_behind_def first_addr_def to4_def demo_netns_def bridge_default_def default_route_def
        is_default_dst_def ip_equal_def sa_defaultRouteFor_def map_filter_simps split: prod.splits)
qed

end
