(* ===== verification/EventStream.thy ===== *)
theory EventStream
  imports Autostart Rebinder WrapRebinder Discovery
begin

section \<open>The Docker event streams of the watchers\<close>

text \<open>
  \<open>dockerAdapter.Events\<close> of \<open>src/internal/rebinder/rebinder.go\<close>, \<open>src/internal/autostart/autostart.go\<close> and
  \<open>src/internal/wraprebinder/wraprebinder.go\<close>: each subscribes with a filter and starts a goroutine that
  turns what the Docker client sends into events, through a channel with a buffer; \<open>consume\<close> of the same
  package reads that channel and the channel of errors with a \<open>select\<close>. The three differ in the filter, the
  capacity, the event they build and the errors they forward, which are the fields of an
  \<open>event_source\<close>. The goroutine closes both channels when it returns; one step stands for both, since what the
  consumer can do between the two it can also do after them. A handler is one step: it does not touch the stream.

  Shown: the filters hold back no event that a handler would act on (\<open>subscribed_enough\<close>); events are
  handled in order, and what is never handled is at most what fits into the buffer and the hand of the
  goroutine (\<open>stream_in_order\<close>); as the \<open>select\<close> takes any ready case, an error can make \<open>consume\<close> drop events that
  are already in the buffer (\<open>buffered_events_are_dropped\<close>).
\<close>

subsection \<open>The sources\<close>

text \<open>A message of the Docker client. Indexing its attributes gives the empty string for a missing key.\<close>

record raw_message =
  rm_Type :: string
  rm_Action :: string
  rm_ID :: string
  rm_Attributes :: "string \<rightharpoonup> string"

definition attribute :: "raw_message \<Rightarrow> string \<Rightarrow> string" where
  "attribute m k = (case rm_Attributes m k of None \<Rightarrow> [] | Some v \<Rightarrow> v)"

text \<open>\<open>src_forward\<close> is what becomes of an error that is not (or is, \<open>True\<close>) \<open>context.Canceled\<close>.\<close>

record 'm event_source =
  src_filter :: filter_args
  src_cap :: nat
  src_forward :: "bool \<times> string \<Rightarrow> string option"
  src_event :: "raw_message \<Rightarrow> 'm"

definition rb_Events :: "rb_event event_source" where
  "rb_Events =
     \<lparr>src_filter = [(''type'', ''network''), (''event'', ''create''), (''event'', ''destroy''),
        (''event'', ''connect''), (''event'', ''disconnect'')],
      src_cap = 4,
      src_forward = (\<lambda>(is_canceled, e). if \<not> is_canceled then Some e else None),
      src_event = (\<lambda>m. \<lparr>re_Action = rm_Action m, re_NetworkID = rm_ID m,
        re_Name = attribute m ''name'', re_ContainerID = attribute m ''container''\<rparr>)\<rparr>"

definition as_Events :: "as_event event_source" where
  "as_Events =
     \<lparr>src_filter = [(''type'', ''container''), (''event'', ''start''), (''event'', ''destroy'')],
      src_cap = 4,
      src_forward = (\<lambda>(is_canceled, e). Some e),
      src_event = (\<lambda>m. \<lparr>Action = rm_Action m, ActorID = rm_ID m, ActorName = attribute m ''name''\<rparr>)\<rparr>"

definition wr_Events :: "wr_event event_source" where
  "wr_Events =
     \<lparr>src_filter = [(''type'', ''container''), (''event'', ''start'')],
      src_cap = 8,
      src_forward = (\<lambda>(is_canceled, e). if \<not> is_canceled then Some e else None),
      src_event = (\<lambda>m. \<lparr>we_Action = rm_Action m, we_ContainerID = rm_ID m,
        we_ContainerName = attribute m ''name'', we_Project = attribute m ''com.docker.compose.project''\<rparr>)\<rparr>"

subsection \<open>What the filters let through\<close>

text \<open>The documented reading of a filter: the values of a key are alternatives, the keys all hold.\<close>

definition admitted_by :: "filter_args \<Rightarrow> string \<Rightarrow> string \<Rightarrow> bool" where
  "admitted_by f k v \<longleftrightarrow> k \<notin> fst ` set f \<or> (k, v) \<in> set f"

definition admits :: "filter_args \<Rightarrow> raw_message \<Rightarrow> bool" where
  "admits f m \<longleftrightarrow> admitted_by f ''type'' (rm_Type m) \<and> admitted_by f ''event'' (rm_Action m)"

lemmas admits_defs = admits_def admitted_by_def

lemma rb_admits: "admits (src_filter rb_Events) m
    \<longleftrightarrow> rm_Type m = ''network'' \<and> rm_Action m \<in> {''create'', ''destroy'', ''connect'', ''disconnect''}"
  by (auto simp: admits_defs rb_Events_def)

lemma as_admits: "admits (src_filter as_Events) m
    \<longleftrightarrow> rm_Type m = ''container'' \<and> rm_Action m \<in> {''start'', ''destroy''}"
  by (auto simp: admits_defs as_Events_def)

lemma wr_admits: "admits (src_filter wr_Events) m \<longleftrightarrow> rm_Type m = ''container'' \<and> rm_Action m = ''start''"
  by (auto simp: admits_defs wr_Events_def)

text \<open>The handlers leave alone what is held back.\<close>

lemma rb_consume_done: "d_done D (snd s) \<Longrightarrow> rb_consume D ms s = Some s"
  by (cases ms) simp_all

lemma rb_consume_skip:
  assumes "rm_Type m = ''network''" "\<not> admits (src_filter rb_Events) m"
  shows "rb_consume D (src_event rb_Events m # ms) s = rb_consume D ms s"
proof -
  have "rb_handle D (src_event rb_Events m) s = Some s"
    using assms unfolding rb_admits by (auto simp: rb_Events_def rb_handle_def split: prod.split)
  then show ?thesis by (simp add: rb_consume_done)
qed

lemma as_consume_skip:
  assumes "rm_Type m = ''container''" "\<not> admits (src_filter as_Events) m"
  shows "as_consume D w (src_event as_Events m # ms) h = as_consume D w ms h"
  using assms unfolding as_admits by (cases ms) (auto simp: as_Events_def)

lemma wr_consume_skip:
  assumes "rm_Type m = ''container''" "\<not> admits (src_filter wr_Events) m"
  shows "wr_consume D rng (WrMsg (src_event wr_Events m) # ms) s = wr_consume D rng ms s"
  using assms unfolding wr_admits by (cases ms) (auto simp: wr_Events_def)

text \<open>C40. The subscriptions are wide enough: each watcher does with the messages its filter admits exactly what it
  would do with all network messages (the rebinder) or all container messages (autostart and the wrap
  rebinder), whatever these do and however the daemon answers.\<close>

theorem subscribed_enough:
  "rb_consume D (map (src_event rb_Events) (filter (admits (src_filter rb_Events)) ms)) s
     = rb_consume D (map (src_event rb_Events) (filter (\<lambda>m. rm_Type m = ''network'') ms)) s
   \<and> as_consume D w (map (src_event as_Events) (filter (admits (src_filter as_Events)) ms)) h
     = as_consume D w (map (src_event as_Events) (filter (\<lambda>m. rm_Type m = ''container'') ms)) h
   \<and> wr_consume D rng (map (WrMsg \<circ> src_event wr_Events) (filter (admits (src_filter wr_Events)) ms)) t
     = wr_consume D rng (map (WrMsg \<circ> src_event wr_Events) (filter (\<lambda>m. rm_Type m = ''container'') ms)) t"
proof (intro conjI)
  show "rb_consume D (map (src_event rb_Events) (filter (admits (src_filter rb_Events)) ms)) s
     = rb_consume D (map (src_event rb_Events) (filter (\<lambda>m. rm_Type m = ''network'') ms)) s"
  proof (induction ms arbitrary: s)
    case (Cons m ms)
    then show ?case
      using rb_consume_skip [of m D] by (cases "admits (src_filter rb_Events) m") (auto simp: rb_admits split: option.split)
  qed simp
  show "as_consume D w (map (src_event as_Events) (filter (admits (src_filter as_Events)) ms)) h
     = as_consume D w (map (src_event as_Events) (filter (\<lambda>m. rm_Type m = ''container'') ms)) h"
  proof (induction ms arbitrary: h)
    case (Cons m ms)
    then show ?case
      using as_consume_skip [of m D] by (cases "admits (src_filter as_Events) m") (auto simp: as_admits)
  qed simp
  show "wr_consume D rng (map (WrMsg \<circ> src_event wr_Events) (filter (admits (src_filter wr_Events)) ms)) t
     = wr_consume D rng (map (WrMsg \<circ> src_event wr_Events) (filter (\<lambda>m. rm_Type m = ''container'') ms)) t"
  proof (induction ms arbitrary: t)
    case (Cons m ms)
    then show ?case
      using wr_consume_skip [of m D] by (cases "admits (src_filter wr_Events) m") (auto simp: wr_admits)
  qed simp
qed

subsection \<open>The goroutine and its consumer\<close>

datatype consumer_end = ConsumeCtx | ErrsClosed | MsgsClosed | StreamFailed string

text \<open>
  \<open>st_taken\<close> is what the goroutine has received from the Docker client, \<open>st_hand\<close> the event it wants to
  send, \<open>st_msgs\<close> and \<open>st_errs\<close> the buffers; \<open>st_handled\<close> is what \<open>consume\<close> has handled, \<open>st_end\<close> how it returned.
\<close>

record 'm stream =
  st_taken :: "raw_message list"
  st_hand :: "'m option"
  st_msgs :: "'m list"
  st_errs :: "string list"
  st_ended :: bool
  st_ctx :: bool
  st_handled :: "'m list"
  st_end :: "consumer_end option"

definition stream_start :: "'m stream" where
  "stream_start = \<lparr>st_taken = [], st_hand = None, st_msgs = [], st_errs = [], st_ended = False,
     st_ctx = False, st_handled = [], st_end = None\<rparr>"

inductive es_step :: "'m event_source \<Rightarrow> 'm stream \<Rightarrow> 'm stream \<Rightarrow> bool" for src where
  message: "\<not> st_ended s \<Longrightarrow> st_hand s = None
    \<Longrightarrow> es_step src s (s\<lparr>st_taken := st_taken s @ [m], st_hand := Some (src_event src m)\<rparr>)"
| buffer: "st_hand s = Some x \<Longrightarrow> length (st_msgs s) < src_cap src
    \<Longrightarrow> es_step src s (s\<lparr>st_hand := None, st_msgs := st_msgs s @ [x]\<rparr>)"
| raw_error: "\<not> st_ended s \<Longrightarrow> st_hand s = None
    \<Longrightarrow> es_step src s (s\<lparr>st_ended := True,
          st_errs := (case src_forward src e of None \<Rightarrow> [] | Some e' \<Rightarrow> [e'])\<rparr>)"
| raw_closed: "\<not> st_ended s \<Longrightarrow> st_hand s = None \<Longrightarrow> es_step src s (s\<lparr>st_ended := True\<rparr>)"
| ctx_done: "es_step src s (s\<lparr>st_ctx := True\<rparr>)"
| handle: "st_end s = None \<Longrightarrow> st_msgs s = x # xs
    \<Longrightarrow> es_step src s (s\<lparr>st_msgs := xs, st_handled := st_handled s @ [x]\<rparr>)"
| failed: "st_end s = None \<Longrightarrow> st_errs s = e # es
    \<Longrightarrow> es_step src s (s\<lparr>st_errs := es, st_end := Some (StreamFailed e)\<rparr>)"
| errs_closed: "st_end s = None \<Longrightarrow> st_ended s \<Longrightarrow> st_errs s = []
    \<Longrightarrow> es_step src s (s\<lparr>st_end := Some ErrsClosed\<rparr>)"
| msgs_closed: "st_end s = None \<Longrightarrow> st_ended s \<Longrightarrow> st_msgs s = []
    \<Longrightarrow> es_step src s (s\<lparr>st_end := Some MsgsClosed\<rparr>)"
| consume_ctx: "st_end s = None \<Longrightarrow> st_ctx s \<Longrightarrow> es_step src s (s\<lparr>st_end := Some ConsumeCtx\<rparr>)"

inductive es_run :: "'m event_source \<Rightarrow> 'm stream \<Rightarrow> 'm stream \<Rightarrow> bool" for src s0 where
  es_nil: "es_run src s0 s0"
| es_more: "es_run src s0 s \<Longrightarrow> es_step src s s' \<Longrightarrow> es_run src s0 s'"

lemma es_run_trans: "es_run src s1 s2 \<Longrightarrow> es_run src s0 s1 \<Longrightarrow> es_run src s0 s2"
  by (induction rule: es_run.induct) (auto intro: es_more)

subsection \<open>Nothing is reordered\<close>

text \<open>What has been taken and not handled.\<close>

definition pending :: "'m stream \<Rightarrow> 'm list" where
  "pending s = st_msgs s @ (case st_hand s of None \<Rightarrow> [] | Some x \<Rightarrow> [x])"

definition stream_inv :: "'m event_source \<Rightarrow> 'm stream \<Rightarrow> bool" where
  "stream_inv src s \<longleftrightarrow> map (src_event src) (st_taken s) = st_handled s @ pending s
     \<and> length (st_msgs s) \<le> src_cap src \<and> (st_ended s \<longrightarrow> st_hand s = None)
     \<and> (\<forall>e. st_end s = Some e \<longrightarrow> (if e = ConsumeCtx then st_ctx s else st_ended s))
     \<and> (st_end s = Some MsgsClosed \<longrightarrow> st_msgs s = []) \<and> (st_errs s \<noteq> [] \<longrightarrow> st_ended s)"

lemma stream_inv_start: "stream_inv src stream_start"
  by (simp add: stream_inv_def stream_start_def pending_def)

lemma stream_inv_step: "es_step src s s' \<Longrightarrow> stream_inv src s \<Longrightarrow> stream_inv src s'"
  by (induction rule: es_step.induct) (auto simp: stream_inv_def pending_def split: option.splits)

lemma stream_inv_run: "es_run src s0 s \<Longrightarrow> stream_inv src s0 \<Longrightarrow> stream_inv src s"
  by (induction rule: es_run.induct) (auto intro: stream_inv_step)

subsection \<open>Nothing is stuck\<close>

lemma drain_buffer:
  assumes "st_end s = None"
  shows "\<exists>s'. es_run src s s' \<and> st_end s' = None \<and> st_msgs s' = [] \<and> st_hand s' = st_hand s
    \<and> st_taken s' = st_taken s \<and> st_handled s' = st_handled s @ st_msgs s"
  using assms
proof (induction "st_msgs s" arbitrary: s)
  case Nil
  then show ?case by (intro exI [of _ s]) (simp add: es_nil)
next
  case (Cons x xs)
  let ?t = "s\<lparr>st_msgs := xs, st_handled := st_handled s @ [x]\<rparr>"
  have t: "es_run src s ?t"
    by (rule es_more [OF es_nil es_step.handle [OF Cons(3) Cons(2) [symmetric]]])
  obtain s' where "es_run src ?t s'" "st_end s' = None" "st_msgs s' = []" "st_hand s' = st_hand s"
    "st_taken s' = st_taken s" "st_handled s' = st_handled s @ x # xs"
    using Cons(1) [of ?t] Cons(3) by auto
  then show ?case
    using es_run_trans [OF _ t] by (intro exI [of _ s']) (simp add: Cons(2) [symmetric])
qed

lemma drain_pending:
  assumes "st_end s = None" "0 < src_cap src"
  shows "\<exists>s'. es_run src s s' \<and> st_handled s' = st_handled s @ pending s \<and> st_taken s' = st_taken s"
proof -
  obtain t where t: "es_run src s t" "st_end t = None" "st_msgs t = []" "st_hand t = st_hand s"
    "st_taken t = st_taken s" "st_handled t = st_handled s @ st_msgs s"
    using drain_buffer [OF assms(1)] by blast
  show ?thesis
  proof (cases "st_hand s")
    case None
    with t show ?thesis by (auto simp: pending_def)
  next
    case (Some x)
    let ?u = "t\<lparr>st_hand := None, st_msgs := [x]\<rparr>"
    have "es_step src t ?u" using es_step.buffer [of t x src] t(3,4) Some assms(2) by simp
    then have u: "es_run src s ?u" by (rule es_more [OF t(1)])
    obtain v where "es_run src ?u v" "st_taken v = st_taken t" "st_handled v = st_handled t @ [x]"
      using drain_buffer [of ?u src] t(2) by auto
    with es_run_trans [OF _ u] t(5,6) Some show ?thesis by (auto simp: pending_def)
  qed
qed

text \<open>A watcher handles the events of its stream in the order in which Docker sent them, none twice and none
  left out before a handled one. When \<open>consume\<close> has returned, what it has not handled fits into the buffer and the
  hand of the goroutine, into the buffer alone when the stream has ended, and is nothing when the
  message channel was found closed. While \<open>consume\<close> runs, all of it can still be handled.\<close>

theorem stream_in_order:
  assumes "es_run src stream_start s" "0 < src_cap src"
  shows "\<exists>rest. map (src_event src) (st_taken s) = st_handled s @ rest
    \<and> length rest \<le> Suc (src_cap src) \<and> (st_ended s \<longrightarrow> length rest \<le> src_cap src)
    \<and> (st_end s = Some MsgsClosed \<longrightarrow> rest = [])
    \<and> (st_end s = None \<longrightarrow> (\<exists>s'. es_run src s s' \<and> st_handled s' = st_handled s @ rest))"
proof (intro exI conjI)
  have inv: "stream_inv src s" by (rule stream_inv_run [OF assms(1) stream_inv_start])
  then show "map (src_event src) (st_taken s) = st_handled s @ pending s"
    and "length (pending s) \<le> Suc (src_cap src)" "st_ended s \<longrightarrow> length (pending s) \<le> src_cap src"
    and "st_end s = Some MsgsClosed \<longrightarrow> pending s = []"
    by (auto simp: stream_inv_def pending_def split: option.splits)
  show "st_end s = None \<longrightarrow> (\<exists>s'. es_run src s s' \<and> st_handled s' = st_handled s @ pending s)"
    using drain_pending [of s src] assms(2) by blast
qed

text \<open>The rebinder's stream fails right after the network has been created again: the event is in the buffer,
  the error in the other channel, and \<open>select\<close> may take either.\<close>

definition created_msg :: raw_message where
  "created_msg = \<lparr>rm_Type = ''network'', rm_Action = ''create'', rm_ID = ''n2'', rm_Attributes = [''name'' \<mapsto> ''ext'']\<rparr>"

definition failed_stream :: "rb_event stream" where
  "failed_stream = stream_start\<lparr>st_taken := [created_msg], st_msgs := [src_event rb_Events created_msg],
     st_errs := [''EOF''], st_ended := True\<rparr>"

lemma failed_stream_run: "es_run rb_Events stream_start failed_stream"
proof -
  let ?a = "stream_start\<lparr>st_taken := [created_msg], st_hand := Some (src_event rb_Events created_msg)\<rparr>"
  let ?b = "stream_start\<lparr>st_taken := [created_msg], st_msgs := [src_event rb_Events created_msg]\<rparr>"
  have "es_step rb_Events stream_start ?a"
    using es_step.message [of stream_start rb_Events created_msg] by (simp add: stream_start_def)
  moreover have "es_step rb_Events ?a ?b"
    using es_step.buffer [of ?a "src_event rb_Events created_msg" rb_Events]
    by (simp add: stream_start_def rb_Events_def)
  moreover have "es_step rb_Events ?b failed_stream"
    using es_step.raw_error [of ?b rb_Events "(False, ''EOF'')"]
    by (simp add: stream_start_def rb_Events_def failed_stream_def)
  ultimately show ?thesis by (blast intro: es_nil es_more)
qed

lemma stream_in_order_witness:
  "es_run rb_Events stream_start failed_stream
   \<and> (\<exists>s'. es_run rb_Events failed_stream s' \<and> st_handled s' = [src_event rb_Events created_msg])"
proof -
  have "0 < src_cap rb_Events" by (simp add: rb_Events_def)
  from stream_in_order [OF failed_stream_run this] failed_stream_run
  show ?thesis by (auto simp: failed_stream_def stream_start_def)
qed

lemma buffered_events_are_dropped:
  "\<exists>s. es_run rb_Events stream_start s \<and> st_taken s = [created_msg] \<and> st_handled s = []
     \<and> st_end s = Some (StreamFailed ''EOF'')"
  using es_more [OF failed_stream_run es_step.failed [of failed_stream "''EOF''" "[]" rb_Events]]
  by (intro exI [of _ "failed_stream\<lparr>st_errs := [], st_end := Some (StreamFailed ''EOF'')\<rparr>"])
    (simp add: failed_stream_def stream_start_def)

end
