(* ===== verification/DockerWorld.thy ===== *)
theory DockerWorld
  imports EventStream
begin

section \<open>A Docker daemon that keeps its word\<close>

text \<open>
  The watchers of theories \<open>Autostart\<close>, \<open>Rebinder\<close> and \<open>WrapRebinder\<close> run over any daemon. This theory has one that behaves as
  documented: its answers come from a state, the containers that exist, and every call changes that state.
  The source relies on two rules of it: \<open>container:<X>\<close> is resolved when a container is created and stored as a long ID, and
  a container in the namespace of another must not have a host name of its own. IDs are never used twice. Between any
  two calls of the program others may change the containers (\<open>ext\<close>), and any call may fail (\<open>bad\<close>). The calls
  name a container by its ID. A container that is stopped keeps its ID and stays in the lists, which the watchers
  ask for with \<open>All\<close>, so nothing they look at changes by it: there is no stopped state here, and a target that goes
  is one that is removed.
\<close>

subsection \<open>Containers\<close>

record box =
  bx_ID :: string
  bx_Name :: string
  bx_Config :: ct_config
  bx_Host :: host_config

record world =
  wd_boxes :: "box list"
  wd_next :: nat
  wd_events :: "raw_message list"
  wd_clock :: int

definition container_mode :: "string \<Rightarrow> string" where
  "container_mode ref = ''container:'' @ ref"

lemma cut_container_mode [simp]: "cut_prefix (container_mode ref) ''container:'' = Some ref"
  unfolding container_mode_def by (rule cut_prefix_append)

definition guest_ref :: "box \<Rightarrow> string option" where
  "guest_ref b = cut_prefix (hc_NetworkMode (bx_Host b)) ''container:''"

definition bx_summary :: "box \<Rightarrow> ct_summary" where
  "bx_summary b = \<lparr>cs_ID = bx_ID b, cs_Names = [''/'' @ bx_Name b], cs_State = ''running'',
     cs_NetworkMode = hc_NetworkMode (bx_Host b), cs_ImageID = [], cs_Labels = map_of (cc_Labels (bx_Config b))\<rparr>"

definition bx_inspect :: "box \<Rightarrow> ct_inspect" where
  "bx_inspect b = \<lparr>ci_ID = bx_ID b, ci_Name = ''/'' @ bx_Name b, ci_Image = [], ci_Config = Some (bx_Config b),
     ci_HostConfig = Some (bx_Host b), ci_Networks = None\<rparr>"

definition start_msg :: "box \<Rightarrow> raw_message" where
  "start_msg b = \<lparr>rm_Type = ''container'', rm_Action = ''start'', rm_ID = bx_ID b,
     rm_Attributes = (map_of (cc_Labels (bx_Config b)))(''name'' \<mapsto> bx_Name b)\<rparr>"

subsection \<open>Calls\<close>

definition box_at :: "string \<Rightarrow> world \<Rightarrow> box option" where
  "box_at i w = find (\<lambda>b. bx_ID b = i) (wd_boxes w)"

text \<open>What a name in \<open>container:<X>\<close> stands for: an ID, a name, or the beginning of an ID.\<close>

definition find_box :: "box list \<Rightarrow> string \<Rightarrow> box option" where
  "find_box bs ref =
     (case find (\<lambda>b. bx_ID b = ref) bs of Some b \<Rightarrow> Some b
      | None \<Rightarrow> (case find (\<lambda>b. bx_Name b = ref) bs of Some b \<Rightarrow> Some b
         | None \<Rightarrow> find (\<lambda>b. ref \<noteq> [] \<and> has_prefix (bx_ID b) ref) bs))"

definition made :: "(nat \<Rightarrow> string) \<Rightarrow> create_req \<Rightarrow> world \<Rightarrow> box option" where
  "made ids r w =
     (let mode = hc_NetworkMode (cr_HostConfig r);
          b = \<lparr>bx_ID = ids (wd_next w), bx_Name = cr_Name r, bx_Config = cr_Config r, bx_Host = cr_HostConfig r\<rparr> in
      if cr_Name r \<in> bx_Name ` set (wd_boxes w) \<or> \<not> netns_guest mode (cr_Config r) then None
      else (case cut_prefix mode ''container:'' of None \<Rightarrow> Some b
            | Some ref \<Rightarrow> (case find_box (wd_boxes w) ref of None \<Rightarrow> None
               | Some t \<Rightarrow> Some (b\<lparr>bx_Host := (bx_Host b)\<lparr>hc_NetworkMode := container_mode (bx_ID t)\<rparr>\<rparr>))))"

definition startable :: "string \<Rightarrow> world \<Rightarrow> bool" where
  "startable i w = (case box_at i w of None \<Rightarrow> False
     | Some b \<Rightarrow> (case guest_ref b of None \<Rightarrow> True | Some ref \<Rightarrow> ref \<in> bx_ID ` set (wd_boxes w)))"

definition started :: "string \<Rightarrow> world \<Rightarrow> world" where
  "started i w = (if startable i w then w\<lparr>wd_events := wd_events w @ [start_msg (the (box_at i w))]\<rparr> else w)"

fun exec :: "(nat \<Rightarrow> string) \<Rightarrow> dk_call \<Rightarrow> world \<Rightarrow> world" where
  "exec ids (CRemove i) w = w\<lparr>wd_boxes := filter (\<lambda>b. bx_ID b \<noteq> i) (wd_boxes w)\<rparr>"
| "exec ids (CCreate r) w = (case made ids r w of None \<Rightarrow> w
     | Some b \<Rightarrow> w\<lparr>wd_boxes := wd_boxes w @ [b], wd_next := Suc (wd_next w)\<rparr>)"
| "exec ids (CStart i) w = started i w"
| "exec ids (CRestart i) w = started i w"
| "exec ids (CSleep d) w = w\<lparr>wd_clock := wd_clock w + d\<rparr>"
| "exec ids c w = w"

definition exec_all :: "(nat \<Rightarrow> string) \<Rightarrow> dk_call list \<Rightarrow> world \<Rightarrow> world" where
  "exec_all ids cs w = foldl (\<lambda>w c. exec ids c w) w cs"

lemma exec_all_simps [simp]:
  "exec_all ids [] w = w" "exec_all ids (c # cs) w = exec_all ids cs (exec ids c w)"
  "exec_all ids (cs @ ds) w = exec_all ids ds (exec_all ids cs w)"
  by (simp_all add: exec_all_def)

subsection \<open>The daemon\<close>

text \<open>The state after a history of calls, which began as the calls number \<open>n\<close>.\<close>

primrec replay :: "(nat \<Rightarrow> string) \<Rightarrow> (nat \<Rightarrow> dk_call list) \<Rightarrow> (nat \<Rightarrow> bool) \<Rightarrow> dk_history \<Rightarrow> nat \<Rightarrow> world \<Rightarrow> world" where
  "replay ids ext bad [] n w = w"
| "replay ids ext bad (c # cs) n w =
     (let w1 = exec_all ids (ext n) w in replay ids ext bad cs (Suc n) (if bad n then w1 else exec ids c w1))"

definition state_at :: "(nat \<Rightarrow> string) \<Rightarrow> (nat \<Rightarrow> dk_call list) \<Rightarrow> (nat \<Rightarrow> bool) \<Rightarrow> world \<Rightarrow> dk_history \<Rightarrow> world" where
  "state_at ids ext bad w h = exec_all ids (ext (length h)) (replay ids ext bad h 0 w)"

definition docker :: "(nat \<Rightarrow> string) \<Rightarrow> (nat \<Rightarrow> dk_call list) \<Rightarrow> (nat \<Rightarrow> bool) \<Rightarrow> world \<Rightarrow> dk_daemon" where
  "docker ids ext bad w =
     \<lparr>d_list = (\<lambda>h. if bad (length h) then None else Some (map bx_summary (wd_boxes (state_at ids ext bad w h)))),
      d_inspect = (\<lambda>h i. if bad (length h) then None else map_option bx_inspect (box_at i (state_at ids ext bad w h))),
      d_start = (\<lambda>h i. \<not> bad (length h) \<and> startable i (state_at ids ext bad w h)),
      d_remove = (\<lambda>h i. \<not> bad (length h) \<and> box_at i (state_at ids ext bad w h) \<noteq> None),
      d_create = (\<lambda>h r. if bad (length h) then None else map_option bx_ID (made ids r (state_at ids ext bad w h))),
      d_restart = (\<lambda>h i. \<not> bad (length h) \<and> startable i (state_at ids ext bad w h)),
      d_net_inspect = (\<lambda>h n. None), d_connect = (\<lambda>h n i. Some ''not found''), d_disconnect = (\<lambda>h n i. Some ''not found''),
      d_done = (\<lambda>h. False), d_now = (\<lambda>h. wd_clock (state_at ids ext bad w h))\<rparr>"

lemma replay_snoc:
  "replay ids ext bad (h @ [c]) n w =
     (let w1 = exec_all ids (ext (n + length h)) (replay ids ext bad h n w)
      in if bad (n + length h) then w1 else exec ids c w1)"
  by (induction h arbitrary: n w) (simp_all add: Let_def)

lemma replay_state:
  "replay ids ext bad (h @ [c]) 0 w = (if bad (length h) then state_at ids ext bad w h else exec ids c (state_at ids ext bad w h))"
  by (simp add: replay_snoc state_at_def Let_def)

lemma docker_simps [simp]:
  "d_list (docker ids ext bad w) h = (if bad (length h) then None else Some (map bx_summary (wd_boxes (state_at ids ext bad w h))))"
  "d_inspect (docker ids ext bad w) h i = (if bad (length h) then None else map_option bx_inspect (box_at i (state_at ids ext bad w h)))"
  "d_start (docker ids ext bad w) h i \<longleftrightarrow> \<not> bad (length h) \<and> startable i (state_at ids ext bad w h)"
  "d_remove (docker ids ext bad w) h i \<longleftrightarrow> \<not> bad (length h) \<and> box_at i (state_at ids ext bad w h) \<noteq> None"
  "d_create (docker ids ext bad w) h r = (if bad (length h) then None else map_option bx_ID (made ids r (state_at ids ext bad w h)))"
  "\<not> d_done (docker ids ext bad w) h"
  "d_now (docker ids ext bad w) h = wd_clock (state_at ids ext bad w h)"
  by (simp_all add: docker_def)

text \<open>Without others and without failures the state is the calls' doing alone.\<close>

definition calm_docker :: "(nat \<Rightarrow> string) \<Rightarrow> world \<Rightarrow> dk_daemon" where
  "calm_docker ids w = docker ids (\<lambda>_. []) (\<lambda>_. False) w"

lemma replay_calm: "replay ids (\<lambda>_. []) (\<lambda>_. False) h n w = exec_all ids h w"
  by (induction h arbitrary: n w) simp_all

lemma state_calm [simp]: "state_at ids (\<lambda>_. []) (\<lambda>_. False) w h = exec_all ids h w"
  by (simp add: state_at_def replay_calm)

subsection \<open>IDs and names\<close>

text \<open>IDs are visible characters, at least twelve of them, none the beginning of another. A container name is not the beginning
  of an ID, and Docker allows it neither a slash nor white space.\<close>

definition id_source :: "(nat \<Rightarrow> string) \<Rightarrow> bool" where
  "id_source ids \<longleftrightarrow> (\<forall>n. 12 \<le> length (ids n) \<and> list_all plain_char (ids n) \<and> CHR ''|'' \<notin> set (ids n))
     \<and> (\<forall>m n. has_prefix (ids m) (ids n) \<longrightarrow> m = n)"

definition name_ok :: "(nat \<Rightarrow> string) \<Rightarrow> string \<Rightarrow> bool" where
  "name_ok ids n \<longleftrightarrow> n \<noteq> [] \<and> list_all plain_char n \<and> CHR ''/'' \<notin> set n \<and> (12 \<le> length n \<longrightarrow> (\<forall>k. \<not> has_prefix (ids k) n))"

definition world_ok :: "(nat \<Rightarrow> string) \<Rightarrow> world \<Rightarrow> bool" where
  "world_ok ids w \<longleftrightarrow> distinct (map bx_ID (wd_boxes w)) \<and> distinct (map bx_Name (wd_boxes w))
     \<and> (\<forall>b \<in> set (wd_boxes w). name_ok ids (bx_Name b) \<and> bx_ID b \<in> ids ` {..<wd_next w}
          \<and> (\<forall>ref. guest_ref b = Some ref \<longrightarrow> ref \<in> ids ` {..<wd_next w}))"

text \<open>What others may do as far as names go.\<close>

definition well_named :: "(nat \<Rightarrow> string) \<Rightarrow> dk_call \<Rightarrow> bool" where
  "well_named ids c \<longleftrightarrow> (\<forall>r. c = CCreate r \<longrightarrow> name_ok ids (cr_Name r))"

lemma id_inj: "id_source ids \<Longrightarrow> ids m = ids n \<longleftrightarrow> m = n"
  unfolding id_source_def by (metis append_Nil2 has_prefix_append)

lemma id_fresh: "id_source ids \<Longrightarrow> ids k \<in> ids ` {..<n} \<longleftrightarrow> k < n"
  by (auto simp: id_inj)

lemma id_facts:
  assumes "id_source ids"
  shows "ids n \<noteq> []" "trim_space (ids n) = ids n" "12 \<le> length (ids n)" "has_prefix (ids m) (ids n) \<longleftrightarrow> m = n"
proof -
  show "12 \<le> length (ids n)" using assms by (simp add: id_source_def)
  then show "ids n \<noteq> []" by auto
  show "trim_space (ids n) = ids n" using assms by (simp add: id_source_def trim_space_plain)
  show "has_prefix (ids m) (ids n) \<longleftrightarrow> m = n" using assms has_prefix_append [of "ids n" "[]"] by (auto simp: id_source_def)
qed

lemma name_facts:
  assumes "id_source ids" "name_ok ids n"
  shows "n \<noteq> []" "trim_space n = n" "n \<noteq> ids k" "12 \<le> length n \<Longrightarrow> \<not> has_prefix (ids k) n"
    "trim_prefix n ''/'' = n" "trim_prefix (''/'' @ n) ''/'' = n"
proof -
  show 1: "n \<noteq> []" and "trim_space n = n" using assms(2) by (simp_all add: name_ok_def trim_space_plain)
  show 2: "12 \<le> length n \<Longrightarrow> \<not> has_prefix (ids k) n" for k using assms(2) by (simp add: name_ok_def)
  show "n \<noteq> ids k" using 2 [of k] id_facts(3,4) [OF assms(1)] by auto
  show "trim_prefix n ''/'' = n" using assms(2) 1 by (cases n) (auto simp: trim_prefix_def has_prefix_def name_ok_def)
  show "trim_prefix (''/'' @ n) ''/'' = n" by (rule trim_prefix_append)
qed

lemma box_at_iff:
  "distinct (map bx_ID (wd_boxes w)) \<Longrightarrow> box_at i w = Some b \<longleftrightarrow> b \<in> set (wd_boxes w) \<and> bx_ID b = i"
proof -
  have "distinct (map bx_ID bs) \<Longrightarrow> find (\<lambda>b. bx_ID b = i) bs = Some b \<longleftrightarrow> b \<in> set bs \<and> bx_ID b = i" for bs
    by (induction bs) auto
  then show "distinct (map bx_ID (wd_boxes w)) \<Longrightarrow> box_at i w = Some b \<longleftrightarrow> b \<in> set (wd_boxes w) \<and> bx_ID b = i"
    by (simp add: box_at_def)
qed

lemma box_at_none: "box_at i w = None \<longleftrightarrow> i \<notin> bx_ID ` set (wd_boxes w)"
  by (auto simp: box_at_def find_None_iff)

lemma same_box:
  "world_ok ids w \<Longrightarrow> a \<in> set (wd_boxes w) \<Longrightarrow> b \<in> set (wd_boxes w) \<Longrightarrow> bx_ID a = bx_ID b \<Longrightarrow> a = b"
  "world_ok ids w \<Longrightarrow> a \<in> set (wd_boxes w) \<Longrightarrow> b \<in> set (wd_boxes w) \<Longrightarrow> bx_Name a = bx_Name b \<Longrightarrow> a = b"
  by (auto simp: world_ok_def distinct_map dest: inj_onD)

lemma find_box_set: "find_box bs ref = Some b \<Longrightarrow> b \<in> set bs"
  by (auto simp: find_box_def find_Some_iff split: option.splits)

lemma find_named:
  assumes "id_source ids" "world_ok ids w" "b \<in> set (wd_boxes w)"
  shows "find_box (wd_boxes w) (bx_Name b) = Some b" "find_box (wd_boxes w) (bx_ID b) = Some b"
proof -
  have bs: "\<And>x. x \<in> set (wd_boxes w) \<Longrightarrow> name_ok ids (bx_Name x) \<and> bx_ID x \<in> ids ` {..<wd_next w}"
    "distinct (map bx_ID (wd_boxes w))" "distinct (map bx_Name (wd_boxes w))"
    using assms(2) by (auto simp: world_ok_def)
  have "bx_ID x \<noteq> bx_Name b" if "x \<in> set (wd_boxes w)" for x
    using bs(1) [OF that] bs(1) [OF assms(3)] name_facts(3) [OF assms(1), of "bx_Name b"] by auto
  then have "find (\<lambda>x. bx_ID x = bx_Name b) (wd_boxes w) = None" by (auto simp: find_None_iff)
  moreover have "distinct (map bx_Name xs) \<Longrightarrow> b \<in> set xs \<Longrightarrow> find (\<lambda>x. bx_Name x = bx_Name b) xs = Some b" for xs
    by (induction xs) (auto simp: rev_image_eqI)
  ultimately show "find_box (wd_boxes w) (bx_Name b) = Some b" using bs(3) assms(3) by (simp add: find_box_def)
  show "find_box (wd_boxes w) (bx_ID b) = Some b"
    using box_at_iff [OF bs(2), of "bx_ID b" b] assms(3) by (simp add: find_box_def box_at_def)
qed

lemma made_facts:
  assumes "made ids r w = Some b"
  shows "bx_ID b = ids (wd_next w)" "bx_Name b = cr_Name r" "bx_Config b = cr_Config r" "cr_Name r \<notin> bx_Name ` set (wd_boxes w)"
    "guest_ref b = None \<or> (\<exists>t \<in> set (wd_boxes w). guest_ref b = Some (bx_ID t))"
  using assms
  by (auto simp: made_def Let_def guest_ref_def dest!: find_box_set split: if_splits option.splits)

lemma world_ok_exec:
  assumes "id_source ids" "world_ok ids w" "well_named ids c"
  shows "world_ok ids (exec ids c w)"
proof -
  have more: "x \<in> ids ` {..<n} \<Longrightarrow> x \<in> ids ` {..<Suc n}" for x n by auto
  have st: "world_ok ids (started i w)" for i using assms(2) by (simp add: started_def world_ok_def)
  show ?thesis
  proof (cases c)
    case (CRemove i)
    have "distinct (map f (filter P xs))" if "distinct (map f xs)" for f :: "box \<Rightarrow> string" and P xs
      using that by (induction xs) auto
    with CRemove assms(2) show ?thesis by (auto simp: world_ok_def)
  next
    case (CCreate r)
    show ?thesis
    proof (cases "made ids r w")
      case (Some b)
      note m = made_facts [OF Some]
      have "bx_ID x \<noteq> bx_ID b" if "x \<in> set (wd_boxes w)" for x
        using that assms(2) id_fresh [OF assms(1), of "wd_next w" "wd_next w"] m(1) by (metis less_irrefl world_ok_def)
      then have "bx_ID b \<notin> bx_ID ` set (wd_boxes w)" by (metis imageE)
      moreover have "name_ok ids (bx_Name b)" using assms(3) CCreate m(2) by (simp add: well_named_def)
      ultimately show ?thesis
        using assms(2) m Some CCreate more by (fastforce simp: world_ok_def)
    qed (use CCreate assms(2) in simp)
  qed (use assms(2) st in \<open>simp_all add: world_ok_def\<close>)
qed

lemma world_ok_all:
  "id_source ids \<Longrightarrow> world_ok ids w \<Longrightarrow> \<forall>c \<in> set cs. well_named ids c \<Longrightarrow> world_ok ids (exec_all ids cs w)"
  by (induction cs arbitrary: w) (simp_all add: world_ok_exec)

end
