(* ===== verification/WrapSystem.thy ===== *)
theory WrapSystem
  imports DockerWorld
begin

section \<open>The wrap rebinder and Docker together\<close>

text \<open>
  The watcher of \<open>src/internal/wraprebinder/wraprebinder.go\<close> with the daemon of theory \<open>DockerWorld\<close>: it receives the start
  events of the containers that exist, its own calls create some of them, and others change the containers.

  Shown here: an anchor that has fallen out of the pool while its target is gone is lost for good
  (\<open>orphan_forever\<close>), and a poll repairs exactly the anchors whose target is recreated between its two
  lists of the containers, so nothing that has happened before it (\<open>poll_repairs_only_races\<close>). That a stack heals when one target is recreated is the subject of
  theory \<open>WrapHealing\<close>, and that it does not when two go and come back one after the other, of \<open>WrapIncident\<close>.
\<close>

subsection \<open>The system\<close>

text \<open>
  The watcher, and the containers with the events that it has not received. Others change the containers by the calls
  that \<open>P\<close> allows; the watcher handles the oldest event or polls, with others at work between its
  calls, any of which may fail; and events are missed while it is not subscribed.
\<close>

inductive wrap_step :: "(nat \<Rightarrow> string) \<Rightarrow> (dk_call \<Rightarrow> bool) \<Rightarrow> wr_watcher \<times> world \<Rightarrow> wr_watcher \<times> world \<Rightarrow> bool"
  for ids P where
  others: "P c \<Longrightarrow> wrap_step ids P (W, w) (W, exec ids c w)"
| event: "wd_events w = m # ms \<Longrightarrow> \<forall>n. \<forall>c \<in> set (ext n). P c \<Longrightarrow> range_perm rng
    \<Longrightarrow> wr_consume (docker ids ext bad (w\<lparr>wd_events := ms\<rparr>)) rng [WrMsg (src_event wr_Events m)] (W, []) = (W', h)
    \<Longrightarrow> wrap_step ids P (W, w) (W', replay ids ext bad h 0 (w\<lparr>wd_events := ms\<rparr>))"
| poll: "\<forall>n. \<forall>c \<in> set (ext n). P c \<Longrightarrow> range_perm rng
    \<Longrightarrow> wr_consume (docker ids ext bad w) rng [WrPoll] (W, []) = (W', h)
    \<Longrightarrow> wrap_step ids P (W, w) (W', replay ids ext bad h 0 w)"
| missed: "wrap_step ids P (W, w) (W, w\<lparr>wd_events := drop n (wd_events w)\<rparr>)"

inductive wrap_run :: "(nat \<Rightarrow> string) \<Rightarrow> (dk_call \<Rightarrow> bool) \<Rightarrow> wr_watcher \<times> world \<Rightarrow> wr_watcher \<times> world \<Rightarrow> bool"
  for ids P s0 where
  run_nil: "wrap_run ids P s0 s0"
| run_step: "wrap_run ids P s0 s \<Longrightarrow> wrap_step ids P s s' \<Longrightarrow> wrap_run ids P s0 s'"

subsection \<open>An anchor whose target is gone\<close>

text \<open>\<open>b\<close> is bound to a container that does not exist. The others leave \<open>b\<close> alone.\<close>

definition dangling :: "(nat \<Rightarrow> string) \<Rightarrow> box \<Rightarrow> world \<Rightarrow> bool" where
  "dangling ids b w \<longleftrightarrow> world_ok ids w \<and> b \<in> set (wd_boxes w)
     \<and> (\<exists>ref. guest_ref b = Some ref \<and> ref \<notin> bx_ID ` set (wd_boxes w))"

definition untracked :: "string \<Rightarrow> target_pool \<Rightarrow> bool" where
  "untracked i pool \<longleftrightarrow> (\<forall>(n, as) \<in> set pool. i \<notin> set as)"

definition spares :: "(nat \<Rightarrow> string) \<Rightarrow> string \<Rightarrow> dk_call \<Rightarrow> bool" where
  "spares ids i c \<longleftrightarrow> well_named ids c \<and> c \<noteq> CRemove i"

lemma dangling_exec:
  assumes "id_source ids" "dangling ids b w" "spares ids (bx_ID b) c"
  shows "dangling ids b (exec ids c w)"
proof -
  obtain ref where ref: "guest_ref b = Some ref" "ref \<notin> bx_ID ` set (wd_boxes w)" and w: "world_ok ids w" "b \<in> set (wd_boxes w)"
    using assms(2) by (auto simp: dangling_def)
  have ok: "world_ok ids (exec ids c w)" using world_ok_exec [OF assms(1) w(1)] assms(3) by (simp add: spares_def)
  have "b \<in> set (wd_boxes (exec ids c w)) \<and> ref \<notin> bx_ID ` set (wd_boxes (exec ids c w))"
  proof (cases c)
    case (CRemove i)
    then show ?thesis using assms(3) w(2) ref(2) by (auto simp: spares_def)
  next
    case (CCreate r)
    have "ref \<noteq> ids (wd_next w)"
      using w ref(1) id_fresh [OF assms(1), of "wd_next w" "wd_next w"] unfolding world_ok_def by (metis less_irrefl)
    then show ?thesis using CCreate w(2) ref(2) made_facts(1) [of ids r w] by (auto split: option.split)
  qed (use w(2) ref(2) in \<open>auto simp: started_def\<close>)
  with ok ref(1) show ?thesis by (auto simp: dangling_def)
qed

lemma dangling_all:
  "id_source ids \<Longrightarrow> dangling ids b w \<Longrightarrow> \<forall>c \<in> set cs. spares ids (bx_ID b) c \<Longrightarrow> dangling ids b (exec_all ids cs w)"
  by (induction cs arbitrary: w) (simp_all add: dangling_exec)

lemma dangling_replay:
  assumes "id_source ids" "dangling ids b w" "\<forall>n. \<forall>c \<in> set (ext n). spares ids (bx_ID b) c" "\<forall>c \<in> set h. spares ids (bx_ID b) c"
  shows "dangling ids b (replay ids ext bad h n w)"
  using assms(2,4) by (induction h arbitrary: n w) (simp_all add: Let_def dangling_exec dangling_all assms(1,3))

lemma dangling_state:
  assumes "id_source ids" "dangling ids b w" "\<forall>n. \<forall>c \<in> set (ext n). spares ids (bx_ID b) c" "\<forall>c \<in> set h. spares ids (bx_ID b) c"
  shows "dangling ids b (state_at ids ext bad w h)"
  unfolding state_at_def using assms(3) by (intro dangling_all [OF assms(1) dangling_replay [OF assms]]) blast

lemma summary_info [simp]:
  "wc_ID (wr_info (bx_summary b)) = bx_ID b" "wc_Names (wr_info (bx_summary b)) = [''/'' @ bx_Name b]"
  "wc_NetworkMode (wr_info (bx_summary b)) = hc_NetworkMode (bx_Host b)"
  "wc_Labels (wr_info (bx_summary b)) = map_of (cc_Labels (bx_Config b))"
  by (simp_all add: wr_info_def bx_summary_def)

definition infos :: "world \<Rightarrow> wr_container list" where
  "infos w = map (wr_info \<circ> bx_summary) (wd_boxes w)"

text \<open>Which target the watcher finds for a container: the one with the ID that Docker has stored, and otherwise none.\<close>

lemma target_of_guest:
  assumes "id_source ids" "world_ok ids w" "b \<in> set (wd_boxes w)"
  shows "target_of (infos w) (wr_info (bx_summary b)) = (case guest_ref b of None \<Rightarrow> None
    | Some ref \<Rightarrow> (case box_at ref w of None \<Rightarrow> Some [] | Some t \<Rightarrow> Some (bx_Name t)))"
proof (cases "guest_ref b")
  case None
  then show ?thesis by (simp add: target_of_def guest_ref_def)
next
  case (Some ref)
  then obtain k where k: "ref = ids k" using assms(2,3) by (auto simp: world_ok_def)
  note id = id_facts [OF assms(1)]
  have target: "target_of (infos w) (wr_info (bx_summary b)) = Some (resolveTargetName (infos w) ref)"
    using Some id(1,2) [of k] by (simp add: target_of_def guest_ref_def k)
  have bs: "name_ok ids (bx_Name x)" "\<exists>j. bx_ID x = ids j" if "x \<in> set (wd_boxes w)" for x
    using assms(2) that by (auto simp: world_ok_def)
  have find: "find (\<lambda>c. wc_ID c = ref) (map (wr_info \<circ> bx_summary) xs) = map_option (wr_info \<circ> bx_summary) (find (\<lambda>x. bx_ID x = ref) xs)" for xs
    by (induction xs) simp_all
  show ?thesis
  proof (cases "box_at ref w")
    case None
    have "resolveTargetName (infos w) ref = []"
    proof (rule resolveTargetName_absent)
      fix c assume "c \<in> set (infos w)"
      then obtain x where x: "x \<in> set (wd_boxes w)" "c = wr_info (bx_summary x)" by (auto simp: infos_def)
      then have "bx_ID x \<noteq> ref" using None by (auto simp: box_at_none)
      moreover obtain j where "bx_ID x = ids j" using bs(2) [OF x(1)] by blast
      ultimately show "wc_ID c \<noteq> ref \<and> \<not> (12 \<le> length ref \<and> has_prefix (wc_ID c) ref)"
        using id(4) [of j k] x(2) by (auto simp: k)
    next
      fix c n assume "c \<in> set (infos w)" "n \<in> set (wc_Names c)"
      then obtain x where x: "x \<in> set (wd_boxes w)" "n = ''/'' @ bx_Name x" by (auto simp: infos_def)
      have "trim_prefix n ''/'' = bx_Name x" unfolding x(2) by (rule trim_prefix_append)
      then show "trim_prefix n ''/'' \<noteq> ref" using name_facts(3) [OF assms(1) bs(1) [OF x(1)]] by (simp add: k)
    qed
    then show ?thesis by (simp add: target Some None)
  next
    case t: (Some t)
    then have "t \<in> set (wd_boxes w)" by (auto simp: box_at_def find_Some_iff)
    then have "wr_firstName (wr_info (bx_summary t)) = bx_Name t"
      using name_facts(6) [OF assms(1) bs(1)] by (simp add: wr_firstName_def)
    then have "resolveTargetName (infos w) ref = bx_Name t"
      using t by (simp add: resolveTargetName_def infos_def find box_at_def)
    then show ?thesis by (simp add: target Some t)
  qed
qed

lemma set_gm_put: "set (gm_put k v m) \<subseteq> insert (k, v) (set m)"
  by (induction m) (auto simp: gm_put_def)

text \<open>The pool that is built while the anchor dangles does not contain it.\<close>

lemma pool_loop_Cons:
  "\<exists>os. pool_loop all project self (c # cs) (pool, orphans) = pool_loop all project self cs
     (case target_of all c of None \<Rightarrow> pool
      | Some n \<Rightarrow> if own_sibling project self c \<and> n \<noteq> [] then gm_put n (pool_at pool n @ [wc_ID c]) pool else pool, os)"
  by (cases "cut_prefix (wc_NetworkMode c) ''container:''") (auto simp: target_of_def own_sibling_def Let_def)

lemma pool_loop_untracked:
  assumes "untracked i pool" "\<And>c. c \<in> set cs \<Longrightarrow> wc_ID c = i \<Longrightarrow> target_of all c \<in> {None, Some []}"
  shows "untracked i (fst (pool_loop all project self cs (pool, orphans)))"
  using assms
proof (induction cs arbitrary: pool orphans)
  case (Cons c cs)
  have step: "untracked i (gm_put n (pool_at pool n @ [wc_ID c]) pool)" if "wc_ID c \<noteq> i" for n
  proof -
    have "i \<notin> set (pool_at pool n)"
      using Cons.prems(1) map_of_SomeD [of pool n] by (cases "map_of pool n") (auto simp: pool_at_def untracked_def)
    then show ?thesis
      using Cons.prems(1) that set_gm_put [of n "pool_at pool n @ [wc_ID c]" pool] by (fastforce simp: untracked_def)
  qed
  have IH: "untracked i p \<Longrightarrow> untracked i (fst (pool_loop all project self cs (p, os)))" for p os
    using Cons.IH Cons.prems(2) by simp
  have ne: "target_of all c = Some n \<Longrightarrow> n \<noteq> [] \<Longrightarrow> wc_ID c \<noteq> i" for n using Cons.prems(2) [of c] by auto
  obtain os where run: "pool_loop all project self (c # cs) (pool, orphans) = pool_loop all project self cs
      (case target_of all c of None \<Rightarrow> pool
       | Some n \<Rightarrow> if own_sibling project self c \<and> n \<noteq> [] then gm_put n (pool_at pool n @ [wc_ID c]) pool else pool, os)"
    using pool_loop_Cons by blast
  show ?case
    unfolding run
    by (rule IH) (use Cons.prems(1) step ne in \<open>auto split: option.split\<close>)
qed simp

lemma enumerate_untracked:
  assumes "id_source ids" "\<And>w. w = state_at ids ext bad w0 h \<Longrightarrow> dangling ids b w" "untracked (bx_ID b) (ww_pool W)"
  shows "untracked (bx_ID b) (ww_pool (fst (enumerateTargetPool (docker ids ext bad w0) (W, h))))"
proof -
  let ?w = "state_at ids ext bad w0 h"
  obtain ref where d: "world_ok ids ?w" "b \<in> set (wd_boxes ?w)" "guest_ref b = Some ref" "box_at ref ?w = None"
    using assms(2) [OF refl] unfolding dangling_def box_at_none by blast
  have t: "target_of (infos ?w) (wr_info (bx_summary b)) = Some []" by (simp add: target_of_guest [OF assms(1) d(1,2)] d(3,4))
  have "target_of (infos ?w) c \<in> {None, Some []}" if c: "c \<in> set (infos ?w)" "wc_ID c = bx_ID b" for c
  proof -
    obtain x where "x \<in> set (wd_boxes ?w)" "c = wr_info (bx_summary x)" using c(1) by (auto simp: infos_def)
    with c(2) same_box(1) [OF d(1) _ d(2), of x] t show ?thesis by simp
  qed
  then have "untracked (bx_ID b) (fst (pool_loop (infos ?w) p i (infos ?w) ([], [])))" for p i
    by (intro pool_loop_untracked) (simp add: untracked_def)
  with assms(3) show ?thesis
    by (auto simp: enumerateTargetPool_def wr_ContainerList_def buildTargetPool_def infos_def comp_def split: prod.split)
      (metis fst_conv)
qed

text \<open>No handler removes a container that is not tracked, or creates one with an odd name.\<close>

definition at_rest :: "(nat \<Rightarrow> string) \<Rightarrow> box \<Rightarrow> wr_watcher \<times> dk_history \<Rightarrow> bool" where
  "at_rest ids b s \<longleftrightarrow> untracked (bx_ID b) (ww_pool (fst s)) \<and> (\<forall>c \<in> set (snd s). spares ids (bx_ID b) c)"

lemma spares_simps [simp]:
  "spares ids i CList" "spares ids i (CInspect j)" "spares ids i (CStart j)" "spares ids i (CRemove j) \<longleftrightarrow> j \<noteq> i"
  "spares ids i (CCreate r) \<longleftrightarrow> name_ok ids (cr_Name r)"
  by (auto simp: spares_def well_named_def)

lemma Recreate_spares:
  assumes "id_source ids" "\<forall>c \<in> set h. spares ids i c" "j \<noteq> i"
    and "\<And>w. w = state_at ids ext bad w0 h \<Longrightarrow> world_ok ids w"
  shows "\<forall>c \<in> set (snd (wr_Recreate t (docker ids ext bad w0) j mode h)). spares ids i c"
proof (cases "bad (length h) \<or> box_at j (state_at ids ext bad w0 h) = None")
  case True
  then show ?thesis using assms(2) by (auto simp: wr_Recreate_def)
next
  case False
  then obtain x where x: "box_at j (state_at ids ext bad w0 h) = Some x" by blast
  then have "x \<in> set (wd_boxes (state_at ids ext bad w0 h))" by (auto simp: box_at_def find_Some_iff)
  then have "name_ok ids (bx_Name x)" using assms(4) by (simp add: world_ok_def)
  moreover have "trim_prefix (ci_Name (bx_inspect x)) ''/'' = bx_Name x"
    unfolding bx_inspect_def ct_inspect.simps by (rule trim_prefix_append)
  moreover have "ci_Config (bx_inspect x) = Some (bx_Config x)" "ci_HostConfig (bx_inspect x) = Some (bx_Host x)"
    by (simp_all add: bx_inspect_def)
  ultimately show ?thesis
    using assms(2,3) False x by (auto simp: wr_Recreate_def Let_def split: option.split)
qed

definition hopeless :: "(nat \<Rightarrow> string) \<Rightarrow> (nat \<Rightarrow> dk_call list) \<Rightarrow> box \<Rightarrow> world \<Rightarrow> bool" where
  "hopeless ids ext b w \<longleftrightarrow> id_source ids \<and> dangling ids b w \<and> (\<forall>n. \<forall>c \<in> set (ext n). spares ids (bx_ID b) c)"

lemma hopeless_state:
  "hopeless ids ext b w0 \<Longrightarrow> at_rest ids b (W, h) \<Longrightarrow> dangling ids b (state_at ids ext bad w0 h)"
  unfolding hopeless_def at_rest_def by (rule dangling_state) auto

lemma rest_recreateAnchor:
  assumes "hopeless ids ext b w0" "at_rest ids b s" "bx_ID b \<noteq> j"
  shows "at_rest ids b (recreateAnchor (docker ids ext bad w0) j target s)"
proof -
  obtain W h where s: "s = (W, h)" by (cases s)
  have "world_ok ids (state_at ids ext bad w0 h)"
    using hopeless_state [OF assms(1) assms(2) [unfolded s]] by (simp add: dangling_def)
  then have "\<forall>c \<in> set (snd (wr_Recreate t (docker ids ext bad w0) j mode h)). spares ids (bx_ID b) c" for t mode
    using Recreate_spares [OF _ _ assms(3) [symmetric], of ids h ext bad w0 t mode] assms(1,2) by (auto simp: hopeless_def at_rest_def s)
  then show ?thesis using assms(2) by (auto simp: at_rest_def s recreateAnchor_def Let_def)
qed

lemma rest_recreate_anchors:
  assumes "hopeless ids ext b w0" "at_rest ids b s" "bx_ID b \<notin> set as"
  shows "at_rest ids b (recreate_anchors (docker ids ext bad w0) target as s)"
  using assms(2,3) by (induction "as" arbitrary: s) (simp_all add: rest_recreateAnchor [OF assms(1)])

lemma rest_enumerate:
  assumes "hopeless ids ext b w0" "at_rest ids b s"
  shows "at_rest ids b (enumerateTargetPool (docker ids ext bad w0) s)"
proof -
  obtain W h where s: "s = (W, h)" by (cases s)
  have "untracked (bx_ID b) (ww_pool (fst (enumerateTargetPool (docker ids ext bad w0) (W, h))))"
    using assms hopeless_state [OF assms(1) assms(2) [unfolded s]]
    by (intro enumerate_untracked) (auto simp: hopeless_def at_rest_def s)
  moreover have "snd (enumerateTargetPool (docker ids ext bad w0) (W, h)) = h @ [CList]"
    by (simp add: enumerateTargetPool_def wr_ContainerList_def split: option.split prod.split)
  ultimately show ?thesis using assms(2) by (simp add: at_rest_def s)
qed

lemma rest_recheck_anchors:
  assumes "hopeless ids ext b w0" "at_rest ids b s" "bx_ID b \<notin> set as"
  shows "at_rest ids b (recheck_anchors (docker ids ext bad w0) all target cur as s)"
  using assms(2,3)
  by (induction "as" arbitrary: s) (simp_all add: rest_recreateAnchor [OF assms(1)] Let_def split: option.split)

lemma rest_recheck_pool:
  assumes "hopeless ids ext b w0" "at_rest ids b s" "untracked (bx_ID b) pool"
  shows "at_rest ids b (recheck_pool (docker ids ext bad w0) all pool s)"
  using assms(2,3)
proof (induction pool arbitrary: s)
  case (Cons e pool)
  obtain n "as" where e: "e = (n, as)" by (cases e)
  have "bx_ID b \<notin> set as" "untracked (bx_ID b) pool" using Cons.prems(2) by (auto simp: e untracked_def)
  then show ?case using Cons.IH rest_recheck_anchors [OF assms(1) Cons.prems(1)] Cons.prems(1) by (simp add: e Let_def)
qed simp

lemma rest_poll:
  assumes "hopeless ids ext b w0" "at_rest ids b s" "range_perm rng"
  shows "at_rest ids b (enumerateAndRecheck (docker ids ext bad w0) rng s)"
proof -
  obtain W h where e: "enumerateTargetPool (docker ids ext bad w0) s = (W, h)" by (cases "enumerateTargetPool (docker ids ext bad w0) s")
  have rest: "at_rest ids b (W, h)" using rest_enumerate [OF assms(1,2), of bad] by (simp add: e)
  then have "at_rest ids b (W, h @ [CList])" "untracked (bx_ID b) (rng (ww_pool W))"
    using assms(3) by (auto simp: at_rest_def untracked_def)
  then show ?thesis
    using rest rest_recheck_pool [OF assms(1)]
    by (auto simp: enumerateAndRecheck_def e wr_bootstrapRecheck_def wr_ContainerList_def)
qed

lemma rest_handleStart:
  assumes "hopeless ids ext b w0" "at_rest ids b s"
  shows "at_rest ids b (handleStart (docker ids ext bad w0) msg s)"
proof -
  have "bx_ID b \<notin> set (lookupAnchors (fst s) n)" for n
    using assms(2) map_of_SomeD [of "ww_pool (fst s)" n]
    by (cases "map_of (ww_pool (fst s)) n") (auto simp: lookupAnchors_def at_rest_def untracked_def)
  then have "at_rest ids b (recreate_anchors (docker ids ext bad w0) n (lookupAnchors (fst s) n) s)" for n
    by (intro rest_recreate_anchors [OF assms])
  then show ?thesis using rest_enumerate [OF assms(1)] by (simp add: handleStart_def Let_def)
qed

lemma rest_consume:
  assumes "hopeless ids ext b w0" "at_rest ids b s" "range_perm rng"
  shows "at_rest ids b (wr_consume (docker ids ext bad w0) rng [i] s)"
  using assms rest_poll [OF assms] rest_handleStart [OF assms(1,2)] by (cases i) simp_all

text \<open>An anchor that dangles and is not tracked.\<close>

definition orphaned :: "(nat \<Rightarrow> string) \<Rightarrow> box \<Rightarrow> wr_watcher \<times> world \<Rightarrow> bool" where
  "orphaned ids b s \<longleftrightarrow> dangling ids b (snd s) \<and> untracked (bx_ID b) (ww_pool (fst s))"

lemma orphaned_step:
  assumes "id_source ids" "wrap_step ids (spares ids (bx_ID b)) s s'" "orphaned ids b s"
  shows "orphaned ids b s'"
  using assms(2,3)
proof (induction rule: wrap_step.induct)
  case (others c W w)
  then show ?case using dangling_exec [OF assms(1)] by (simp add: orphaned_def)
next
  case (event w m ms ext rng bad W W' h)
  let ?w = "w\<lparr>wd_events := ms\<rparr>"
  have "hopeless ids ext b ?w" "at_rest ids b (W, [])"
    using event assms(1) by (auto simp: hopeless_def orphaned_def dangling_def world_ok_def at_rest_def)
  from rest_consume [OF this event(3)] have "at_rest ids b (W', h)" by (metis event(4))
  moreover have "dangling ids b ?w" using event(5) by (auto simp: orphaned_def dangling_def world_ok_def)
  ultimately show ?case
    using dangling_replay [OF assms(1) _ event(2)] by (auto simp: orphaned_def at_rest_def)
next
  case (poll ext rng bad w W W' h)
  have "hopeless ids ext b w" "at_rest ids b (W, [])"
    using poll assms(1) by (auto simp: hopeless_def orphaned_def at_rest_def)
  from rest_consume [OF this poll(2)] have "at_rest ids b (W', h)" by (metis poll(3))
  then show ?case
    using dangling_replay [OF assms(1) _ poll(1)] poll(4) by (auto simp: orphaned_def at_rest_def)
next
  case (missed W w n)
  then show ?case by (auto simp: orphaned_def dangling_def world_ok_def)
qed

lemma orphaned_run:
  "id_source ids \<Longrightarrow> wrap_run ids (spares ids (bx_ID b)) s s' \<Longrightarrow> orphaned ids b s \<Longrightarrow> orphaned ids b s'"
  by (rotate_tac 1, induction rule: wrap_run.induct) (auto intro: orphaned_step)

text \<open>C7. An anchor that has lost its target and its entry in the pool is never repaired. However often the watcher polls and
  whatever starts, the target itself included, with any others at work and any failures, until somebody else
  removes the anchor it stays what it is: bound to a container that no longer exists, and in no entry of the pool.\<close>

theorem orphan_forever:
  assumes "id_source ids" "orphaned ids b s" "wrap_run ids (spares ids (bx_ID b)) s s'"
  shows "b \<in> set (wd_boxes (snd s')) \<and> (\<exists>ref. guest_ref b = Some ref \<and> box_at ref (snd s') = None)
    \<and> untracked (bx_ID b) (ww_pool (fst s'))"
proof -
  have "orphaned ids b s'" by (rule orphaned_run [OF assms(1,3,2)])
  then show ?thesis by (auto simp: orphaned_def dangling_def box_at_none)
qed

subsection \<open>What a poll repairs\<close>

lemma pool_loop_entries:
  assumes "\<And>n as a. (n, as) \<in> set pool \<Longrightarrow> a \<in> set as \<Longrightarrow> Q n a"
    and "\<And>c n. c \<in> set cs \<Longrightarrow> own_sibling project self c \<Longrightarrow> target_of all c = Some n \<Longrightarrow> n \<noteq> [] \<Longrightarrow> Q n (wc_ID c)"
    and "(n, as) \<in> set (fst (pool_loop all project self cs (pool, orphans)))" "a \<in> set as"
  shows "Q n a"
  using assms
proof (induction cs arbitrary: pool orphans)
  case (Cons c cs)
  obtain os where run: "pool_loop all project self (c # cs) (pool, orphans) = pool_loop all project self cs
      (case target_of all c of None \<Rightarrow> pool
       | Some n \<Rightarrow> if own_sibling project self c \<and> n \<noteq> [] then gm_put n (pool_at pool n @ [wc_ID c]) pool else pool, os)"
    using pool_loop_Cons by blast
  have put: "Q k x" if "(k, xs) \<in> set (gm_put m (pool_at pool m @ [wc_ID c]) pool)" "x \<in> set xs" "Q m (wc_ID c)" for k xs x m
  proof -
    have "x \<in> set (pool_at pool m) \<Longrightarrow> Q m x"
      using Cons.prems(1) map_of_SomeD [of pool m] by (cases "map_of pool m") (auto simp: pool_at_def)
    moreover have "(k, xs) = (m, pool_at pool m @ [wc_ID c]) \<or> (k, xs) \<in> set pool"
      using that(1) set_gm_put [of m "pool_at pool m @ [wc_ID c]" pool] by blast
    ultimately show ?thesis using that(2,3) Cons.prems(1) [of k xs x] by auto
  qed
  show ?case
    by (rule Cons.IH [OF _ _ Cons.prems(3) [unfolded run] Cons.prems(4)])
      (use Cons.prems(1,2) put in \<open>auto split: option.splits if_splits\<close>)
qed simp

text \<open>What stands for a name in the list: the container of that name, and otherwise none.\<close>

lemma find_none_info:
  "(\<And>x. x \<in> set (wd_boxes w) \<Longrightarrow> \<not> P (wr_info (bx_summary x))) \<Longrightarrow> find P (infos w) = None"
  by (auto simp: find_None_iff infos_def)

lemma resolve_by_name:
  assumes "id_source ids" "world_ok ids w" "name_ok ids n"
  shows "resolveContainerByName (infos w) n
    = (case find (\<lambda>x. bx_Name x = n) (wd_boxes w) of None \<Rightarrow> [] | Some t \<Rightarrow> bx_ID t)"
proof -
  have bs: "\<exists>j. bx_ID x = ids j" if "x \<in> set (wd_boxes w)" for x using assms(2) that by (auto simp: world_ok_def)
  note n = name_facts [OF assms(1,3)]
  have 1: "find (\<lambda>c. wc_ID c = n) (infos w) = None"
    by (rule find_none_info) (use bs n(3) in \<open>metis summary_info(1)\<close>)
  have 2: "find (\<lambda>c. has_prefix (wc_ID c) n) (infos w) = None" if "12 \<le> length n"
    by (rule find_none_info) (use bs n(4) [OF that] in \<open>metis summary_info(1)\<close>)
  have trim: "trim_prefix (''/'' @ bx_Name x) ''/'' = bx_Name x" for x by (rule trim_prefix_append)
  then have names: "list_ex (\<lambda>m. trim_prefix m ''/'' = n) (wc_Names (wr_info (bx_summary x))) \<longleftrightarrow> bx_Name x = n" for x
    using trim [of x] by simp
  have "find P (map (wr_info \<circ> bx_summary) xs) = map_option (wr_info \<circ> bx_summary) (find (\<lambda>x. P (wr_info (bx_summary x))) xs)" for xs P
    by (induction xs) auto
  from this [of "\<lambda>c. list_ex (\<lambda>m. trim_prefix m ''/'' = n) (wc_Names c)" "wd_boxes w"]
  have 3: "find (\<lambda>c. list_ex (\<lambda>m. trim_prefix m ''/'' = n) (wc_Names c)) (infos w)
      = map_option (wr_info \<circ> bx_summary) (find (\<lambda>x. bx_Name x = n) (wd_boxes w))"
    by (simp only: infos_def names)
  show ?thesis
    using n(1,5) 1 2 3
    by (cases "12 \<le> length n") (simp_all add: resolveContainerByName_def Let_def split: option.split)
qed

lemma find_name_iff:
  assumes "world_ok ids w"
  shows "find (\<lambda>x. bx_Name x = n) (wd_boxes w) = Some t \<longleftrightarrow> t \<in> set (wd_boxes w) \<and> bx_Name t = n"
proof -
  have "distinct (map bx_Name bs) \<Longrightarrow> find (\<lambda>x. bx_Name x = n) bs = Some t \<longleftrightarrow> t \<in> set bs \<and> bx_Name t = n" for bs
    by (induction bs) auto
  then show ?thesis using assms by (simp add: world_ok_def)
qed

lemma find_info:
  assumes "world_ok ids w"
  shows "findByID (infos w) i = map_option (wr_info \<circ> bx_summary) (box_at i w)"
proof -
  have "find (\<lambda>c. wc_ID c = i) (map (wr_info \<circ> bx_summary) xs) = map_option (wr_info \<circ> bx_summary) (find (\<lambda>x. bx_ID x = i) xs)" for xs
    by (induction xs) auto
  then show ?thesis by (simp add: findByID_def infos_def box_at_def)
qed

text \<open>Containers do not change, and IDs are not used twice.\<close>

lemma exec_boxes:
  "wd_next w \<le> wd_next (exec ids c w)
    \<and> (x \<in> set (wd_boxes (exec ids c w)) \<longrightarrow> x \<in> set (wd_boxes w) \<or> bx_ID x = ids (wd_next w))"
  by (cases c) (auto simp: started_def dest: made_facts(1) split: option.split)

lemma later_boxes:
  "x \<in> set (wd_boxes (exec_all ids cs w)) \<Longrightarrow> x \<in> set (wd_boxes w) \<or> (\<exists>k. wd_next w \<le> k \<and> bx_ID x = ids k)"
proof (induction cs arbitrary: w)
  case (Cons c cs)
  then show ?case using exec_boxes [of w ids c x] Cons.IH [of "exec ids c w"] by (auto intro: le_trans)
qed simp

lemma same_later:
  assumes "id_source ids" "world_ok ids w" "b \<in> set (wd_boxes w)"
    and "b' \<in> set (wd_boxes (exec_all ids cs w))" "bx_ID b' = bx_ID b"
  shows "b' = b"
proof -
  obtain j where j: "bx_ID b = ids j" "j < wd_next w" using assms(2,3) by (auto simp: world_ok_def)
  then have "b' \<in> set (wd_boxes w)" using later_boxes [OF assms(4)] assms(5) by (auto simp: id_inj [OF assms(1)])
  then show ?thesis using same_box(1) [OF assms(2) _ assms(3)] assms(5) by blast
qed

text \<open>
  The check of a pool against a list of containers: which anchor it finds drifted, what a recreation of it
  does to the calls, and that no other is recreated.
\<close>

definition drift_at :: "wr_container list \<Rightarrow> string \<Rightarrow> string \<Rightarrow> string \<Rightarrow> bool" where
  "drift_at all n cur a \<longleftrightarrow> (case findByID all a of None \<Rightarrow> False
     | Some c \<Rightarrow> (case cut_prefix (wc_NetworkMode c) ''container:'' of None \<Rightarrow> False
        | Some ref \<Rightarrow> trim_space ref \<noteq> cur \<and> trim_space ref \<noteq> n))"

definition calls_only :: "string set \<Rightarrow> dk_history \<Rightarrow> bool" where
  "calls_only V h \<longleftrightarrow> (\<forall>i. CInspect i \<in> set h \<or> CRemove i \<in> set h \<longrightarrow> i \<in> V) \<and> (V = {} \<longrightarrow> set h \<subseteq> {CList})"

definition free_or_seen :: "string \<Rightarrow> wr_watcher \<times> dk_history \<Rightarrow> bool" where
  "free_or_seen a s \<longleftrightarrow> CInspect a \<in> set (snd s) \<or> (\<forall>n. lastRestartedAt (fst s) (dedup_key n a) = None)"

lemma dedup_key_inj:
  assumes "id_source ids" "dedup_key n (ids j) = dedup_key m (ids k)"
  shows "j = k"
proof -
  have "takeWhile (\<lambda>c. c \<noteq> CHR ''|'') (rev (dedup_key n (ids j))) = rev (ids j) @ rev ''anchor:''" for n j
  proof -
    have "CHR ''|'' \<notin> set (ids j)" using assms(1) by (simp add: id_source_def)
    then have "\<And>c. c \<in> set (rev (ids j)) \<Longrightarrow> c \<noteq> CHR ''|''" by auto
    from takeWhile_append2 [of "rev (ids j)" "\<lambda>c. c \<noteq> CHR ''|''", OF this] show ?thesis by (simp add: dedup_key_def)
  qed
  from this [of n j] this [of m k] assms(2) have "ids j = ids k" by simp
  then show ?thesis by (simp add: id_inj [OF assms(1)])
qed

lemma Recreate_calls:
  "\<exists>new. snd (wr_Recreate t D i mode h) = h @ CInspect i # new \<and> (\<forall>k. CInspect k \<notin> set new) \<and> (\<forall>k. CRemove k \<in> set new \<longrightarrow> k = i)"
  by (auto simp: wr_Recreate_def Let_def split: option.split)

lemma recreateAnchor_calls:
  assumes "a \<in> V"
  shows "set (snd s) \<subseteq> set (snd (recreateAnchor D a n s))"
    and "calls_only V (snd s) \<Longrightarrow> calls_only V (snd (recreateAnchor D a n s))"
    and "free_or_seen a s \<Longrightarrow> CInspect a \<in> set (snd (recreateAnchor D a n s))"
    and "id_source ids \<Longrightarrow> a = ids j \<Longrightarrow> free_or_seen (ids k) s \<Longrightarrow> free_or_seen (ids k) (recreateAnchor D a n s)"
proof -
  obtain W h where s: "s = (W, h)" by (cases s)
  obtain new where new: "snd (wr_Recreate (wr_RestartTimeout (ww_cfg W)) D a (''container:'' @ n) h) = h @ CInspect a # new"
    "\<forall>k. CInspect k \<notin> set new" "\<forall>k. CRemove k \<in> set new \<longrightarrow> k = a" using Recreate_calls by blast
  show "set (snd s) \<subseteq> set (snd (recreateAnchor D a n s))" by (auto simp: s recreateAnchor_def Let_def new simp del: append_Cons)
  show "calls_only V (snd (recreateAnchor D a n s))" if "calls_only V (snd s)"
    using that assms new(2,3) by (auto simp: s recreateAnchor_def Let_def new(1) calls_only_def simp del: append_Cons)
  show "CInspect a \<in> set (snd (recreateAnchor D a n s))" if "free_or_seen a s"
    using that by (auto simp: s recreateAnchor_def Let_def new(1) free_or_seen_def simp del: append_Cons)
  show "free_or_seen (ids k) (recreateAnchor D a n s)" if "id_source ids" "a = ids j" "free_or_seen (ids k) s"
  proof -
    have "dedup_key m (ids k) = dedup_key n a \<Longrightarrow> ids k = a" for m using dedup_key_inj [OF that(1)] that(2) by auto
    then show ?thesis
      using that(3) unfolding free_or_seen_def s recreateAnchor_def Let_def prod.case new(1) by auto
  qed
qed

lemma recheck_step:
  "recheck_anchors D all n cur (a # as) s = recheck_anchors D all n cur as (if drift_at all n cur a then recreateAnchor D a n s else s)"
  by (auto simp: drift_at_def Let_def split: option.split)

lemma recheck_anchors_calls:
  assumes "id_source ids" "V \<subseteq> range ids" "\<And>a. a \<in> set as \<Longrightarrow> drift_at all n cur a \<Longrightarrow> a \<in> V"
  shows "set (snd s) \<subseteq> set (snd (recheck_anchors D all n cur as s))
    \<and> (calls_only V (snd s) \<longrightarrow> calls_only V (snd (recheck_anchors D all n cur as s)))
    \<and> (k \<in> V \<longrightarrow> free_or_seen k s \<longrightarrow> free_or_seen k (recheck_anchors D all n cur as s)
         \<and> (k \<in> set as \<and> drift_at all n cur k \<longrightarrow> CInspect k \<in> set (snd (recheck_anchors D all n cur as s))))"
  using assms(3)
proof (induction "as" arbitrary: s)
  case (Cons a as)
  let ?s = "if drift_at all n cur a then recreateAnchor D a n s else s"
  have V: "a \<in> V" if "drift_at all n cur a" using Cons.prems that by simp
  have 1: "set (snd s) \<subseteq> set (snd ?s)" using recreateAnchor_calls(1) [OF V, where D = D and n = n and s = s] by simp
  have 2: "calls_only V (snd s) \<Longrightarrow> calls_only V (snd ?s)"
    using recreateAnchor_calls(2) [OF V, where D = D and n = n and s = s] by simp
  have 3: "free_or_seen k ?s" "k = a \<Longrightarrow> drift_at all n cur k \<Longrightarrow> CInspect k \<in> set (snd ?s)" if kV: "k \<in> V" and "free_or_seen k s"
  proof -
    show "free_or_seen k ?s"
    proof (cases "drift_at all n cur a")
      case True
      obtain i where "a = ids i" using V [OF True] assms(2) by auto
      moreover have "k \<in> range ids" using kV assms(2) by auto
      then obtain j where "k = ids j" by blast
      ultimately show ?thesis using recreateAnchor_calls(4) [OF V [OF True] assms(1)] \<open>free_or_seen k s\<close> True by simp
    qed (use \<open>free_or_seen k s\<close> in simp)
    show "CInspect k \<in> set (snd ?s)" if "k = a" "drift_at all n cur k"
      using that recreateAnchor_calls(3) [OF V, where D = D and n = n and s = s] \<open>free_or_seen k s\<close> by simp
  qed
  obtain u where u: "?s = u" by simp
  let ?r = "recheck_anchors D all n cur as u"
  have "set (snd u) \<subseteq> set (snd ?r) \<and> (calls_only V (snd u) \<longrightarrow> calls_only V (snd ?r))
    \<and> (k \<in> V \<longrightarrow> free_or_seen k u \<longrightarrow> free_or_seen k ?r
         \<and> (k \<in> set as \<and> drift_at all n cur k \<longrightarrow> CInspect k \<in> set (snd ?r)))"
    by (rule Cons.IH) (use Cons.prems in simp)
  then show ?case unfolding recheck_step u using 1 2 3 unfolding u list.set by blast
qed simp

lemma recheck_pool_calls:
  assumes "id_source ids" "V \<subseteq> range ids"
    and "\<And>n as a. (n, as) \<in> set pool \<Longrightarrow> a \<in> set as \<Longrightarrow> resolveContainerByName all n \<noteq> []
      \<Longrightarrow> drift_at all n (resolveContainerByName all n) a \<Longrightarrow> a \<in> V"
  shows "set (snd s) \<subseteq> set (snd (recheck_pool D all pool s))
    \<and> (calls_only V (snd s) \<longrightarrow> calls_only V (snd (recheck_pool D all pool s)))
    \<and> (k \<in> V \<longrightarrow> free_or_seen k s \<longrightarrow> (n, as) \<in> set pool \<longrightarrow> k \<in> set as \<longrightarrow> resolveContainerByName all n \<noteq> []
      \<longrightarrow> drift_at all n (resolveContainerByName all n) k \<longrightarrow> CInspect k \<in> set (snd (recheck_pool D all pool s)))"
  using assms(3)
proof (induction pool arbitrary: s)
  case (Cons e pool)
  obtain m xs where e: "e = (m, xs)" by (cases e)
  let ?cur = "resolveContainerByName all m"
  let ?s = "if ?cur = [] then s else recheck_anchors D all m ?cur xs s"
  have run: "recheck_pool D all (e # pool) s = recheck_pool D all pool ?s" by (simp add: e Let_def)
  have V: "a \<in> V" if "?cur \<noteq> []" "a \<in> set xs" "drift_at all m ?cur a" for a
    using Cons.prems that by (auto simp: e)
  have one: "set (snd s) \<subseteq> set (snd ?s)" "calls_only V (snd s) \<Longrightarrow> calls_only V (snd ?s)"
    "k \<in> V \<Longrightarrow> free_or_seen k s \<Longrightarrow> free_or_seen k ?s"
    "k \<in> V \<Longrightarrow> free_or_seen k s \<Longrightarrow> ?cur \<noteq> [] \<Longrightarrow> k \<in> set xs \<Longrightarrow> drift_at all m ?cur k \<Longrightarrow> CInspect k \<in> set (snd ?s)"
    using recheck_anchors_calls [OF assms(1,2) V, where s = s and D = D and k = k] by simp_all
  have "set (snd ?s) \<subseteq> set (snd (recheck_pool D all pool ?s))
    \<and> (calls_only V (snd ?s) \<longrightarrow> calls_only V (snd (recheck_pool D all pool ?s)))
    \<and> (k \<in> V \<longrightarrow> free_or_seen k ?s \<longrightarrow> (n, as) \<in> set pool \<longrightarrow> k \<in> set as \<longrightarrow> resolveContainerByName all n \<noteq> []
      \<longrightarrow> drift_at all n (resolveContainerByName all n) k \<longrightarrow> CInspect k \<in> set (snd (recheck_pool D all pool ?s)))"
    by (rule Cons.IH) (use Cons.prems in \<open>meson list.set_intros(2)\<close>)
  then show ?case unfolding run using one by (cases "(n, as) = e") (auto simp: e)
qed simp

text \<open>
  An anchor whose target has been recreated between two states of the daemon.
\<close>

definition drifted :: "wr_watcher \<Rightarrow> world \<Rightarrow> world \<Rightarrow> box \<Rightarrow> bool" where
  "drifted W w1 w2 b \<longleftrightarrow> own_sibling (wr_SelfProject (ww_cfg W)) (ww_selfID W) (wr_info (bx_summary b))
     \<and> b \<in> set (wd_boxes w1) \<and> b \<in> set (wd_boxes w2)
     \<and> (\<exists>t \<in> set (wd_boxes w1). \<exists>t' \<in> set (wd_boxes w2).
          guest_ref b = Some (bx_ID t) \<and> bx_Name t' = bx_Name t \<and> bx_ID t' \<noteq> bx_ID t)"

lemma drift_at_box:
  assumes "id_source ids" "world_ok ids w1" "world_ok ids w2" "w2 = exec_all ids cs w1"
    and "own_sibling (wr_SelfProject (ww_cfg W)) (ww_selfID W) (wr_info (bx_summary b))"
    and "b \<in> set (wd_boxes w1)" "t \<in> set (wd_boxes w1)" "guest_ref b = Some (bx_ID t)"
  shows "resolveContainerByName (infos w2) (bx_Name t) \<noteq> []
      \<and> drift_at (infos w2) (bx_Name t) (resolveContainerByName (infos w2) (bx_Name t)) (bx_ID b)
    \<longleftrightarrow> drifted W w1 w2 b"
proof -
  have ids: "\<exists>j. bx_ID x = ids j" if "x \<in> set (wd_boxes w1) \<or> x \<in> set (wd_boxes w2)" for x
    using that assms(2,3) by (auto simp: world_ok_def)
  have nt: "name_ok ids (bx_Name t)" using assms(2,7) by (simp add: world_ok_def)
  have t_only: "u = t" if "u \<in> set (wd_boxes w1)" "guest_ref b = Some (bx_ID u)" for u
    using same_box(1) [OF assms(2) that(1) assms(7)] that(2) assms(8) by simp
  have at: "box_at (bx_ID b) w2 = (if b \<in> set (wd_boxes w2) then Some b else None)"
  proof (cases "box_at (bx_ID b) w2")
    case None
    then show ?thesis by (auto simp: box_at_none)
  next
    case (Some b')
    then have b': "b' \<in> set (wd_boxes w2)" "bx_ID b' = bx_ID b" using assms(3) by (auto simp: box_at_iff world_ok_def)
    then have "b' = b" using same_later [OF assms(1,2,6)] assms(4) by blast
    then show ?thesis using Some b'(1) by simp
  qed
  have trim: "trim_space (bx_ID t) = bx_ID t" "bx_ID t \<noteq> bx_Name t"
    using ids [of t] assms(7) id_facts(2) [OF assms(1)] name_facts(3) [OF assms(1) nt] by auto
  have mode: "drift_at (infos w2) (bx_Name t) cur (bx_ID b) \<longleftrightarrow> b \<in> set (wd_boxes w2) \<and> bx_ID t \<noteq> cur" for cur
    using assms(8) trim by (simp add: drift_at_def find_info [OF assms(3)] at guest_ref_def)
  show ?thesis
  proof (cases "find (\<lambda>x. bx_Name x = bx_Name t) (wd_boxes w2)")
    case None
    then have "\<not> drifted W w1 w2 b" by (auto simp: drifted_def find_None_iff dest!: t_only)
    then show ?thesis using None by (simp add: resolve_by_name [OF assms(1,3) nt])
  next
    case (Some t')
    then have t': "t' \<in> set (wd_boxes w2)" "bx_Name t' = bx_Name t" using find_name_iff [OF assms(3)] by auto
    have cur: "resolveContainerByName (infos w2) (bx_Name t) = bx_ID t'" using Some by (simp add: resolve_by_name [OF assms(1,3) nt])
    obtain j where "bx_ID t' = ids j" using ids t'(1) by blast
    then have "bx_ID t' \<noteq> []" using id_facts(1) [OF assms(1), of j] by simp
    moreover have "u = t'" if "u \<in> set (wd_boxes w2)" "bx_Name u = bx_Name t" for u
      using same_box(2) [OF assms(3) that(1) t'(1)] that(2) t'(2) by simp
    ultimately show ?thesis
      unfolding cur mode drifted_def using assms(5-8) t' t_only by (metis (no_types, lifting))
  qed
qed

text \<open>The pool that is built from a state: the own anchors with the names of the containers they are bound to.\<close>

lemma built_entry:
  assumes "id_source ids" "world_ok ids w" "(n, as) \<in> set (fst (buildTargetPool (infos w) project self))" "a \<in> set as"
  shows "\<exists>b t. bx_ID b = a \<and> bx_Name t = n \<and> b \<in> set (wd_boxes w) \<and> t \<in> set (wd_boxes w) \<and> guest_ref b = Some (bx_ID t)
    \<and> own_sibling project self (wr_info (bx_summary b))" (is "?Q n a")
proof (rule pool_loop_entries [of "[]" ?Q "infos w" project self "infos w" n "as" "[]"])
  fix c m assume c: "c \<in> set (infos w)" "own_sibling project self c" "target_of (infos w) c = Some m" "m \<noteq> []"
  then obtain b where b: "b \<in> set (wd_boxes w)" "c = wr_info (bx_summary b)" by (auto simp: infos_def)
  then obtain ref t where "guest_ref b = Some ref" "box_at ref w = Some t" "bx_Name t = m"
    using c(3,4) by (auto simp: target_of_guest [OF assms(1,2)] split: option.splits)
  moreover from this(2) have "t \<in> set (wd_boxes w)" "bx_ID t = ref" by (auto simp: box_at_def find_Some_iff)
  ultimately show "?Q m (wc_ID c)" using b c(2) by auto
qed (use assms(3,4) in \<open>simp_all add: buildTargetPool_def\<close>)

lemma built_tracks:
  assumes "id_source ids" "world_ok ids w" "own_sibling project self (wr_info (bx_summary b))" "b \<in> set (wd_boxes w)"
    and "t \<in> set (wd_boxes w)" "guest_ref b = Some (bx_ID t)"
  shows "\<exists>as. (bx_Name t, as) \<in> set (fst (buildTargetPool (infos w) project self)) \<and> bx_ID b \<in> set as"
proof -
  let ?pool = "fst (buildTargetPool (infos w) project self)"
  have ne: "bx_Name t \<noteq> []" using assms(2,5) by (simp add: world_ok_def name_ok_def)
  have "box_at (bx_ID t) w = Some t" using assms(2,5) by (simp add: box_at_iff world_ok_def)
  then have "target_of (infos w) (wr_info (bx_summary b)) = Some (bx_Name t)"
    by (simp add: target_of_guest [OF assms(1,2,4)] assms(6))
  moreover have "wr_info (bx_summary b) \<in> set (infos w)" using assms(4) by (simp add: infos_def)
  ultimately have "wc_ID (wr_info (bx_summary b)) \<in> set (pool_at ?pool (bx_Name t))"
    using pool_loop_eq(1) [OF ne, of "infos w" project self "infos w" "[]" "[]"] assms(3)
    by (simp add: buildTargetPool_def pool_at_def del: summary_info)
  then show ?thesis
    by (cases "map_of ?pool (bx_Name t)") (auto simp: pool_at_def dest: map_of_SomeD)
qed


end
