(* ===== verification/WrapHealing.thy ===== *)
theory WrapHealing
  imports WrapSystem
begin

section \<open>A wrapped stack heals\<close>

text \<open>
  What the watcher of \<open>src/internal/wraprebinder/wraprebinder.go\<close> achieves on the system of theory
  \<open>WrapSystem\<close> when nobody disturbs it. A recreation is followed on the containers that exist (\<open>Recreate_renews\<close>), then the loop
  over the anchors of a target (\<open>mend_all\<close>), the pool that is built afterwards (\<open>enumerate_exact\<close>) and the events
  that the watcher causes itself (\<open>handle_rest\<close>): together, the stack is whole again after a target has been recreated
  (\<open>wrap_stack_heals\<close>).
\<close>

subsection \<open>One anchor recreated\<close>

definition renewed_box :: "(nat \<Rightarrow> string) \<Rightarrow> string \<Rightarrow> box \<Rightarrow> world \<Rightarrow> box" where
  "renewed_box ids i b w = \<lparr>bx_ID = ids (wd_next w), bx_Name = bx_Name b,
     bx_Config = (bx_Config b)\<lparr>cc_Hostname := [], cc_Domainname := [], cc_MacAddress := [], cc_ExposedPorts := []\<rparr>,
     bx_Host = (bx_Host b)\<lparr>hc_NetworkMode := container_mode i\<rparr>\<rparr>"

definition renew :: "(nat \<Rightarrow> string) \<Rightarrow> string \<Rightarrow> box \<Rightarrow> world \<Rightarrow> world" where
  "renew ids i b w = w\<lparr>wd_boxes := filter (\<lambda>x. bx_ID x \<noteq> bx_ID b) (wd_boxes w) @ [renewed_box ids i b w],
     wd_next := Suc (wd_next w), wd_events := wd_events w @ [start_msg (renewed_box ids i b w)]\<rparr>"

lemma container_mode_prefix [simp]: "has_prefix (container_mode n) ''container:''"
  unfolding container_mode_def by (rule has_prefix_append)

lemma renewed_box_simps [simp]:
  "bx_ID (renewed_box ids i b w) = ids (wd_next w)" "bx_Name (renewed_box ids i b w) = bx_Name b"
  "guest_ref (renewed_box ids i b w) = Some i" "cc_Labels (bx_Config (renewed_box ids i b w)) = cc_Labels (bx_Config b)"
  by (simp_all add: renewed_box_def guest_ref_def)

lemma used_id:
  assumes "id_source ids" "world_ok ids w" "b \<in> set (wd_boxes w)"
  shows "bx_ID b \<noteq> ids (wd_next w)" "guest_ref b \<noteq> Some (ids (wd_next w))"
  using assms(2,3) id_fresh [OF assms(1), of "wd_next w" "wd_next w"] unfolding world_ok_def by (metis less_irrefl)+

lemma Recreate_renews:
  assumes "id_source ids" "world_ok ids (exec_all ids h w0)"
    and b: "b \<in> set (wd_boxes (exec_all ids h w0))" and t: "t \<in> set (wd_boxes (exec_all ids h w0))" "t \<noteq> b"
  shows "exec_all ids (snd (wr_Recreate tm (calm_docker ids w0) (bx_ID b) (container_mode (bx_Name t)) h)) w0
    = renew ids (bx_ID t) b (exec_all ids h w0)"
proof -
  let ?w = "exec_all ids h w0"
  let ?w1 = "?w\<lparr>wd_boxes := filter (\<lambda>x. bx_ID x \<noteq> bx_ID b) (wd_boxes ?w)\<rparr>"
  let ?cfg = "(bx_Config b)\<lparr>cc_Hostname := [], cc_Domainname := [], cc_MacAddress := [], cc_ExposedPorts := []\<rparr>"
  let ?r = "\<lparr>cr_Config = ?cfg, cr_HostConfig = (bx_Host b)\<lparr>hc_NetworkMode := container_mode (bx_Name t)\<rparr>, cr_Name = bx_Name b\<rparr>"
  have at: "box_at (bx_ID b) ?w = Some b" using assms(2) b by (simp add: box_at_iff world_ok_def)
  have ok1: "world_ok ids ?w1" using world_ok_exec [OF assms(1,2), of "CRemove (bx_ID b)"] by (simp add: well_named_def)
  have t1: "t \<in> set (wd_boxes ?w1)" using t same_box(1) [OF assms(2) t(1) b] by auto
  have found: "find_box (wd_boxes ?w1) (bx_Name t) = Some t" by (rule find_named(1) [OF assms(1) ok1 t1])
  have free: "bx_Name b \<notin> bx_Name ` set (wd_boxes ?w1)" using same_box(2) [OF assms(2) _ b] by auto
  have guest: "netns_guest (container_mode n) ?cfg" for n by (simp add: netns_guest_def)
  have made: "made ids ?r ?w1 = Some (renewed_box ids (bx_ID t) b ?w)"
    using free found guest by (simp add: made_def Let_def renewed_box_def)
  let ?w2 = "?w1\<lparr>wd_boxes := wd_boxes ?w1 @ [renewed_box ids (bx_ID t) b ?w], wd_next := Suc (wd_next ?w)\<rparr>"
  have ok2: "world_ok ids ?w2"
    using world_ok_exec [OF assms(1) ok1, of "CCreate ?r"] made assms(2) b by (simp add: well_named_def world_ok_def)
  have at2: "box_at (ids (wd_next ?w)) ?w2 = Some (renewed_box ids (bx_ID t) b ?w)"
    using ok2 by (simp add: box_at_iff world_ok_def)
  have start: "startable (ids (wd_next ?w)) ?w2" unfolding startable_def at2 using t1 by simp
  have name: "trim_prefix (ci_Name (bx_inspect b)) ''/'' = bx_Name b"
    unfolding bx_inspect_def ct_inspect.simps by (rule trim_prefix_append)
  have run: "snd (wr_Recreate tm (calm_docker ids w0) (bx_ID b) (container_mode (bx_Name t)) h)
      = h @ [CInspect (bx_ID b), CRemove (bx_ID b), CCreate ?r, CStart (ids (wd_next ?w))]"
    using at made start name
    by (simp add: wr_Recreate_def calm_docker_def Let_def bx_inspect_def)
  show ?thesis using made at2 start by (simp add: run started_def renew_def)
qed

subsection \<open>A target recreated\<close>

text \<open>The anchors of the watcher: the containers of its project, but not its own, that are in the namespace of another.\<close>

definition own :: "wr_watcher \<Rightarrow> box \<Rightarrow> bool" where
  "own W b \<longleftrightarrow> own_sibling (wr_SelfProject (ww_cfg W)) (ww_selfID W) (wr_info (bx_summary b)) \<and> guest_ref b \<noteq> None"

definition bound :: "world \<Rightarrow> box \<Rightarrow> string \<Rightarrow> bool" where
  "bound w b n \<longleftrightarrow> (\<exists>t \<in> set (wd_boxes w). guest_ref b = Some (bx_ID t) \<and> guest_ref t = None \<and> bx_Name t = n)"

text \<open>An anchor of the name \<open>A\<close> is bound to the target of the name \<open>n\<close>.\<close>

definition anchored :: "wr_watcher \<Rightarrow> world \<Rightarrow> string \<Rightarrow> string \<Rightarrow> bool" where
  "anchored W w A n \<longleftrightarrow> (\<exists>b \<in> set (wd_boxes w). own W b \<and> bx_Name b = A \<and> bound w b n)"

text \<open>The same while the anchors of \<open>T\<close> may still have the ID \<open>old\<close> of the container that was removed.\<close>

definition linked :: "string \<Rightarrow> string \<Rightarrow> world \<Rightarrow> box \<Rightarrow> string \<Rightarrow> bool" where
  "linked old T w b n \<longleftrightarrow> bound w b n \<or> guest_ref b = Some old \<and> n = T"

definition follows :: "string \<Rightarrow> string \<Rightarrow> wr_watcher \<Rightarrow> world \<Rightarrow> string \<Rightarrow> string \<Rightarrow> bool" where
  "follows old T W w A n \<longleftrightarrow> (\<exists>b \<in> set (wd_boxes w). own W b \<and> bx_Name b = A \<and> linked old T w b n)"

definition pool_is :: "wr_watcher \<Rightarrow> (string \<Rightarrow> string set) \<Rightarrow> bool" where
  "pool_is W f \<longleftrightarrow> (\<forall>n. distinct (pool_at (ww_pool W) n) \<and> set (pool_at (ww_pool W) n) = f n)"

definition tracked_ids :: "wr_watcher \<Rightarrow> world \<Rightarrow> string \<Rightarrow> string set" where
  "tracked_ids W w n = {bx_ID b |b. b \<in> set (wd_boxes w) \<and> own W b \<and> bound w b n}"

text \<open>No recreation is suppressed, and no future container is the watcher's own.\<close>

definition unused :: "(nat \<Rightarrow> string) \<Rightarrow> wr_watcher \<Rightarrow> world \<Rightarrow> bool" where
  "unused ids W w \<longleftrightarrow> (\<forall>k n. ids k \<in> bx_ID ` set (wd_boxes w) \<or> wd_next w \<le> k \<longrightarrow> lastRestartedAt W (dedup_key n (ids k)) = None)
     \<and> (\<forall>k. wd_next w \<le> k \<longrightarrow> ids k \<noteq> ww_selfID W)"

text \<open>The state while the anchors \<open>as\<close> are still to be recreated.\<close>

definition mending :: "(nat \<Rightarrow> string) \<Rightarrow> string \<Rightarrow> string \<Rightarrow> string list \<Rightarrow> wr_watcher \<Rightarrow> world \<Rightarrow> bool" where
  "mending ids old T as W w \<longleftrightarrow> world_ok ids w \<and> unused ids W w \<and> distinct as
     \<and> old \<notin> bx_ID ` set (wd_boxes w) \<and> old \<in> ids ` {..<wd_next w}
     \<and> (\<exists>t \<in> set (wd_boxes w). bx_Name t = T \<and> guest_ref t = None)
     \<and> (\<forall>b \<in> set (wd_boxes w). own W b \<longrightarrow> (if bx_ID b \<in> set as then guest_ref b = Some old else \<exists>n. bound w b n))
     \<and> (\<forall>a \<in> set as. \<exists>b \<in> set (wd_boxes w). bx_ID b = a \<and> own W b)
     \<and> (\<forall>m \<in> set (wd_events w). \<exists>b \<in> set (wd_boxes w). own W b \<and> (\<exists>n. bound w b n) \<and> m = start_msg b)
     \<and> (\<forall>n. pool_at (ww_pool W) n \<noteq> [] \<longrightarrow> (\<exists>t \<in> set (wd_boxes w). bx_Name t = n \<and> guest_ref t = None))"

lemma own_same [simp]:
  "own (W\<lparr>lastRestartedAt := f\<rparr>) = own W" "own (W\<lparr>ww_pool := p\<rparr>) = own W"
  by (simp_all add: own_def fun_eq_iff)

lemma own_renewed_box:
  "own W b \<Longrightarrow> ids (wd_next w) \<noteq> ww_selfID W \<Longrightarrow> own W (renewed_box ids i b w)"
  by (simp add: own_def own_sibling_def)

lemma renew_boxes: "x \<in> set (wd_boxes (renew ids i b w)) \<longleftrightarrow> x \<in> set (wd_boxes w) \<and> bx_ID x \<noteq> bx_ID b \<or> x = renewed_box ids i b w"
  by (auto simp: renew_def)

lemma world_ok_renew:
  assumes "id_source ids" "world_ok ids w" "b \<in> set (wd_boxes w)" "i \<in> ids ` {..<wd_next w}"
  shows "world_ok ids (renew ids i b w)"
proof -
  have sub: "x \<in> ids ` {..<n} \<Longrightarrow> x \<in> ids ` {..<Suc n}" for x n by auto
  have d: "distinct (map f (filter P xs))" if "distinct (map f xs)" for f :: "box \<Rightarrow> string" and P xs
    using that by (induction xs) auto
  have "bx_Name b \<notin> bx_Name ` {x \<in> set (wd_boxes w). bx_ID x \<noteq> bx_ID b}"
    using same_box(2) [OF assms(2) _ assms(3)] by auto
  moreover have "ids (wd_next w) \<notin> bx_ID ` {x \<in> set (wd_boxes w). bx_ID x \<noteq> bx_ID b}"
    using used_id(1) [OF assms(1,2)] by (metis (no_types, lifting) imageE mem_Collect_eq)
  ultimately have "distinct (map bx_ID (wd_boxes (renew ids i b w)))" "distinct (map bx_Name (wd_boxes (renew ids i b w)))"
    using assms(2) d by (simp_all add: renew_def world_ok_def)
  moreover have "name_ok ids (bx_Name x) \<and> bx_ID x \<in> ids ` {..<Suc (wd_next w)}
      \<and> (\<forall>ref. guest_ref x = Some ref \<longrightarrow> ref \<in> ids ` {..<Suc (wd_next w)})" if "x \<in> set (wd_boxes (renew ids i b w))" for x
    using that assms(2,3,4) sub unfolding renew_boxes world_ok_def by auto
  ultimately show ?thesis by (simp add: world_ok_def) (simp add: renew_def)
qed

text \<open>An anchor that is recreated is bound to the target, and all others stay as they are.\<close>

lemma bound_renew:
  assumes "world_ok ids w" "b \<in> set (wd_boxes w)" "guest_ref b \<noteq> None"
  shows "bound (renew ids i b w) x n \<longleftrightarrow> bound w x n"
proof -
  have "t \<in> set (wd_boxes (renew ids i b w)) \<longleftrightarrow> t \<in> set (wd_boxes w)" if "guest_ref t = None" for t
    using same_box(1) [OF assms(1) _ assms(2), of t] assms(3) that by (auto simp: renew_boxes)
  then show ?thesis by (auto simp: bound_def)
qed

lemma mend_one:
  assumes ids: "id_source ids" and m: "mending ids old T (bx_ID b # as) W (exec_all ids h w0)" and b: "b \<in> set (wd_boxes (exec_all ids h w0))"
    and run: "recreateAnchor (calm_docker ids w0) (bx_ID b) T (W, h) = (W', h')"
  shows "mending ids old T as W' (exec_all ids h' w0)"
    "follows old T W' (exec_all ids h' w0) A n \<longleftrightarrow> follows old T W (exec_all ids h w0) A n"
    "\<exists>f. W' = W\<lparr>lastRestartedAt := f\<rparr>"
    "length (wd_events (exec_all ids h' w0)) = Suc (length (wd_events (exec_all ids h w0)))"
proof -
  let ?w = "exec_all ids h w0" and ?w' = "exec_all ids h' w0"
  have w: "world_ok ids ?w" "unused ids W ?w" "old \<notin> bx_ID ` set (wd_boxes ?w)" "old \<in> ids ` {..<wd_next ?w}"
    and as: "bx_ID b \<notin> set as" "distinct as"
    and guests: "\<And>x. x \<in> set (wd_boxes ?w) \<Longrightarrow> own W x \<Longrightarrow> (if bx_ID x = bx_ID b \<or> bx_ID x \<in> set as then guest_ref x = Some old else \<exists>n. bound ?w x n)"
    and anchors: "\<And>a. a \<in> set (bx_ID b # as) \<Longrightarrow> \<exists>x \<in> set (wd_boxes ?w). bx_ID x = a \<and> own W x"
    and events: "\<And>e. e \<in> set (wd_events ?w) \<Longrightarrow> \<exists>x \<in> set (wd_boxes ?w). own W x \<and> (\<exists>n. bound ?w x n) \<and> e = start_msg x"
    and pool: "\<And>n. pool_at (ww_pool W) n \<noteq> [] \<Longrightarrow> \<exists>t \<in> set (wd_boxes ?w). bx_Name t = n \<and> guest_ref t = None"
    using m unfolding mending_def by auto
  obtain t where t: "t \<in> set (wd_boxes ?w)" "bx_Name t = T" "guest_ref t = None" using m unfolding mending_def by blast
  have own: "own W b" using anchors [of "bx_ID b"] same_box(1) [OF w(1) _ b] by auto
  have old: "guest_ref b = Some old" using guests [OF b own] by simp
  have tb: "t \<noteq> b" using t(3) old by auto
  obtain k where k: "bx_ID b = ids k" using w(1) b by (auto simp: world_ok_def)
  have none: "lastRestartedAt W (dedup_key T (bx_ID b)) = None" using w(2) b unfolding unused_def k by (metis k imageI)
  have step: "W' = W\<lparr>lastRestartedAt := (lastRestartedAt W)(dedup_key T (bx_ID b) \<mapsto> wd_clock ?w)\<rparr>"
      "h' = snd (wr_Recreate (wr_RestartTimeout (ww_cfg W)) (calm_docker ids w0) (bx_ID b) (container_mode T) h)"
    using run none by (simp_all add: recreateAnchor_def Let_def calm_docker_def container_mode_def)
  have w': "?w' = renew ids (bx_ID t) b ?w"
    using Recreate_renews [OF ids w(1) b t(1) tb] by (simp add: step(2) t(2))
  show W': "\<exists>f. W' = W\<lparr>lastRestartedAt := f\<rparr>" using step(1) by blast
  then have [simp]: "own W' = own W" "ww_pool W' = ww_pool W" "ww_selfID W' = ww_selfID W" by auto
  have tid: "bx_ID t \<in> ids ` {..<wd_next ?w}" using w(1) t(1) by (simp add: world_ok_def)
  have next': "wd_next ?w' = Suc (wd_next ?w)" by (simp add: w' renew_def)
  note boxes = renew_boxes [of _ ids "bx_ID t" b ?w, folded w']
  have stay: "x \<in> set (wd_boxes ?w')" if "x \<in> set (wd_boxes ?w)" "x \<noteq> b" for x
    using that same_box(1) [OF w(1) that(1) b] by (auto simp: boxes)
  have bound: "bound ?w' x n \<longleftrightarrow> bound ?w x n" for x n unfolding w' by (rule bound_renew) (use w(1) b old in auto)
  have fresh: "own W (renewed_box ids (bx_ID t) b ?w)" by (rule own_renewed_box [OF own]) (use w(2) in \<open>simp add: unused_def\<close>)
  have "u = t" if "u \<in> set (wd_boxes ?w)" "bx_ID t = bx_ID u" for u using same_box(1) [OF w(1) that(1) t(1)] that(2) by simp
  then have new: "bound ?w (renewed_box ids (bx_ID t) b ?w) n \<longleftrightarrow> n = T" for n
    unfolding bound_def renewed_box_simps using t by blast
  have "world_ok ids ?w'" unfolding w' by (rule world_ok_renew [OF ids w(1) b tid])
  moreover have "unused ids W' ?w'"
  proof -
    have "lastRestartedAt W' (dedup_key n (ids j)) = None" if "ids j \<in> bx_ID ` set (wd_boxes ?w') \<or> wd_next ?w' \<le> j" for j n
    proof -
      have kn: "k < wd_next ?w" using w(1) b id_fresh [OF ids, of k] unfolding world_ok_def k [symmetric] by blast
      have live: "(ids j \<in> bx_ID ` set (wd_boxes ?w) \<and> ids j \<noteq> bx_ID b) \<or> wd_next ?w \<le> j"
        using that
      proof
        assume "ids j \<in> bx_ID ` set (wd_boxes ?w')"
        then obtain x where "x \<in> set (wd_boxes ?w')" "ids j = bx_ID x" by blast
        then show ?thesis by (simp add: boxes) (metis id_inj [OF ids] imageI order_refl renewed_box_simps(1))
      qed (simp add: next')
      then have "ids j \<noteq> bx_ID b" using kn id_inj [OF ids, of j k] by (auto simp: k)
      then have "dedup_key n (ids j) \<noteq> dedup_key T (bx_ID b)" using dedup_key_inj [OF ids, of n j T k] by (auto simp: k)
      moreover have "ids j \<in> bx_ID ` set (wd_boxes ?w) \<or> wd_next ?w \<le> j" using live by blast
      then have "lastRestartedAt W (dedup_key n (ids j)) = None" using w(2) unfolding unused_def by blast
      ultimately show ?thesis by (simp add: step(1))
    qed
    then show ?thesis using w(2) by (simp add: unused_def next')
  qed
  moreover have "old \<noteq> ids (wd_next ?w)" using w(4) id_fresh [OF ids, of "wd_next ?w" "wd_next ?w"] by (metis less_irrefl)
  then have "old \<notin> bx_ID ` set (wd_boxes ?w')" "old \<in> ids ` {..<wd_next ?w'}"
    using w(3,4) by (auto simp: boxes next')
  moreover have "if bx_ID x \<in> set as then guest_ref x = Some old else \<exists>n. bound ?w' x n" if "x \<in> set (wd_boxes ?w')" "own W x" for x
  proof (cases "x = renewed_box ids (bx_ID t) b ?w")
    case True
    have "ids (wd_next ?w) \<notin> set as" using anchors used_id(1) [OF ids w(1)] by (metis list.set_intros(2))
    with True show ?thesis using new by (auto simp: bound)
  next
    case False
    then show ?thesis using that guests [of x] by (auto simp: boxes bound)
  qed
  moreover have "\<exists>x \<in> set (wd_boxes ?w'). bx_ID x = a \<and> own W x" if "a \<in> set as" for a
    using anchors [of a] that as(1) stay by (metis list.set_intros(2))
  moreover have "\<exists>x \<in> set (wd_boxes ?w'). own W x \<and> (\<exists>n. bound ?w' x n) \<and> e = start_msg x" if "e \<in> set (wd_events ?w')" for e
  proof (cases "e \<in> set (wd_events ?w)")
    case True
    then obtain x n where "x \<in> set (wd_boxes ?w)" "own W x" "bound ?w x n" "e = start_msg x" using events by blast
    moreover from this(3) have "x \<noteq> b" using w(3) old by (auto simp: bound_def)
    ultimately show ?thesis using stay bound by blast
  next
    case False
    then have "e = start_msg (renewed_box ids (bx_ID t) b ?w)" using that by (auto simp: w' renew_def)
    then show ?thesis using fresh new by (auto simp: boxes bound)
  qed
  moreover have free: "\<exists>u \<in> set (wd_boxes ?w'). bx_Name u = n \<and> guest_ref u = None" if "\<exists>u \<in> set (wd_boxes ?w). bx_Name u = n \<and> guest_ref u = None" for n
    using that stay old by (metis option.distinct(1))
  moreover have "\<exists>u \<in> set (wd_boxes ?w'). bx_Name u = T \<and> guest_ref u = None" by (rule free) (use t in blast)
  moreover have "\<exists>u \<in> set (wd_boxes ?w'). bx_Name u = n \<and> guest_ref u = None" if "pool_at (ww_pool W) n \<noteq> []" for n
    by (rule free) (rule pool [OF that])
  ultimately show "mending ids old T as W' ?w'"
    using as(2) unfolding mending_def by simp
  show "length (wd_events ?w') = Suc (length (wd_events ?w))" by (simp add: w' renew_def)
  show "follows old T W' ?w' A n \<longleftrightarrow> follows old T W ?w A n"
  proof
    assume "follows old T W' ?w' A n"
    then obtain x where x: "x \<in> set (wd_boxes ?w')" "own W x" "bx_Name x = A" "linked old T ?w' x n" by (auto simp: follows_def)
    show "follows old T W ?w A n"
    proof (cases "x = renewed_box ids (bx_ID t) b ?w")
      case True
      then have "bx_Name b = A" "n = T" using x(3,4) new old w(3) t(1) by (auto simp: linked_def bound)
      then show ?thesis using b own old by (auto simp: follows_def linked_def)
    next
      case False
      then show ?thesis using x by (auto simp: follows_def linked_def bound boxes)
    qed
  next
    assume "follows old T W ?w A n"
    then obtain x where x: "x \<in> set (wd_boxes ?w)" "own W x" "bx_Name x = A" "linked old T ?w x n" by (auto simp: follows_def)
    show "follows old T W' ?w' A n"
    proof (cases "x = b")
      case True
      then have "n = T" using x(4) old w(3) by (auto simp: linked_def bound_def)
      then show ?thesis using True x(3) fresh new by (auto simp: follows_def linked_def bound boxes)
    next
      case False
      then show ?thesis using x stay by (auto simp: follows_def linked_def bound)
    qed
  qed
qed

lemma mend_all:
  assumes ids: "id_source ids"
  shows "mending ids old T as W (exec_all ids h w0) \<Longrightarrow> recreate_anchors (calm_docker ids w0) T as (W, h) = (W', h')
    \<Longrightarrow> mending ids old T [] W' (exec_all ids h' w0)
      \<and> (\<forall>A n. follows old T W' (exec_all ids h' w0) A n \<longleftrightarrow> follows old T W (exec_all ids h w0) A n)
      \<and> (\<exists>f. W' = W\<lparr>lastRestartedAt := f\<rparr>)
      \<and> length (wd_events (exec_all ids h' w0)) = length (wd_events (exec_all ids h w0)) + length as"
proof (induction "as" arbitrary: W h)
  case Nil
  then show ?case by (cases W) auto
next
  case (Cons a as)
  obtain b where b: "b \<in> set (wd_boxes (exec_all ids h w0))" "bx_ID b = a" using Cons.prems(1) by (auto simp: mending_def)
  obtain W1 h1 where r: "recreateAnchor (calm_docker ids w0) (bx_ID b) T (W, h) = (W1, h1)"
    by (cases "recreateAnchor (calm_docker ids w0) (bx_ID b) T (W, h)")
  note one = mend_one [OF ids Cons.prems(1) [folded b(2)] b(1) r]
  obtain f where f: "W1 = W\<lparr>lastRestartedAt := f\<rparr>" using one(3) by blast
  from Cons.IH [OF one(1)] Cons.prems(2) r have
    "mending ids old T [] W' (exec_all ids h' w0)"
    "\<forall>A n. follows old T W' (exec_all ids h' w0) A n \<longleftrightarrow> follows old T W1 (exec_all ids h1 w0) A n"
    "\<exists>f. W' = W1\<lparr>lastRestartedAt := f\<rparr>"
    "length (wd_events (exec_all ids h' w0)) = length (wd_events (exec_all ids h1 w0)) + length as"
    by (simp_all add: b(2))
  then show ?case using one(2,4) by (auto simp: f)
qed

lemma enumerate_exact:
  assumes "id_source ids" "world_ok ids (exec_all ids h w0)"
    and bound: "\<And>b. b \<in> set (wd_boxes (exec_all ids h w0)) \<Longrightarrow> own W b \<Longrightarrow> \<exists>n. bound (exec_all ids h w0) b n"
  shows "\<exists>p. enumerateTargetPool (calm_docker ids w0) (W, h) = (W\<lparr>ww_pool := p\<rparr>, h @ [CList])
    \<and> pool_is (W\<lparr>ww_pool := p\<rparr>) (tracked_ids W (exec_all ids h w0))"
proof -
  let ?w = "exec_all ids h w0"
  let ?p = "fst (buildTargetPool (infos ?w) (wr_SelfProject (ww_cfg W)) (ww_selfID W))"
  let ?own = "own_sibling (wr_SelfProject (ww_cfg W)) (ww_selfID W)"
  have target: "own W b \<and> bound ?w b n \<longleftrightarrow> ?own (wr_info (bx_summary b)) \<and> target_of (infos ?w) (wr_info (bx_summary b)) = Some n"
    if b: "b \<in> set (wd_boxes ?w)" and n: "n \<noteq> []" for b n
  proof (cases "?own (wr_info (bx_summary b)) \<and> guest_ref b \<noteq> None")
    case True
    then have "own W b" by (simp add: own_def)
    from bound [OF b this] obtain t where t: "t \<in> set (wd_boxes ?w)" "guest_ref b = Some (bx_ID t)" "guest_ref t = None"
      by (auto simp: bound_def)
    have "box_at (bx_ID t) ?w = Some t" using assms(2) t(1) by (simp add: box_at_iff world_ok_def)
    moreover have "u = t" if "u \<in> set (wd_boxes ?w)" "bx_ID t = bx_ID u" for u using same_box(1) [OF assms(2) that(1) t(1)] that(2) by simp
    then have "bound ?w b n \<longleftrightarrow> bx_Name t = n" unfolding bound_def t(2) option.inject using t(1,3) by blast
    ultimately show ?thesis using True t(2) \<open>own W b\<close> by (simp add: target_of_guest [OF assms(1,2) b])
  next
    case False
    then show ?thesis using n by (auto simp: own_def target_of_guest [OF assms(1,2) b])
  qed
  have some: "pool_at ?p n = map bx_ID (filter (\<lambda>b. own W b \<and> bound ?w b n) (wd_boxes ?w))" if "n \<noteq> []" for n
  proof -
    have "pool_at ?p n = map wc_ID (filter (\<lambda>c. ?own c \<and> target_of (infos ?w) c = Some n) (infos ?w))"
      using pool_loop_eq(1) [OF that, of "infos ?w" "wr_SelfProject (ww_cfg W)" "ww_selfID W" "infos ?w" "[]" "[]"]
      by (simp add: buildTargetPool_def pool_at_def)
    also have "\<dots> = map bx_ID (filter (\<lambda>b. ?own (wr_info (bx_summary b)) \<and> target_of (infos ?w) (wr_info (bx_summary b)) = Some n) (wd_boxes ?w))"
      unfolding infos_def filter_map by (simp add: comp_def)
    also have "\<dots> = map bx_ID (filter (\<lambda>b. own W b \<and> bound ?w b n) (wd_boxes ?w))"
      using target that by (intro arg_cong [where f = "map bx_ID"] filter_cong) auto
    finally show ?thesis .
  qed
  have none: "pool_at ?p [] = []"
  proof (cases "map_of ?p []")
    case (Some as)
    have "a \<notin> set as" for a
      using pool_loop_entries [of "[]" "\<lambda>n _. n \<noteq> []" "infos ?w" "wr_SelfProject (ww_cfg W)" "ww_selfID W" "infos ?w" "[]" "as" "[]" a]
        map_of_SomeD [OF Some] by (auto simp: buildTargetPool_def)
    then have "as = []" by (cases "as") auto
    then show ?thesis by (simp add: pool_at_def Some)
  qed (simp add: pool_at_def)
  have "\<not> bound ?w b []" for b
    using assms(2) name_facts(1) [OF assms(1)] by (auto simp: bound_def world_ok_def)
  then have "tracked_ids W ?w [] = {}" by (simp add: tracked_ids_def)
  moreover have "distinct (map bx_ID (filter P (wd_boxes ?w)))" for P
    using assms(2) by (simp add: world_ok_def distinct_map_filter)
  ultimately have "distinct (pool_at ?p n) \<and> set (pool_at ?p n) = tracked_ids W ?w n" for n
    by (cases "n = []") (auto simp: some none tracked_ids_def)
  then have "pool_is (W\<lparr>ww_pool := ?p\<rparr>) (tracked_ids W ?w)" by (simp add: pool_is_def)
  moreover have "enumerateTargetPool (calm_docker ids w0) (W, h) = (W\<lparr>ww_pool := ?p\<rparr>, h @ [CList])"
    by (simp add: enumerateTargetPool_def wr_ContainerList_def calm_docker_def infos_def comp_def split: prod.split)
  ultimately show ?thesis by blast
qed

text \<open>The watcher handles the oldest event, undisturbed.\<close>

definition handle_event :: "(nat \<Rightarrow> string) \<Rightarrow> wr_watcher \<times> world \<Rightarrow> wr_watcher \<times> world" where
  "handle_event ids = (\<lambda>(W, w). case wd_events w of [] \<Rightarrow> (W, w)
     | m # ms \<Rightarrow> (let w1 = w\<lparr>wd_events := ms\<rparr>;
          s = wr_consume (calm_docker ids w1) id [WrMsg (src_event wr_Events m)] (W, []) in (fst s, exec_all ids (snd s) w1)))"

lemma handle_event_step: "wrap_step ids P (W, w) (handle_event ids (W, w))"
proof (cases "wd_events w")
  case Nil
  then have "w\<lparr>wd_events := drop 0 (wd_events w)\<rparr> = w" by (cases w) simp
  moreover have "wrap_step ids P (W, w) (W, w\<lparr>wd_events := drop 0 (wd_events w)\<rparr>)" by (rule wrap_step.missed)
  ultimately show ?thesis using Nil by (simp only: handle_event_def prod.case list.case)
next
  case (Cons m ms)
  let ?w = "w\<lparr>wd_events := ms\<rparr>"
  let ?s = "wr_consume (docker ids (\<lambda>_. []) (\<lambda>_. False) ?w) id [WrMsg (src_event wr_Events m)] (W, [])"
  have "wrap_step ids P (W, w) (fst ?s, replay ids (\<lambda>_. []) (\<lambda>_. False) (snd ?s) 0 ?w)"
    by (rule wrap_step.event [OF Cons, where rng = id]) (simp_all add: range_perm_def del: wr_consume.simps)
  then show ?thesis by (simp only: handle_event_def prod.case Cons list.case Let_def calm_docker_def replay_calm)
qed

lemma start_event:
  "wr_consume (calm_docker ids w) id [WrMsg (src_event wr_Events (start_msg b))] s =
     (let s1 = recreate_anchors (calm_docker ids w) (bx_Name b) (lookupAnchors (fst s) (bx_Name b)) s in
      if str_index (map_of (cc_Labels (bx_Config b))) ''com.docker.compose.project'' = wr_SelfProject (ww_cfg (fst s))
      then enumerateTargetPool (calm_docker ids w) s1 else s1)"
  by (simp add: calm_docker_def wr_Events_def start_msg_def handleStart_def attribute_def str_index_def Let_def)

text \<open>All of the watcher's anchors are bound and tracked.\<close>

definition whole :: "(nat \<Rightarrow> string) \<Rightarrow> wr_watcher \<Rightarrow> world \<Rightarrow> bool" where
  "whole ids W w \<longleftrightarrow> world_ok ids w \<and> unused ids W w \<and> pool_is W (tracked_ids W w)
     \<and> (\<forall>b \<in> set (wd_boxes w). own W b \<longrightarrow> (\<exists>n. bound w b n))"

lemma world_simps [simp]:
  "bound (w\<lparr>wd_events := ms\<rparr>) = bound w" "tracked_ids W (w\<lparr>wd_events := ms\<rparr>) = tracked_ids W w"
  "tracked_ids (W\<lparr>ww_pool := p\<rparr>) w = tracked_ids W w" "follows old T W (w\<lparr>wd_events := ms\<rparr>) = follows old T W w"
  "follows old T (W\<lparr>ww_pool := p\<rparr>) w = follows old T W w"
  by (simp_all add: bound_def tracked_ids_def follows_def linked_def fun_eq_iff)

definition nearly :: "(nat \<Rightarrow> string) \<Rightarrow> string \<Rightarrow> string \<Rightarrow> wr_watcher \<times> world \<Rightarrow> bool" where
  "nearly ids old T s \<longleftrightarrow> mending ids old T [] (fst s) (snd s) \<and> (wd_events (snd s) = [] \<longrightarrow> pool_is (fst s) (tracked_ids (fst s) (snd s)))"

lemma mending_enumerate:
  assumes "id_source ids" "mending ids old T [] W (exec_all ids h w0)"
  shows "\<exists>p. enumerateTargetPool (calm_docker ids w0) (W, h) = (W\<lparr>ww_pool := p\<rparr>, h @ [CList])
    \<and> pool_is (W\<lparr>ww_pool := p\<rparr>) (tracked_ids W (exec_all ids h w0)) \<and> mending ids old T [] (W\<lparr>ww_pool := p\<rparr>) (exec_all ids h w0)"
proof -
  let ?w = "exec_all ids h w0"
  have "world_ok ids ?w" and bound: "\<And>b. b \<in> set (wd_boxes ?w) \<Longrightarrow> own W b \<Longrightarrow> \<exists>n. bound ?w b n"
    using assms(2) by (auto simp: mending_def)
  from enumerate_exact [OF assms(1) this] obtain p where
    p: "enumerateTargetPool (calm_docker ids w0) (W, h) = (W\<lparr>ww_pool := p\<rparr>, h @ [CList])" "pool_is (W\<lparr>ww_pool := p\<rparr>) (tracked_ids W ?w)" by blast
  have "\<exists>t \<in> set (wd_boxes ?w). bx_Name t = n \<and> guest_ref t = None" if "pool_at p n \<noteq> []" for n
  proof -
    have "tracked_ids W ?w n \<noteq> {}" using p(2) that by (simp add: pool_is_def) (metis set_empty)
    then show ?thesis by (auto simp: tracked_ids_def bound_def)
  qed
  with assms(2) have "mending ids old T [] (W\<lparr>ww_pool := p\<rparr>) ?w"
    by (simp add: mending_def unused_def)
  with p show ?thesis by blast
qed

lemma handle_next:
  assumes "id_source ids" "nearly ids old T (W, w)"
  shows "nearly ids old T (handle_event ids (W, w))"
    "wd_events (snd (handle_event ids (W, w))) = tl (wd_events w)"
    "follows old T (fst (handle_event ids (W, w))) (snd (handle_event ids (W, w))) = follows old T W w"
proof -
  have "nearly ids old T (handle_event ids (W, w)) \<and> wd_events (snd (handle_event ids (W, w))) = tl (wd_events w)
      \<and> follows old T (fst (handle_event ids (W, w))) (snd (handle_event ids (W, w))) = follows old T W w"
  proof (cases "wd_events w")
    case Nil
    then show ?thesis using assms(2) by (simp add: handle_event_def)
  next
    case (Cons m ms)
    let ?w = "w\<lparr>wd_events := ms\<rparr>"
    have m: "mending ids old T [] W w" using assms(2) by (simp add: nearly_def)
    obtain b n where b: "b \<in> set (wd_boxes w)" "own W b" "bound w b n" "m = start_msg b"
      using m Cons by (auto simp: mending_def)
    have "world_ok ids w" using m by (simp add: mending_def)
    have "pool_at (ww_pool W) (bx_Name b) = []"
    proof (rule ccontr)
      assume "pool_at (ww_pool W) (bx_Name b) \<noteq> []"
      then obtain t where "t \<in> set (wd_boxes w)" "bx_Name t = bx_Name b" "guest_ref t = None" using m by (auto simp: mending_def)
      with same_box(2) [OF \<open>world_ok ids w\<close> _ b(1), of t] b(2) show False by (simp add: own_def)
    qed
    moreover have "str_index (map_of (cc_Labels (bx_Config b))) ''com.docker.compose.project'' = wr_SelfProject (ww_cfg W)"
      using b(2) by (simp add: own_def own_sibling_def)
    ultimately have run: "wr_consume (calm_docker ids ?w) id [WrMsg (src_event wr_Events m)] (W, [])
        = enumerateTargetPool (calm_docker ids ?w) (W, [])"
      unfolding b(4) start_event by (simp add: lookupAnchors_pool)
    have "mending ids old T [] W ?w" using m Cons by (simp add: mending_def world_ok_def unused_def)
    then have "mending ids old T [] W (exec_all ids [] ?w)" by simp
    from mending_enumerate [OF assms(1) this] obtain p where
      "enumerateTargetPool (calm_docker ids ?w) (W, []) = (W\<lparr>ww_pool := p\<rparr>, [CList])"
      "pool_is (W\<lparr>ww_pool := p\<rparr>) (tracked_ids W w)" "mending ids old T [] (W\<lparr>ww_pool := p\<rparr>) ?w"
      by auto
    moreover from this(1) have "handle_event ids (W, w) = (W\<lparr>ww_pool := p\<rparr>, ?w)"
      by (simp only: handle_event_def prod.case Cons list.case Let_def run) simp
    ultimately show ?thesis using Cons by (simp add: nearly_def)
  qed
  then show "nearly ids old T (handle_event ids (W, w))"
    "wd_events (snd (handle_event ids (W, w))) = tl (wd_events w)"
    "follows old T (fst (handle_event ids (W, w))) (snd (handle_event ids (W, w))) = follows old T W w" by blast+
qed

lemma handle_rest:
  assumes "id_source ids" "nearly ids old T s" "length (wd_events (snd s)) \<le> k"
  shows "nearly ids old T ((handle_event ids ^^ k) s) \<and> wd_events (snd ((handle_event ids ^^ k) s)) = []
    \<and> follows old T (fst ((handle_event ids ^^ k) s)) (snd ((handle_event ids ^^ k) s)) = follows old T (fst s) (snd s)"
  using assms(2,3)
proof (induction k arbitrary: s)
  case (Suc k)
  obtain W w where s: "s = (W, w)" by (cases s)
  note next' = handle_next [OF assms(1) Suc.prems(1) [unfolded s], folded s]
  have "length (wd_events (snd (handle_event ids s))) \<le> k" unfolding next'(2) using Suc.prems(2) by (simp add: s)
  from Suc.IH [OF next'(1) this] next'(3) show ?case by (simp add: funpow_Suc_right s del: funpow.simps)
qed simp

text \<open>Others remove a target and create it again: a container of the same name, not in the namespace of another.\<close>

definition recreate_target :: "(nat \<Rightarrow> string) \<Rightarrow> box \<Rightarrow> create_req \<Rightarrow> world \<Rightarrow> world" where
  "recreate_target ids t r w = exec_all ids [CRemove (bx_ID t), CCreate r, CStart (ids (wd_next w))] w"

definition made_box :: "(nat \<Rightarrow> string) \<Rightarrow> create_req \<Rightarrow> world \<Rightarrow> box" where
  "made_box ids r w = \<lparr>bx_ID = ids (wd_next w), bx_Name = cr_Name r, bx_Config = cr_Config r, bx_Host = cr_HostConfig r\<rparr>"

lemma recreate_target_world:
  assumes "id_source ids" "world_ok ids w" "t \<in> set (wd_boxes w)"
    and r: "cr_Name r = bx_Name t" "cut_prefix (hc_NetworkMode (cr_HostConfig r)) ''container:'' = None"
  shows "recreate_target ids t r w = w\<lparr>wd_boxes := filter (\<lambda>x. bx_ID x \<noteq> bx_ID t) (wd_boxes w) @ [made_box ids r w],
      wd_next := Suc (wd_next w), wd_events := wd_events w @ [start_msg (made_box ids r w)]\<rparr>"
    "world_ok ids (recreate_target ids t r w)" "guest_ref (made_box ids r w) = None"
proof -
  let ?w1 = "exec ids (CRemove (bx_ID t)) w"
  have w1: "?w1 = w\<lparr>wd_boxes := filter (\<lambda>x. bx_ID x \<noteq> bx_ID t) (wd_boxes w)\<rparr>" by simp
  have free: "bx_Name t \<notin> bx_Name ` set (wd_boxes ?w1)" using same_box(2) [OF assms(2) _ assms(3)] by auto
  have ok1: "world_ok ids ?w1" by (rule world_ok_exec [OF assms(1,2)]) (simp add: well_named_def)
  have "netns_guest (hc_NetworkMode (cr_HostConfig r)) (cr_Config r)"
    using r(2) by (simp add: netns_guest_def cut_prefix_def split: if_splits)
  then have made: "made ids r ?w1 = Some (made_box ids r w)"
    using free r by (simp add: made_def made_box_def Let_def del: exec.simps) (simp add: w1)
  let ?w2 = "?w1\<lparr>wd_boxes := wd_boxes ?w1 @ [made_box ids r w], wd_next := Suc (wd_next w)\<rparr>"
  have w2: "exec ids (CCreate r) ?w1 = ?w2" using made by (simp add: w1)
  have name: "name_ok ids (cr_Name r)" using assms(2,3) r(1) by (simp add: world_ok_def)
  have ok2: "world_ok ids ?w2" unfolding w2 [symmetric] by (rule world_ok_exec [OF assms(1) ok1]) (simp add: well_named_def name)
  show g: "guest_ref (made_box ids r w) = None" by (simp add: guest_ref_def made_box_def r)
  have "box_at (ids (wd_next w)) ?w2 = Some (made_box ids r w)"
    using ok2 by (simp add: box_at_iff world_ok_def made_box_def)
  then have w3: "exec ids (CStart (ids (wd_next w))) ?w2 = ?w2\<lparr>wd_events := wd_events w @ [start_msg (made_box ids r w)]\<rparr>"
    using g by (simp add: started_def startable_def)
  show eq: "recreate_target ids t r w = w\<lparr>wd_boxes := filter (\<lambda>x. bx_ID x \<noteq> bx_ID t) (wd_boxes w) @ [made_box ids r w],
      wd_next := Suc (wd_next w), wd_events := wd_events w @ [start_msg (made_box ids r w)]\<rparr>"
    unfolding recreate_target_def exec_all_simps w2 w3 by simp
  show "world_ok ids (recreate_target ids t r w)" using ok2 unfolding eq by (simp add: world_ok_def)
qed

lemma target_lost:
  assumes ids: "id_source ids" and s: "whole ids W w" and t: "t \<in> set (wd_boxes w)" "guest_ref t = None"
    and r: "cr_Name r = bx_Name t" "cut_prefix (hc_NetworkMode (cr_HostConfig r)) ''container:'' = None"
  shows "mending ids (bx_ID t) (bx_Name t) (lookupAnchors W (bx_Name t)) W ((recreate_target ids t r w)\<lparr>wd_events := []\<rparr>)"
    "follows (bx_ID t) (bx_Name t) W (recreate_target ids t r w) A n \<longleftrightarrow> anchored W w A n"
    "n \<noteq> bx_Name t \<or> lookupAnchors W n = [] \<Longrightarrow> tracked_ids W (recreate_target ids t r w) n = set (pool_at (ww_pool W) n)"
proof -
  let ?w = "recreate_target ids t r w" and ?b = "made_box ids r w"
  have w: "world_ok ids w" "unused ids W w" and pool: "\<And>n. distinct (pool_at (ww_pool W) n) \<and> set (pool_at (ww_pool W) n) = tracked_ids W w n"
    and guests: "\<And>x. x \<in> set (wd_boxes w) \<Longrightarrow> own W x \<Longrightarrow> \<exists>n. bound w x n"
    using s by (auto simp: whole_def pool_is_def)
  note rt = recreate_target_world [OF ids w(1) t(1) r]
  have boxes: "x \<in> set (wd_boxes ?w) \<longleftrightarrow> x \<in> set (wd_boxes w) \<and> x \<noteq> t \<or> x = ?b" for x
    using same_box(1) [OF w(1) _ t(1), of x] by (auto simp: rt(1))
  have next': "wd_next ?w = Suc (wd_next w)" by (simp add: rt(1))
  have b: "bx_ID ?b = ids (wd_next w)" "bx_Name ?b = bx_Name t" by (simp_all add: made_box_def r)
  have new: "bx_ID x \<noteq> ids (wd_next w)" "guest_ref x \<noteq> Some (ids (wd_next w))" if "x \<in> set (wd_boxes w)" for x
    using used_id [OF ids w(1) that] by auto
  have tid: "bx_ID t \<in> ids ` {..<wd_next w}" using w(1) t(1) by (simp add: world_ok_def)
  have gone: "bx_ID t \<notin> bx_ID ` set (wd_boxes ?w)"
    using same_box(1) [OF w(1) _ t(1)] new(1) [OF t(1)] by (auto simp: boxes b)
  have bound: "bound ?w x n \<longleftrightarrow> bound w x n \<and> guest_ref x \<noteq> Some (bx_ID t)" if x: "x \<in> set (wd_boxes w)" for x n
  proof
    assume "bound ?w x n"
    then show "bound w x n \<and> guest_ref x \<noteq> Some (bx_ID t)" using new(2) [OF x] gone b(1) by (auto simp: bound_def boxes)
  qed (auto simp: bound_def boxes)
  have to_t: "guest_ref x = Some (bx_ID t) \<longleftrightarrow> bound w x (bx_Name t)" if "x \<in> set (wd_boxes w)" for x
  proof -
    have "u = t" if "u \<in> set (wd_boxes w)" "bx_Name u = bx_Name t" for u using same_box(2) [OF w(1) that(1) t(1)] that(2) by simp
    then show ?thesis unfolding bound_def using t by metis
  qed
  have ownx: "own W x \<Longrightarrow> x \<noteq> t" "\<not> own W ?b" for x using t(2) rt(3) by (auto simp: own_def)
  have inT: "bound w x (bx_Name t) \<Longrightarrow> bound w x n \<longleftrightarrow> n = bx_Name t" for x n
    by (auto simp: bound_def) (metis same_box(1) [OF w(1)])
  have as: "bx_ID x \<in> set (lookupAnchors W n) \<longleftrightarrow> bound w x n" if "x \<in> set (wd_boxes w)" "own W x" for x n
  proof -
    have "y = x" if "y \<in> set (wd_boxes w)" "bx_ID x = bx_ID y" for y using same_box(1) [OF w(1) that(1) \<open>x \<in> set (wd_boxes w)\<close>] that(2) by simp
    then have "bx_ID x \<in> tracked_ids W w n \<longleftrightarrow> bound w x n" unfolding tracked_ids_def using that by blast
    then show ?thesis using pool [of n] by (simp add: lookupAnchors_pool)
  qed
  have "unused ids W ?w"
  proof -
    have "ids k \<in> bx_ID ` set (wd_boxes w) \<or> wd_next w \<le> k" if "ids k \<in> bx_ID ` set (wd_boxes ?w)" for k
      using that by (auto simp: boxes b id_inj [OF ids])
    then show ?thesis using w(2) unfolding unused_def next' by (meson Suc_leD)
  qed
  moreover have "if bx_ID x \<in> set (lookupAnchors W (bx_Name t)) then guest_ref x = Some (bx_ID t) else \<exists>n. bound ?w x n"
    if "x \<in> set (wd_boxes ?w)" "own W x" for x
  proof -
    have x: "x \<in> set (wd_boxes w)" using that ownx(2) by (auto simp: boxes)
    show ?thesis using as [OF x that(2), of "bx_Name t"] to_t [OF x] bound [OF x] guests [OF x that(2)] by auto
  qed
  moreover have "\<exists>x \<in> set (wd_boxes ?w). bx_ID x = a \<and> own W x" if "a \<in> set (lookupAnchors W n)" for a n
    using that pool [of n] ownx(1) unfolding lookupAnchors_pool tracked_ids_def by (auto simp: boxes)
  moreover have "\<exists>u \<in> set (wd_boxes ?w). bx_Name u = n \<and> guest_ref u = None" if "pool_at (ww_pool W) n \<noteq> []" for n
  proof -
    have "tracked_ids W w n \<noteq> {}" using that pool [of n] by (metis set_empty)
    then obtain u where "u \<in> set (wd_boxes w)" "bx_Name u = n" "guest_ref u = None" by (auto simp: tracked_ids_def bound_def)
    then show ?thesis using rt(3) b(2) by (cases "u = t") (auto simp: boxes)
  qed
  moreover have "\<exists>u \<in> set (wd_boxes ?w). bx_Name u = bx_Name t \<and> guest_ref u = None" using rt(3) b(2) by (auto simp: boxes)
  moreover have "bx_ID t \<in> ids ` {..<Suc (wd_next w)}" using tid by auto
  moreover have "distinct (lookupAnchors W (bx_Name t))" using pool by (simp add: lookupAnchors_pool)
  ultimately show "mending ids (bx_ID t) (bx_Name t) (lookupAnchors W (bx_Name t)) W (?w\<lparr>wd_events := []\<rparr>)"
    using rt(2) gone by (simp add: mending_def next' world_ok_def unused_def)
  show "follows (bx_ID t) (bx_Name t) W ?w A n \<longleftrightarrow> anchored W w A n"
  proof
    assume "follows (bx_ID t) (bx_Name t) W ?w A n"
    then obtain x where x: "x \<in> set (wd_boxes ?w)" "own W x" "bx_Name x = A" "linked (bx_ID t) (bx_Name t) ?w x n" by (auto simp: follows_def)
    then have "x \<in> set (wd_boxes w)" using ownx(2) by (auto simp: boxes)
    then show "anchored W w A n" using x to_t bound by (auto simp: anchored_def linked_def)
  next
    assume "anchored W w A n"
    then obtain x where x: "x \<in> set (wd_boxes w)" "own W x" "bx_Name x = A" "bound w x n" by (auto simp: anchored_def)
    then have "linked (bx_ID t) (bx_Name t) ?w x n" using to_t bound inT by (auto simp: linked_def)
    then show "follows (bx_ID t) (bx_Name t) W ?w A n" using x ownx(1) by (auto simp: follows_def boxes)
  qed
  assume n: "n \<noteq> bx_Name t \<or> lookupAnchors W n = []"
  have "own W x \<and> bound ?w x n \<and> x \<in> set (wd_boxes ?w) \<longleftrightarrow> own W x \<and> bound w x n \<and> x \<in> set (wd_boxes w)" for x
  proof (cases "x \<in> set (wd_boxes w) \<and> own W x")
    case True
    then show ?thesis using bound [of x] to_t [of x] inT [of x n] n as [of x n] ownx(1) by (auto simp: boxes)
  qed (use ownx(2) in \<open>auto simp: boxes\<close>)
  then have "tracked_ids W ?w n = tracked_ids W w n" unfolding tracked_ids_def by blast
  then show "tracked_ids W ?w n = set (pool_at (ww_pool W) n)" using pool [of n] by simp
qed

lemma handle_first:
  assumes "id_source ids" "whole ids W w" "wd_events w = []" "t \<in> set (wd_boxes w)" "guest_ref t = None"
    and "cr_Name r = bx_Name t" "cut_prefix (hc_NetworkMode (cr_HostConfig r)) ''container:'' = None"
    and s: "handle_event ids (W, recreate_target ids t r w) = s"
  shows "nearly ids (bx_ID t) (bx_Name t) s \<and> length (wd_events (snd s)) = length (lookupAnchors W (bx_Name t))
    \<and> (\<forall>A n. follows (bx_ID t) (bx_Name t) (fst s) (snd s) A n \<longleftrightarrow> anchored W w A n)"
proof -
  let ?w = "recreate_target ids t r w" and ?as = "lookupAnchors W (bx_Name t)" and ?b = "made_box ids r w"
  let ?v = "?w\<lparr>wd_events := []\<rparr>" and ?follows = "follows (bx_ID t) (bx_Name t)"
  let ?D = "calm_docker ids ?v"
  have ok: "world_ok ids w" using assms(2) by (simp add: whole_def)
  note lost = target_lost [OF assms(1,2,4-7)]
  note rt = recreate_target_world [OF assms(1) ok assms(4,6,7)]
  have ev: "wd_events ?w = [start_msg ?b]" "bx_Name ?b = bx_Name t"
    by (simp add: rt(1) assms(3)) (simp add: made_box_def assms(6))
  have m0: "mending ids (bx_ID t) (bx_Name t) ?as W (exec_all ids [] ?v)" using lost(1) by simp
  obtain W1 h1 where run: "recreate_anchors ?D (bx_Name t) ?as (W, []) = (W1, h1)" by (cases "recreate_anchors ?D (bx_Name t) ?as (W, [])")
  from mend_all [OF assms(1) m0 run] obtain f where m: "mending ids (bx_ID t) (bx_Name t) [] W1 (exec_all ids h1 ?v)"
    "\<And>A n. ?follows W1 (exec_all ids h1 ?v) A n \<longleftrightarrow> anchored W w A n" "W1 = W\<lparr>lastRestartedAt := f\<rparr>"
    "length (wd_events (exec_all ids h1 ?v)) = length ?as"
    by (auto simp: lost(2))
  let ?mine = "str_index (map_of (cc_Labels (bx_Config ?b))) ''com.docker.compose.project'' = wr_SelfProject (ww_cfg W)"
  have s1: "s = (let s1 = if ?mine then enumerateTargetPool ?D (W1, h1) else (W1, h1) in (fst s1, exec_all ids (snd s1) ?v))"
    unfolding s [symmetric] handle_event_def prod.case ev(1) list.case Let_def start_event ev(2) fst_conv run ..
  show ?thesis
  proof (cases ?mine)
    case True
    from mending_enumerate [OF assms(1) m(1)] obtain p where
      "enumerateTargetPool ?D (W1, h1) = (W1\<lparr>ww_pool := p\<rparr>, h1 @ [CList])"
      "pool_is (W1\<lparr>ww_pool := p\<rparr>) (tracked_ids W1 (exec_all ids h1 ?v))"
      "mending ids (bx_ID t) (bx_Name t) [] (W1\<lparr>ww_pool := p\<rparr>) (exec_all ids h1 ?v)" by blast
    with True m(2,4) show ?thesis by (simp add: s1 nearly_def)
  next
    case False
    then have s2: "s = (W1, exec_all ids h1 ?v)" by (simp add: s1)
    have "pool_is W1 (tracked_ids W1 (exec_all ids h1 ?v))" if "wd_events (exec_all ids h1 ?v) = []"
    proof -
      have none: "?as = []" using that m(4) by simp
      then have same: "W1 = W" "h1 = []" using run by simp_all
      have "distinct (pool_at (ww_pool W) n)" for n using assms(2) by (simp add: whole_def pool_is_def)
      moreover have "set (pool_at (ww_pool W) n) = tracked_ids W ?w n" for n using lost(3) [of n] none by (cases "n = bx_Name t") simp_all
      ultimately show ?thesis by (simp add: same pool_is_def)
    qed
    with m(1,2,4) show ?thesis by (simp add: s2 nearly_def)
  qed
qed

text \<open>C6. A target that is recreated gets its anchors back. Suppose every anchor of the watcher's project is bound to a container that
  exists and is tracked under its name. When others remove a container that anchors are bound to, create it again under its name, in any
  project, and start it, and the watcher is then left alone until it has handled that event and the events of the anchors
  that it recreates in answer, then every anchor is bound to the container of the same name as before, the new one for those
  that had lost theirs, and is tracked under it again, so that the same holds for the next target.\<close>

theorem wrap_stack_heals:
  assumes "id_source ids" "whole ids W w" "wd_events w = []" "t \<in> set (wd_boxes w)" "guest_ref t = None"
    and "cr_Name r = bx_Name t" "cut_prefix (hc_NetworkMode (cr_HostConfig r)) ''container:'' = None"
    and "Suc (length (lookupAnchors W (bx_Name t))) \<le> k" "(handle_event ids ^^ k) (W, recreate_target ids t r w) = (W', w')"
  shows "wd_events w' = [] \<and> whole ids W' w' \<and> (\<forall>A n. anchored W' w' A n \<longleftrightarrow> anchored W w A n)"
proof -
  obtain j where k: "k = Suc j" "length (lookupAnchors W (bx_Name t)) \<le> j" using assms(8) by (cases k) auto
  obtain s where s: "handle_event ids (W, recreate_target ids t r w) = s" by blast
  note one = handle_first [OF assms(1-7) s]
  have run: "(handle_event ids ^^ j) s = (W', w')" using assms(9) by (simp add: k funpow_Suc_right s del: funpow.simps)
  have "nearly ids (bx_ID t) (bx_Name t) (W', w') \<and> wd_events w' = []
    \<and> follows (bx_ID t) (bx_Name t) W' w' = follows (bx_ID t) (bx_Name t) (fst s) (snd s)"
    using handle_rest [OF assms(1), of "bx_ID t" "bx_Name t" s j] one k(2) by (simp add: run)
  then have end': "mending ids (bx_ID t) (bx_Name t) [] W' w'" "pool_is W' (tracked_ids W' w')" "wd_events w' = []"
      "\<And>A n. follows (bx_ID t) (bx_Name t) W' w' A n \<longleftrightarrow> anchored W w A n"
    using one by (auto simp: nearly_def)
  then have "whole ids W' w'" by (simp add: whole_def mending_def)
  moreover have "linked (bx_ID t) (bx_Name t) w' b n \<longleftrightarrow> bound w' b n" if "b \<in> set (wd_boxes w')" "own W' b" for b n
  proof -
    have "\<exists>m. bound w' b m" using end'(1) that by (simp add: mending_def)
    then have "guest_ref b \<noteq> Some (bx_ID t)" using end'(1) by (auto simp: mending_def bound_def)
    then show ?thesis by (simp add: linked_def)
  qed
  then have "follows (bx_ID t) (bx_Name t) W' w' A n \<longleftrightarrow> anchored W' w' A n" for A n by (auto simp: follows_def anchored_def)
  ultimately show ?thesis using end'(3,4) by simp
qed

end
