(* ===== verification/WrapIncident.thy ===== *)
theory WrapIncident
  imports WrapHealing
begin

section \<open>An incident with two targets\<close>

text \<open>
  The incident of \<open>src/SPEC-WRAP-REBINDER-DRAFT.md\<close> on the watcher of \<open>src/internal/wraprebinder/wraprebinder.go\<close>: the targets of
  a wrapped stack are all removed and then created and started one after the other. \<open>two_targets_lose_an_anchor\<close> shows
  for every stack that the anchor of a target which is still gone when the first is back is lost for good. (A target
  that is only stopped and started again keeps its ID and stays in the list, so its anchor stays in
  the pool.) A small stack is the instance on which the properties of the theories \<open>WrapSystem\<close> and
  \<open>WrapHealing\<close> are applied.
\<close>

subsection \<open>Two targets\<close>

lemma run_others:
  "wrap_run ids P s0 (W, w) \<Longrightarrow> \<forall>c \<in> set cs. P c \<Longrightarrow> wrap_run ids P s0 (W, exec_all ids cs w)"
  by (induction cs arbitrary: w) (auto intro: wrap_run.run_step wrap_step.others)

lemma run_events: "wrap_run ids P s0 s \<Longrightarrow> wrap_run ids P s0 ((handle_event ids ^^ k) s)"
proof (induction k)
  case (Suc k)
  then show ?case
    using wrap_run.run_step handle_event_step [of ids P "fst ((handle_event ids ^^ k) s)" "snd ((handle_event ids ^^ k) s)"] by fastforce
qed simp

text \<open>Calls add to the events and to nothing before them.\<close>

lemma events_grow: "\<exists>more. wd_events (exec_all ids cs w) = wd_events w @ more"
proof (induction cs arbitrary: w)
  case (Cons c cs)
  have "\<exists>new. wd_events (exec ids c w) = wd_events w @ new" by (cases c) (auto simp: started_def split: option.split)
  then show ?case using Cons [of "exec ids c w"] by fastforce
qed simp

lemma recreate_anchors_grows:
  "\<exists>f new. recreate_anchors D n as s = ((fst s)\<lparr>lastRestartedAt := f\<rparr>, snd s @ new)"
proof (induction "as" arbitrary: s)
  case Nil
  then show ?case by (intro exI [of _ "lastRestartedAt (fst s)"] exI [of _ "[]"]) (cases s, simp)
next
  case (Cons a as)
  have "\<exists>f new. recreateAnchor D a n s = ((fst s)\<lparr>lastRestartedAt := f\<rparr>, snd s @ new)"
  proof (cases "snd (recreateAnchor D a n s) = snd s")
    case True
    then show ?thesis
      by (intro exI [of _ "lastRestartedAt (fst (recreateAnchor D a n s))"] exI [of _ "[]"])
        (cases s, use True in \<open>auto simp: recreateAnchor_def Let_def\<close>)
  next
    case False
    then show ?thesis
      using Recreate_calls [of "wr_RestartTimeout (ww_cfg (fst s))" D a "''container:'' @ n" "snd s"]
      unfolding recreateAnchor_def Let_def by (cases s) (auto split: if_splits simp del: append_Cons)
  qed
  then obtain f new where "recreateAnchor D a n s = ((fst s)\<lparr>lastRestartedAt := f\<rparr>, snd s @ new)" by blast
  then show ?case using Cons [of "recreateAnchor D a n s"] by auto
qed

text \<open>The recreation of other anchors leaves a dangling one alone.\<close>

lemma dangling_recreations:
  assumes "id_source ids" "dangling ids b w" "bx_ID b \<notin> set as" "\<forall>c \<in> set (snd s). spares ids (bx_ID b) c"
  shows "\<forall>c \<in> set (snd (recreate_anchors (calm_docker ids w) n as s)). spares ids (bx_ID b) c"
  using assms(3,4)
proof (induction "as" arbitrary: s)
  case (Cons a as)
  obtain W h where s: "s = (W, h)" by (cases s)
  have "dangling ids b (exec_all ids h w)" using dangling_all [OF assms(1,2)] Cons.prems(2) by (simp add: s)
  then have ok: "world_ok ids (state_at ids (\<lambda>_. []) (\<lambda>_. False) w h)" by (simp add: dangling_def)
  have "\<forall>c \<in> set (snd (wr_Recreate t (calm_docker ids w) a mode h)). spares ids (bx_ID b) c" for t mode
    unfolding calm_docker_def by (rule Recreate_spares [OF assms(1)]) (use ok Cons.prems in \<open>auto simp: s\<close>)
  then have "\<forall>c \<in> set (snd (recreateAnchor (calm_docker ids w) a n s)). spares ids (bx_ID b) c"
    using Cons.prems(2) by (simp add: s recreateAnchor_def Let_def)
  with Cons show ?case by simp
qed simp

text \<open>The start of a container of the project, handled while an anchor dangles, takes the anchor from the pool.\<close>

lemma own_start_orphans:
  assumes "id_source ids" "dangling ids b w" "wd_events w = start_msg x # ms" "bx_ID b \<notin> set (lookupAnchors W (bx_Name x))"
    and "str_index (map_of (cc_Labels (bx_Config x))) ''com.docker.compose.project'' = wr_SelfProject (ww_cfg W)"
  shows "orphaned ids b (handle_event ids (W, w))"
proof -
  let ?w = "w\<lparr>wd_events := ms\<rparr>"
  let ?D = "calm_docker ids ?w"
  have d: "dangling ids b ?w" using assms(2) by (simp add: dangling_def world_ok_def)
  obtain W1 h1 where r: "recreate_anchors ?D (bx_Name x) (lookupAnchors W (bx_Name x)) (W, []) = (W1, h1)"
    by (cases "recreate_anchors ?D (bx_Name x) (lookupAnchors W (bx_Name x)) (W, [])")
  have h1: "\<forall>c \<in> set h1. spares ids (bx_ID b) c"
    using dangling_recreations [OF assms(1) d assms(4), of "(W, [])" "bx_Name x"] r by simp
  let ?p = "fst (buildTargetPool (infos (exec_all ids h1 ?w)) (wr_SelfProject (ww_cfg W1)) (ww_selfID W1))"
  have e: "enumerateTargetPool ?D (W1\<lparr>ww_pool := q\<rparr>, h1) = (W1\<lparr>ww_pool := ?p\<rparr>, h1 @ [CList])" for q
    by (simp add: enumerateTargetPool_def wr_ContainerList_def calm_docker_def infos_def comp_def split: prod.split)
  have d1: "dangling ids b (state_at ids (\<lambda>_. []) (\<lambda>_. False) ?w h1)" using dangling_all [OF assms(1) d h1] by simp
  have "untracked (bx_ID b) (ww_pool (fst (enumerateTargetPool (docker ids (\<lambda>_. []) (\<lambda>_. False) ?w) (W1\<lparr>ww_pool := []\<rparr>, h1))))"
    by (rule enumerate_untracked [OF assms(1)]) (use d1 in \<open>simp_all add: untracked_def\<close>)
  then have p: "untracked (bx_ID b) ?p" using e [of "[]"] by (simp add: calm_docker_def)
  have "handle_event ids (W, w) = (W1\<lparr>ww_pool := ?p\<rparr>, exec_all ids (h1 @ [CList]) ?w)"
    unfolding handle_event_def prod.case assms(3) list.case Let_def start_event fst_conv r
    using assms(5) e [of "ww_pool W1"] by simp
  moreover have "dangling ids b (exec_all ids (h1 @ [CList]) ?w)" by (rule dangling_all [OF assms(1) d]) (use h1 in simp)
  ultimately show ?thesis using p by (simp add: orphaned_def)
qed

text \<open>While everything is whole, an anchor is tracked under the name of its target only.\<close>

lemma whole_tracked:
  assumes "whole ids W w" "b \<in> set (wd_boxes w)" "t \<in> set (wd_boxes w)" "guest_ref b = Some (bx_ID t)"
    and "bx_ID b \<in> set (lookupAnchors W n)"
  shows "n = bx_Name t"
proof -
  have ok: "world_ok ids w" using assms(1) by (simp add: whole_def)
  obtain x u where x: "x \<in> set (wd_boxes w)" "bx_ID x = bx_ID b" and u: "u \<in> set (wd_boxes w)" "guest_ref x = Some (bx_ID u)" "bx_Name u = n"
    using assms(1,5) by (auto simp: whole_def pool_is_def tracked_ids_def bound_def lookupAnchors_pool)
  have "x = b" using same_box(1) [OF ok x(1) assms(2)] x(2) by blast
  then have "u = t" using same_box(1) [OF ok u(1) assms(3)] u(2) assms(4) by simp
  then show ?thesis using u(3) by simp
qed

text \<open>The first event, of a target of another project: the first anchor that is recreated starts next.\<close>

lemma foreign_start:
  assumes ids: "id_source ids" and d: "dangling ids b w" and ok: "wd_events w = [start_msg t]" "t \<in> set (wd_boxes w)" "guest_ref t = None"
    and as: "lookupAnchors W (bx_Name t) = bx_ID x # as" "x \<in> set (wd_boxes w)" "guest_ref x \<noteq> None"
    and free: "lastRestartedAt W (dedup_key (bx_Name t) (bx_ID x)) = None" "bx_ID b \<notin> set (lookupAnchors W (bx_Name t))"
    and other: "str_index (map_of (cc_Labels (bx_Config t))) ''com.docker.compose.project'' \<noteq> wr_SelfProject (ww_cfg W)"
  obtains f w' y ms where "handle_event ids (W, w) = (W\<lparr>lastRestartedAt := f\<rparr>, w')" "dangling ids b w'" "wd_events w' = start_msg y # ms"
    "bx_Name y = bx_Name x" "cc_Labels (bx_Config y) = cc_Labels (bx_Config x)"
proof -
  let ?w = "w\<lparr>wd_events := []\<rparr>"
  let ?D = "calm_docker ids ?w"
  have dw: "dangling ids b ?w" using d by (simp add: dangling_def world_ok_def)
  then have okw: "world_ok ids (exec_all ids [] ?w)" by (simp add: dangling_def)
  have tx: "t \<noteq> x" using ok(3) as(3) by auto
  let ?h = "snd (wr_Recreate (wr_RestartTimeout (ww_cfg W)) ?D (bx_ID x) (container_mode (bx_Name t)) [])"
  let ?y = "renewed_box ids (bx_ID t) x ?w"
  have ren: "exec_all ids ?h ?w = renew ids (bx_ID t) x ?w"
    using Recreate_renews [OF ids okw, of x t "wr_RestartTimeout (ww_cfg W)"] as(2) ok(2) tx by simp
  obtain g where one: "recreateAnchor ?D (bx_ID x) (bx_Name t) (W, []) = (W\<lparr>lastRestartedAt := g\<rparr>, ?h)"
    using free(1) by (simp add: recreateAnchor_def Let_def container_mode_def)
  obtain f new where all: "recreate_anchors ?D (bx_Name t) (lookupAnchors W (bx_Name t)) (W, []) = (W\<lparr>lastRestartedAt := f\<rparr>, ?h @ new)"
    using recreate_anchors_grows [of ?D "bx_Name t" "as" "(W\<lparr>lastRestartedAt := g\<rparr>, ?h)"] by (auto simp: as(1) one)
  have "\<forall>c \<in> set (?h @ new). spares ids (bx_ID b) c"
    using dangling_recreations [OF ids dw free(2), of "(W, [])" "bx_Name t"] all by simp
  then have "dangling ids b (exec_all ids (?h @ new) ?w)" by (rule dangling_all [OF ids dw])
  moreover obtain ms where "wd_events (exec_all ids (?h @ new) ?w) = start_msg ?y # ms"
    using events_grow [of ids new "renew ids (bx_ID t) x ?w"] by (auto simp: ren renew_def)
  moreover have "handle_event ids (W, w) = (W\<lparr>lastRestartedAt := f\<rparr>, exec_all ids (?h @ new) ?w)"
    unfolding handle_event_def prod.case ok(1) list.case Let_def start_event fst_conv all using other by simp
  ultimately show thesis using that [of f _ ?y] by simp
qed

text \<open>When both have gone and the first has come back, at most two events later the anchor of the second is an orphan.\<close>

lemma second_target_orphaned:
  assumes "id_source ids" "whole ids W w" "wd_events w = []"
    and "t1 \<in> set (wd_boxes w)" "guest_ref t1 = None" "t2 \<in> set (wd_boxes w)" "guest_ref t2 = None" "t1 \<noteq> t2"
    and "b1 \<in> set (wd_boxes w)" "own W b1" "guest_ref b1 = Some (bx_ID t1)"
    and "b2 \<in> set (wd_boxes w)" "own W b2" "guest_ref b2 = Some (bx_ID t2)"
    and "cr_Name r = bx_Name t1" "cut_prefix (hc_NetworkMode (cr_HostConfig r)) ''container:'' = None"
  shows "\<exists>j \<le> 2. orphaned ids b2 ((handle_event ids ^^ j) (W, recreate_target ids t1 r (exec ids (CRemove (bx_ID t2)) w)))"
proof -
  let ?v = "exec ids (CRemove (bx_ID t2)) w" and ?t = "made_box ids r w"
  let ?u = "recreate_target ids t1 r ?v"
  have ok: "world_ok ids w" using assms(2) by (simp add: whole_def)
  have okv: "world_ok ids ?v" by (rule world_ok_exec [OF assms(1) ok]) (simp add: well_named_def)
  have v: "x \<in> set (wd_boxes ?v) \<longleftrightarrow> x \<in> set (wd_boxes w) \<and> x \<noteq> t2" for x using same_box(1) [OF ok _ assms(6), of x] by auto
  have guests: "b2 \<noteq> t1" "b2 \<noteq> t2" using assms(5,7,14) by auto
  have t1: "t1 \<in> set (wd_boxes ?v)" using assms(4,8) v by blast
  have made: "made_box ids r ?v = ?t" by (simp add: made_box_def)
  note rt = recreate_target_world [OF assms(1) okv t1 assms(15,16), unfolded made]
  have u: "x \<in> set (wd_boxes ?u) \<longleftrightarrow> x \<in> set (wd_boxes w) \<and> x \<noteq> t1 \<and> x \<noteq> t2 \<or> x = ?t" for x
  proof -
    have "x \<in> set (wd_boxes ?u) \<longleftrightarrow> x \<in> set (wd_boxes ?v) \<and> bx_ID x \<noteq> bx_ID t1 \<or> x = ?t" by (auto simp: rt(1) simp del: exec.simps)
    then show ?thesis using v same_box(1) [OF ok _ assms(4), of x] by blast
  qed
  have events: "wd_events ?u = [start_msg ?t]" unfolding rt(1) by (simp add: assms(3))
  have "bx_ID t2 \<notin> bx_ID ` set (wd_boxes ?v)" by auto
  then have dv: "dangling ids b2 ?v" unfolding dangling_def using okv assms(12,14) guests(2) v by blast
  have "bx_ID t1 \<noteq> bx_ID b2" using same_box(1) [OF ok assms(4,12)] guests(1) by blast
  moreover have "name_ok ids (cr_Name r)" using ok assms(4,15) by (simp add: world_ok_def)
  ultimately have dang: "dangling ids b2 ?u"
    unfolding recreate_target_def by (intro dangling_all [OF assms(1) dv]) simp
  have only: "bx_ID b2 \<in> set (lookupAnchors W n) \<Longrightarrow> n = bx_Name t2" for n
    by (rule whole_tracked [OF assms(2,12,6,14)])
  have name: "bx_Name ?t = bx_Name t1" by (simp add: made_box_def assms(15))
  have no2: "bx_ID b2 \<notin> set (lookupAnchors W (bx_Name x))" if "x \<in> set (wd_boxes w)" "x \<noteq> t2" for x
    using only [of "bx_Name x"] same_box(2) [OF ok that(1) assms(6)] that(2) by blast
  show ?thesis
  proof (cases "str_index (map_of (cc_Labels (bx_Config ?t))) ''com.docker.compose.project'' = wr_SelfProject (ww_cfg W)")
    case True
    have "orphaned ids b2 (handle_event ids (W, ?u))"
      by (rule own_start_orphans [OF assms(1) dang events _ True]) (use no2 [OF assms(4,8)] in \<open>simp add: name\<close>)
    then show ?thesis by (intro exI [of _ 1]) simp
  next
    case False
    have pool: "set (lookupAnchors W n) = tracked_ids W w n" for n using assms(2) by (simp add: whole_def pool_is_def lookupAnchors_pool)
    have "bx_ID b1 \<in> set (lookupAnchors W (bx_Name t1))"
      unfolding pool tracked_ids_def bound_def using assms(4,5,9-11) by blast
    then obtain a "as" where as: "lookupAnchors W (bx_Name t1) = a # as" by (cases "lookupAnchors W (bx_Name t1)") auto
    then have "a \<in> tracked_ids W w (bx_Name t1)" using pool by (metis list.set_intros(1))
    then obtain x where x: "a = bx_ID x" "x \<in> set (wd_boxes w)" "own W x" by (auto simp: tracked_ids_def)
    have xg: "guest_ref x \<noteq> None" "x \<noteq> t1" "x \<noteq> t2" using x(3) assms(5,7) by (auto simp: own_def)
    have "lastRestartedAt W (dedup_key (bx_Name t1) (bx_ID x)) = None"
    proof -
      obtain j where "bx_ID x = ids j" using ok x(2) by (auto simp: world_ok_def)
      then show ?thesis using assms(2) x(2) unfolding whole_def unused_def by (metis imageI)
    qed
    then obtain f w' y ms where one: "handle_event ids (W, ?u) = (W\<lparr>lastRestartedAt := f\<rparr>, w')" "dangling ids b2 w'"
      "wd_events w' = start_msg y # ms" "bx_Name y = bx_Name x" "cc_Labels (bx_Config y) = cc_Labels (bx_Config x)"
      using foreign_start [OF assms(1) dang events _ rt(3) _ _ xg(1) _ _ False, of "as"] as x u xg no2 [OF assms(4,8)]
      by (metis name)
    have "orphaned ids b2 (handle_event ids (W\<lparr>lastRestartedAt := f\<rparr>, w'))"
    proof (rule own_start_orphans [OF assms(1) one(2,3)])
      show "bx_ID b2 \<notin> set (lookupAnchors (W\<lparr>lastRestartedAt := f\<rparr>) (bx_Name y))"
        using no2 [OF x(2) xg(3)] by (simp add: one(4) lookupAnchors_def)
      show "str_index (map_of (cc_Labels (bx_Config y))) ''com.docker.compose.project'' = wr_SelfProject (ww_cfg (W\<lparr>lastRestartedAt := f\<rparr>))"
        using x(3) by (simp add: one(5) own_def own_sibling_def)
    qed
    then show ?thesis by (intro exI [of _ 2]) (simp add: numeral_2_eq_2 one(1) del: exec.simps)
  qed
qed

text \<open>C8. The incident that the watcher was written for loses an anchor. Take a wrapped stack in which every anchor of the project
  is bound to a container that exists and is tracked under its name, and two targets with an anchor each. When
  others remove both targets and then create and start the first again, and the watcher handles that event and at least one more,
  the anchor of the second target is lost: whatever happens from then on, the second target's creation and start and any
  number of polls included, as long as nobody else removes that anchor, it remains bound to the
  container that was removed, and is in no entry of the pool. The first anchor that is recreated is itself
  a start of the project, for which the pool is rebuilt while the second target does not exist.\<close>

theorem two_targets_lose_an_anchor:
  assumes "id_source ids" "whole ids W w" "wd_events w = []"
    and "t1 \<in> set (wd_boxes w)" "guest_ref t1 = None" "t2 \<in> set (wd_boxes w)" "guest_ref t2 = None" "t1 \<noteq> t2"
    and "b1 \<in> set (wd_boxes w)" "own W b1" "guest_ref b1 = Some (bx_ID t1)"
    and "b2 \<in> set (wd_boxes w)" "own W b2" "guest_ref b2 = Some (bx_ID t2)"
    and "cr_Name r = bx_Name t1" "cut_prefix (hc_NetworkMode (cr_HostConfig r)) ''container:'' = None"
    and "(handle_event ids ^^ Suc (Suc k)) (W, recreate_target ids t1 r (exec ids (CRemove (bx_ID t2)) w)) = s"
    and "wrap_run ids (spares ids (bx_ID b2)) s s'"
  shows "b2 \<in> set (wd_boxes (snd s')) \<and> guest_ref b2 = Some (bx_ID t2) \<and> box_at (bx_ID t2) (snd s') = None
    \<and> untracked (bx_ID b2) (ww_pool (fst s'))"
proof -
  let ?s = "(W, recreate_target ids t1 r (exec ids (CRemove (bx_ID t2)) w))"
  obtain j where j: "j \<le> 2" "orphaned ids b2 ((handle_event ids ^^ j) ?s)"
    using second_target_orphaned [OF assms(1-16)] by blast
  obtain i where "Suc (Suc k) = i + j" using j(1) by (metis add_2_eq_Suc' le_add2 le_add_diff_inverse2 order_trans)
  then have "s = (handle_event ids ^^ i) ((handle_event ids ^^ j) ?s)"
    using assms(17) by (simp only: funpow_add comp_apply)
  then have "orphaned ids b2 s" using run_events [OF wrap_run.run_nil] orphaned_run [OF assms(1)] j(2) by metis
  with orphaned_run [OF assms(1,18)] have "orphaned ids b2 s'" .
  then show ?thesis using assms(14) by (auto simp: orphaned_def dangling_def box_at_none)
qed

subsection \<open>The stack\<close>

text \<open>The incident of \<open>src/SPEC-WRAP-REBINDER-DRAFT.md\<close> with two of its targets: the wrapped project \<open>ix-mailcow\<close>, and an
  anchor for each target in the project \<open>wrap\<close>.\<close>

definition stack_id :: "nat \<Rightarrow> string" where
  "stack_id n = replicate 12 CHR ''0'' @ replicate n CHR ''a'' @ ''b''"

definition stack_config :: "string \<Rightarrow> ct_config" where
  "stack_config project = \<lparr>cc_Image = ''image'', cc_Env = [], cc_Labels = [(''com.docker.compose.project'', project)],
     cc_Hostname = [], cc_Domainname = [], cc_MacAddress = [], cc_ExposedPorts = [], cc_rest = []\<rparr>"

definition stack_host :: "string \<Rightarrow> host_config" where
  "stack_host mode = \<lparr>hc_NetworkMode = mode, hc_CapAdd = [], hc_Restart = [], hc_rest = []\<rparr>"

definition target_req :: "string \<Rightarrow> create_req" where
  "target_req n = \<lparr>cr_Config = stack_config ''ix-mailcow'', cr_HostConfig = stack_host ''bridge'', cr_Name = n\<rparr>"

definition target_box :: "nat \<Rightarrow> string \<Rightarrow> box" where
  "target_box k n = \<lparr>bx_ID = stack_id k, bx_Name = n, bx_Config = stack_config ''ix-mailcow'', bx_Host = stack_host ''bridge''\<rparr>"

definition anchor_box :: "nat \<Rightarrow> string \<Rightarrow> nat \<Rightarrow> box" where
  "anchor_box k n target = \<lparr>bx_ID = stack_id k, bx_Name = n, bx_Config = stack_config ''wrap'',
     bx_Host = stack_host (container_mode (stack_id target))\<rparr>"

definition stack_world :: world where
  "stack_world = \<lparr>wd_boxes = [target_box 2 ''nginx-mailcow'', target_box 3 ''dovecot-mailcow'',
     anchor_box 4 ''nginx-anchor'' 2, anchor_box 5 ''dovecot-anchor'' 3], wd_next = 6, wd_events = [], wd_clock = 0\<rparr>"

definition stack_watcher :: wr_watcher where
  "stack_watcher = \<lparr>ww_cfg = \<lparr>wr_SelfProject = ''wrap'', wr_PollInterval = 0, wr_RestartTimeout = 0,
       wr_DockerHost = [], wr_LogLevel = [], wr_MetricsAddr = []\<rparr>,
     ww_selfID = ''sidecar'', ww_pool = [(''nginx-mailcow'', [stack_id 4]), (''dovecot-mailcow'', [stack_id 5])],
     lastRestartedAt = Map.empty\<rparr>"

lemma stack_id_0: "stack_id k = CHR ''0'' # replicate 11 CHR ''0'' @ replicate k CHR ''a'' @ ''b''"
  by (simp add: stack_id_def numeral_eq_Suc)

lemma stack_ids: "id_source stack_id"
proof -
  have "m = n" if prefix: "has_prefix (stack_id m) (stack_id n)" for m n
  proof -
    obtain r where "stack_id m = stack_id n @ r" using prefix by (auto simp: has_prefix_iff)
    then have "replicate m CHR ''a'' @ ''b'' = replicate n CHR ''a'' @ ''b'' @ r" by (simp add: stack_id_def)
    then have "takeWhile (\<lambda>c. c = CHR ''a'') (replicate m CHR ''a'' @ ''b'') = takeWhile (\<lambda>c. c = CHR ''a'') (replicate n CHR ''a'' @ ''b'' @ r)" by simp
    then have "replicate m CHR ''a'' = replicate n CHR ''a''" by (simp add: takeWhile_append)
    then show ?thesis by (metis length_replicate)
  qed
  then show ?thesis by (auto simp: id_source_def stack_id_def list_all_iff plain_char_def)
qed

text \<open>A test of \<open>world_ok\<close> that computes, for names that do not begin with a zero.\<close>

definition stack_checked :: "world \<Rightarrow> bool" where
  "stack_checked w \<longleftrightarrow> distinct (map bx_ID (wd_boxes w)) \<and> distinct (map bx_Name (wd_boxes w))
     \<and> list_all (\<lambda>b. bx_Name b \<noteq> [] \<and> hd (bx_Name b) \<noteq> CHR ''0'' \<and> list_all (\<lambda>c. plain_char c \<and> c \<noteq> CHR ''/'') (bx_Name b)
          \<and> bx_ID b \<in> set (map stack_id [0..<wd_next w])
          \<and> (case guest_ref b of None \<Rightarrow> True | Some ref \<Rightarrow> ref \<in> set (map stack_id [0..<wd_next w]))) (wd_boxes w)"

lemma stack_ok: "stack_checked w \<Longrightarrow> world_ok stack_id w"
proof -
  assume c: "stack_checked w"
  have "\<not> has_prefix (stack_id k) n" if "n \<noteq> []" "hd n \<noteq> CHR ''0''" for k n
    using that by (cases n) (auto simp: has_prefix_def stack_id_0)
  then have "name_ok stack_id (bx_Name b)" if "b \<in> set (wd_boxes w)" for b
    using c that by (auto simp: stack_checked_def name_ok_def list_all_iff)
  then show ?thesis
    using c by (auto simp: stack_checked_def world_ok_def list_all_iff atLeast0LessThan)
qed

lemma stack_whole: "whole stack_id stack_watcher stack_world"
proof -
  let ?n = "target_box 2 ''nginx-mailcow''" and ?d = "target_box 3 ''dovecot-mailcow''"
  let ?a = "anchor_box 4 ''nginx-anchor'' 2" and ?e = "anchor_box 5 ''dovecot-anchor'' 3"
  have "stack_checked stack_world" by code_simp
  moreover have "unused stack_id stack_watcher stack_world"
    by (simp add: unused_def stack_watcher_def stack_id_0)
  moreover have own: "own stack_watcher ?a" "own stack_watcher ?e" "\<not> own stack_watcher ?n" "\<not> own stack_watcher ?d" by code_simp+
  have ref: "guest_ref ?a = Some (stack_id 2)" "guest_ref ?e = Some (stack_id 3)" "guest_ref ?n = None" "guest_ref ?d = None" by code_simp+
  have boxes: "set (wd_boxes stack_world) = {?n, ?d, ?a, ?e}" by (simp add: stack_world_def)
  have id: "bx_ID ?n = stack_id 2" "bx_ID ?d = stack_id 3" "bx_ID ?a = stack_id 4" "bx_ID ?e = stack_id 5"
    "bx_Name ?n = ''nginx-mailcow''" "bx_Name ?d = ''dovecot-mailcow''" by (simp_all add: target_box_def anchor_box_def)
  have bound: "bound stack_world ?a n \<longleftrightarrow> n = ''nginx-mailcow''" "bound stack_world ?e n \<longleftrightarrow> n = ''dovecot-mailcow''" for n
    unfolding bound_def boxes by (simp_all add: ref id id_inj [OF stack_ids] eq_commute)
  have "x \<in> tracked_ids stack_watcher stack_world n
      \<longleftrightarrow> (\<exists>b \<in> {?n, ?d, ?a, ?e}. own stack_watcher b \<and> bound stack_world b n \<and> x = bx_ID b)" for x n
    unfolding tracked_ids_def boxes by blast
  then have tracked: "x \<in> tracked_ids stack_watcher stack_world n
      \<longleftrightarrow> n = ''nginx-mailcow'' \<and> x = stack_id 4 \<or> n = ''dovecot-mailcow'' \<and> x = stack_id 5" for x n
    by (simp only: bex_simps ball_simps own bound id simp_thms)
  have "set (pool_at (ww_pool stack_watcher) n) = tracked_ids stack_watcher stack_world n \<and> distinct (pool_at (ww_pool stack_watcher) n)" for n
    unfolding set_eq_iff tracked by (simp add: pool_at_def stack_watcher_def)
  then have "pool_is stack_watcher (tracked_ids stack_watcher stack_world)" by (simp add: pool_is_def)
  ultimately show ?thesis using own(3,4) bound by (auto simp: whole_def boxes stack_ok)
qed

subsection \<open>Both targets go before the first comes back\<close>

definition dovecot_anchor :: box where
  "dovecot_anchor = anchor_box 5 ''dovecot-anchor'' 3"

text \<open>The targets are removed, and then one after the other created and started; the watcher handles the events
  at once.\<close>

definition first_back :: "wr_watcher \<times> world" where
  "first_back = (handle_event stack_id ^^ 2) (stack_watcher,
     recreate_target stack_id (target_box 2 ''nginx-mailcow'') (target_req ''nginx-mailcow'') (exec stack_id (CRemove (stack_id 3)) stack_world))"

definition both_back :: "wr_watcher \<times> world" where
  "both_back = handle_event stack_id
     (fst first_back, exec_all stack_id [CCreate (target_req ''dovecot-mailcow''), CStart (stack_id 8)] (snd first_back))"

lemma target_named: "n \<in> {''nginx-mailcow'', ''dovecot-mailcow''} \<Longrightarrow> well_named stack_id (CCreate (target_req n))"
  by (auto simp: well_named_def target_req_def name_ok_def plain_char_def has_prefix_def stack_id_0)

lemma both_back_run: "wrap_run stack_id (spares stack_id (bx_ID dovecot_anchor)) first_back both_back"
proof -
  have "wrap_run stack_id (spares stack_id (bx_ID dovecot_anchor)) first_back ((handle_event stack_id ^^ 1)
      (fst first_back, exec_all stack_id [CCreate (target_req ''dovecot-mailcow''), CStart (stack_id 8)] (snd first_back)))"
    by (intro run_events run_others) (use target_named [of "''dovecot-mailcow''"] in \<open>simp_all add: wrap_run.run_nil well_named_def\<close>)
  then show ?thesis by (simp add: both_back_def)
qed

lemma both_back_boxes: "wd_boxes (snd both_back) = [dovecot_anchor, target_box 6 ''nginx-mailcow'',
    anchor_box 7 ''nginx-anchor'' 6, target_box 8 ''dovecot-mailcow'']"
  by code_simp

lemma both_back_rest: "wd_events (snd both_back) = []" "ww_pool (fst both_back) = [(''nginx-mailcow'', [stack_id 7])]"
  "stack_checked (snd both_back)"
  by code_simp+

lemma both_back_orphan: "orphaned stack_id dovecot_anchor both_back"
proof -
  have "box_at (stack_id 3) (snd both_back) = None" unfolding box_at_def both_back_boxes by code_simp
  moreover have "guest_ref dovecot_anchor = Some (stack_id 3)" by code_simp
  moreover have "bx_ID dovecot_anchor \<noteq> stack_id 7" by code_simp
  ultimately show ?thesis
    using stack_ok [OF both_back_rest(3)]
    by (simp add: orphaned_def dangling_def both_back_boxes both_back_rest(2) untracked_def) (simp add: box_at_none both_back_boxes)
qed

text \<open>Both targets are there again and no event is left, and the anchor of the second is lost.\<close>

theorem two_targets_lose_an_anchor_witness:
  "wd_events (snd both_back) = [] \<and> {''nginx-mailcow'', ''dovecot-mailcow''} \<subseteq> bx_Name ` set (wd_boxes (snd both_back))
   \<and> dovecot_anchor \<in> set (wd_boxes (snd both_back)) \<and> box_at (stack_id 3) (snd both_back) = None
   \<and> untracked (bx_ID dovecot_anchor) (ww_pool (fst both_back))"
proof -
  let ?t1 = "target_box 2 ''nginx-mailcow''" and ?t2 = "target_box 3 ''dovecot-mailcow''" and ?b1 = "anchor_box 4 ''nginx-anchor'' 2"
  have t2: "bx_ID ?t2 = stack_id 3" "bx_ID ?t1 = stack_id 2" by (simp_all add: target_box_def)
  have "dovecot_anchor \<in> set (wd_boxes (snd both_back)) \<and> guest_ref dovecot_anchor = Some (bx_ID ?t2)
    \<and> box_at (bx_ID ?t2) (snd both_back) = None \<and> untracked (bx_ID dovecot_anchor) (ww_pool (fst both_back))"
  proof (rule two_targets_lose_an_anchor [OF stack_ids stack_whole])
    show "wd_events stack_world = []" "?t1 \<in> set (wd_boxes stack_world)" "?t2 \<in> set (wd_boxes stack_world)"
      "?b1 \<in> set (wd_boxes stack_world)" "dovecot_anchor \<in> set (wd_boxes stack_world)"
      by (simp_all add: stack_world_def dovecot_anchor_def)
    show "guest_ref ?t1 = None" "guest_ref ?t2 = None" "?t1 \<noteq> ?t2" "own stack_watcher ?b1" "own stack_watcher dovecot_anchor"
      "guest_ref ?b1 = Some (bx_ID ?t1)" "guest_ref dovecot_anchor = Some (bx_ID ?t2)"
      "cut_prefix (hc_NetworkMode (cr_HostConfig (target_req ''nginx-mailcow''))) ''container:'' = None" by code_simp+
    show "cr_Name (target_req ''nginx-mailcow'') = bx_Name ?t1" by (simp add: target_req_def target_box_def)
    show "(handle_event stack_id ^^ Suc (Suc 0)) (stack_watcher,
        recreate_target stack_id ?t1 (target_req ''nginx-mailcow'') (exec stack_id (CRemove (bx_ID ?t2)) stack_world)) = first_back"
      unfolding first_back_def t2 numeral_2_eq_2 ..
  qed (rule both_back_run)
  then show ?thesis using both_back_rest(1) by (simp add: t2 both_back_boxes target_box_def)
qed

subsection \<open>The properties on this stack\<close>

theorem orphan_forever_witness:
  "dovecot_anchor \<in> set (wd_boxes (exec stack_id (CStart (stack_id 8)) (snd both_back)))
   \<and> (\<exists>ref. guest_ref dovecot_anchor = Some ref \<and> box_at ref (exec stack_id (CStart (stack_id 8)) (snd both_back)) = None)
   \<and> untracked (bx_ID dovecot_anchor) (ww_pool (fst both_back))"
proof -
  let ?s = "(fst both_back, exec stack_id (CStart (stack_id 8)) (snd both_back))"
  have "wrap_run stack_id (spares stack_id (bx_ID dovecot_anchor)) both_back ?s"
    using wrap_run.run_step [OF wrap_run.run_nil wrap_step.others [of _ "CStart (stack_id 8)" _ "fst both_back" "snd both_back"]] by simp
  from orphan_forever [OF stack_ids both_back_orphan this] show ?thesis by simp
qed

text \<open>The first target is recreated while a poll is between its two lists.\<close>

definition nginx_race :: "nat \<Rightarrow> dk_call list" where
  "nginx_race n = (if n = 1 then [CRemove (stack_id 2), CCreate (target_req ''nginx-mailcow''), CStart (stack_id 6)] else [])"

definition race_calls :: dk_history where
  "race_calls = snd (enumerateAndRecheck (docker stack_id nginx_race (\<lambda>_. False) stack_world) id (stack_watcher, []))"


definition nginx_back :: "wr_watcher \<times> world" where
  "nginx_back = (handle_event stack_id ^^ 2)
     (stack_watcher, recreate_target stack_id (target_box 2 ''nginx-mailcow'') (target_req ''nginx-mailcow'') stack_world)"

theorem wrap_stack_heals_witness:
  "wd_events (snd nginx_back) = [] \<and> anchored (fst nginx_back) (snd nginx_back) ''nginx-anchor'' ''nginx-mailcow''"
proof -
  let ?t = "target_box 2 ''nginx-mailcow''" and ?r = "target_req ''nginx-mailcow''"
  obtain W' w' where run: "nginx_back = (W', w')" by (cases nginx_back)
  have name: "bx_Name ?t = ''nginx-mailcow''" by (simp add: target_box_def)
  have "wd_events w' = [] \<and> whole stack_id W' w' \<and> (\<forall>A n. anchored W' w' A n \<longleftrightarrow> anchored stack_watcher stack_world A n)"
  proof (rule wrap_stack_heals [OF stack_ids stack_whole _ _ _ _ _ _ run [unfolded nginx_back_def]])
    show "wd_events stack_world = []" "?t \<in> set (wd_boxes stack_world)" by (simp_all add: stack_world_def)
    show "guest_ref ?t = None" "cut_prefix (hc_NetworkMode (cr_HostConfig ?r)) ''container:'' = None" by code_simp+
    show "cr_Name ?r = bx_Name ?t" by (simp add: name target_req_def)
    show "Suc (length (lookupAnchors stack_watcher (bx_Name ?t))) \<le> 2" unfolding name by code_simp
  qed
  moreover have "anchored stack_watcher stack_world ''nginx-anchor'' ''nginx-mailcow''" by code_simp
  ultimately show ?thesis by (simp add: run)
qed

end
