(* ===== verification/Spec2Isabelle.thy ===== *)
theory Spec2Isabelle
  imports AnchordMain ExtRoute AnchorSystem ServiceProcess WrapIncident
begin

text \<open>
  anchord is one Go binary that gives a Docker Compose project its own address on the local
  network. As a network anchor it owns the external interface and keeps the nftables DNAT maps
  of the project's containers; as a service anchor it keeps the default route of a namespace pointed
  at the network anchor; as a rebinder, a wrap rebinder or a doctor it repairs, or reports, containers
  whose network has been recreated under them. This development models the program from its
  source (all paths below are under \<open>src/\<close>) and proves what makes each part correct.

  \<^bold>\<open>The parts.\<close> \<open>cmd/anchord/main.go\<close> reads the configuration (\<open>internal/config\<close>), resolves the external
  interface (\<open>internal/extiface\<close>), installs the tables (\<open>internal/nat\<close>), and starts the DHCP supervisor
  (\<open>internal/dhcp\<close>), the route manager (\<open>internal/extroute\<close>), discovery (\<open>internal/discovery\<close>, with
  the network choice of \<open>internal/sharednet\<close> and the labels of \<open>internal/labels\<close>), the watchers
  (\<open>internal/autostart\<close>, \<open>internal/dependents\<close>) and the reconciler (\<open>internal/reconciler\<close>, with
  \<open>internal/conntrack\<close>). Discovery sends snapshots, the reconciler turns each into four maps and pushes
  them into the NAT manager; DHCP sends routers to the route manager; \<open>internal/health\<close> and
  \<open>internal/metrics\<close> are written by all of them. \<open>internal/serviceanchor\<close>, \<open>internal/rebinder\<close> and
  \<open>internal/wraprebinder\<close> are the loops of the other modes.

  \<^bold>\<open>The theories.\<close>
  \<^item> GoPrelude: Go's strings, decimal numbers and maps (association lists, ranged over in an order that is
    a parameter), the shared simplification rules. GoNet: \<open>net.IP\<close>, its parsing and printing.
  \<^item> NftKernel, NetlinkRoutes, DockerApi: the environment. Nftables executes batches of operations
    atomically, may refuse any, and runs a packet through a chain; netlink keeps a route list per family,
    with refusals as part of the state; the Docker daemon answers as a function of the history of calls
    made to it, so it may change its mind at any time (\<open>CSleep\<close> marks a pause of the program, \<open>CPanic\<close> the
    point where the process dies). What the code relies on is a locale where there is a law to state:
    \<open>dnat_maps\<close>, \<open>default_router\<close>, \<open>netmode_recreator\<close>; each is interpreted on the code's own functions.
  \<^item> Labels, Config, Sharednet, Discovery, NatManager, Reconciler, ExtRoute, ServiceAnchor, Health,
    Dependents, Autostart, Rebinder, WrapRebinder, ExtIface, Dhcp, Metrics: one package each, the
    reconciler with conntrack. DiscoveryRun: the two goroutines of discovery, their channel and the picker they
    share, as an inductive step relation. EventStream: the subscriptions of the three watchers, their channels
    and their consumers, as another. Functions keep their Go names, with a prefix where two packages share one.
  \<^item> DockerWorld: a Docker daemon that keeps its word, whose answers come from the containers that exist and whose
    calls change them, with others at work and calls that fail. WrapSystem: the wrap rebinder and this daemon as one
    system, in which the watcher's own calls make the events that it receives next; what it never repairs. WrapHealing: what it repairs
    when it is left alone. WrapIncident: the incident it was written for, with two targets.
  \<^item> Forwarding: the NAT manager and the reconciler as an abstract forwarding table, and the runs of a network
    anchor as an inductive relation. AnchorSystem: discovery, its channel, the reconciler and the kernel as one
    system, interleaved with the Docker daemon. AnchordMain: the start and the end of the process.
  \<^item> Observability, ServiceReports: the main loops of the network anchor and of the service anchor once more, with
    the metrics and the readiness they report; without the reports they are the functions of Reconciler and
    ServiceAnchor. ServiceProcess: a service anchor from its start to its end.

  \<^bold>\<open>What is shown.\<close> Packets: after a reconcile a packet goes exactly where the snapshot says (below), in every
  run it only ever goes to a target that some snapshot exposed, and each reconcile refines a step of the
  forwarding table. What a successful reconcile has applied and a later one replaces is flushed from conntrack, whatever
  failed in between; what only a failed one brought into the kernel is not. Snapshots: exactly the labelled
  containers, on a network that does not change once it is settled; with a quiet daemon what is
  received describes the present, in every interleaving of the two goroutines. The whole data plane: from a state with nothing
  under way, the first reconcile without an error that follows, and every one after it, leaves the kernel forwarding
  what the listed containers expose on the network that the picker has to answer, which is the pinned one, the one it has settled on
  or else the best for that list, and such a reconcile can always be reached; a picker that settled on a network
  which is then empty is not repaired, and a race can settle it so. Reports: the gauges are
  the sizes of the kernel's maps, the counters count, and a service anchor's say how often the kernel has accepted a route; readiness means that there
  was a success, which a service anchor whose route is in place when it starts never has. Events: the filters hold
  back nothing that matters, and a stream is handled in order, up to a buffer that a failure can lose. Routes: the wanted default route is
  restored by every tick; what a service anchor leaves behind is stated exactly, the original route unless it was adopted. Containers: the managed anchor is
  recreated only when it is absent, or once its predecessor is gone; its dependents are then tried one by one, as
  far as the daemon lets them be recreated with their configuration unchanged; the follower is connected
  again after the network has settled. Against a daemon that keeps its word, the anchors of a wrapped stack follow a
  target that is recreated; one that was lost by the pool is lost for good, which two targets that come back one after the
  other bring about; a poll finds only what happens between its two lists. Addresses: an applied lease is the only address; every end of one
  releases the last lease that was put on the interface. Loops: the waits and retries end, within bounds that are stated. The process:
  how it ends, with which code, and what it leaves behind, also when a goroutine panics. Several theorems show a defect instead;
  their texts say so.

  \<^bold>\<open>Bounds.\<close> A chain of the tables jumps at most once, so the packet semantics has fuel one. The settle wait
  probes at most 91 times, the resolution attempts at most ten times, a connect is tried at most four
  times. Loops over what a \<open>select\<close> receives (events, ticks, renewals) are functions of the list received,
  so a statement about them holds for every prefix of a run. Loops that end by the clock are partial
  functions, and that they return is proved from a clock that does not run backwards.

  \<^bold>\<open>Not modelled.\<close> Logging, what the HTTP and Prometheus libraries do and the observations of the duration histogram,
  the Fingerprint of the configuration (it formats a log line), and test constructors. The Docker client, the
  netlink, nftables and DHCP libraries, \<open>time.ParseDuration\<close> and the JSON decoder are parameters. Apart from
  those of the data plane (AnchorSystem) and of the event streams, and the watcher of a wrapped stack with its daemon
  (WrapSystem), goroutines are modelled one by one: what one
  sends is the argument of the other, and their interleaving is a list of events.
\<close>

section \<open>Properties that span components\<close>

text \<open>C4. A reconcile that returns without an error decides what happens to packets, whatever the
  maps held before: a packet of protocol tcp or udp that passes the prerouting guard, with
  destination port \<open>q\<close>, is sent to the backend that exposes \<open>q\<close> in the snapshot (the last one in
  range order), with its port rewritten exactly when the label asks for a translation, and it is
  left alone when no backend exposes \<open>q\<close> or the guard does not hold.\<close>

theorem reconcile_packet:
  assumes "nat_inv m k" "range_perm rngS" "range_perm rngD"
    and "reconcile_apply (SetMap (nft_flush accept) m) rngS rngD st r k = (None, k', r', fl)"
    and "l4_proto proto" "pk_l4proto p = proto_byte proto" "dst_port p = Some q"
  shows "hook_verdict ''prerouting'' k' fam p
    = (if guard_ok m fam p
       then map_option (\<lambda>t. Dnat (fam_addr fam (TIP t)) (if TPort t = q then None else Some (be16 (TPort t))))
              (last_target (rngS st) (fam, proto, q))
       else None)"
proof -
  have inst: "nat_inv m k' \<and> nat_holds k' fam proto' (fwd_desired rngS rngD st fam proto')" if "l4_proto proto'" for fam proto'
    unfolding fwd_desired_def by (rule nat_maps.apply_installs [OF assms(4,1) that])
  then have "nat_inv m k'" "fwd_rel k' (fwd_desired rngS rngD st)"
    using assms(5) by (auto simp: fwd_rel_def)
  then show ?thesis using shown_verdict assms(3,5-7) by blast
qed

lemma reconcile_packet_witness:
  "\<exists>k'. hook_verdict ''prerouting'' k' V4 (demo_packet 443) = Some (Dnat [172, 18, 0, 5] (Some [32, 251]))"
proof -
  let ?st = "[(''a'', demo_backend ''a'' [172, 18, 0, 5] 8443)]"
  let ?o = "reconcile_apply (SetMap (nft_flush (\<lambda>_ _. True)) demo_mgr) (\<lambda>xs. xs) rev ?st reconciler_New demo_kernel"
  have "fst ?o = None"
    using push_maps_succeeds [OF demo_inv, of "\<lambda>_ _. True" map_order rev "desiredFromState (\<lambda>xs. xs) ?st"]
    by (auto simp: reconcile_apply_def Let_def map_order_def l4_proto_def entries_for_def desiredFromState_def
        desired_rule_def demo_backend_def gm_put_def valid_entry_def fam_addr_def to4_def
        split: prod.splits option.splits)
  then obtain k' r' fl where run: "?o = (None, k', r', fl)"
    by (cases ?o) simp
  have "dst_port (demo_packet 443) = Some 443"
    by (simp add: dst_port_eq demo_packet_def)
  from reconcile_packet [OF demo_inv _ _ run _ _ this, of "''tcp''" V4]
  have "hook_verdict ''prerouting'' k' V4 (demo_packet 443) = Some (Dnat [172, 18, 0, 5] (Some [32, 251]))"
    by (simp add: l4_proto_def demo_packet_def proto_byte_def ipproto_tcp_def guard_ok_def demo_backend_def
        backend_target_def backend_addr_def fam_addr_def to4_def be16_def)
  then show ?thesis by blast
qed

text \<open>C1. What the program is for: when a snapshot and the reconcile of it succeed, a packet that passes
  the guard, for a port that a listed container exposes and no other one does, is sent to the address
  that container has on the network the picker has chosen, or that the container has whose namespace it
  shares, and to the port its label names; whatever the tables held before.\<close>

theorem exposed_container_reached:
  assumes "picker_inv pk" "pinned pk = []" "candidates pk \<noteq> []" "[] \<notin> set (candidates pk)"
    and snap: "snapshot Pick rng containerList inspect disc pk = (Inr st, pk')"
    and list: "containerList (buildSnapshotFilter disc) = Inr cs" "distinct (map sm_ID cs)"
    and rec: "nat_inv m k" "range_perm rngS" "range_perm rngD"
      "reconcile_apply (SetMap (nft_flush accept) m) rngS rngD st r k = (None, k', r', fl)"
    and c: "c \<in> set cs" "Parse (sm_Labels c) = Inr (Some sp)" "rl \<in> set (Rules sp)"
    and a: "a = (if fam = V4 then fst else snd) (shared_addrs (inspectNetworkSettings inspect) (chosen pk') c)"
      "a \<noteq> []" "fam = V6 \<Longrightarrow> SpecV6 sp \<noteq> V6Off"
    and only: "\<And>c' sp' rl'. c' \<in> set cs \<Longrightarrow> Parse (sm_Labels c') = Inr (Some sp') \<Longrightarrow> rl' \<in> set (Rules sp')
      \<Longrightarrow> Proto rl' = Proto rl \<Longrightarrow> Port rl' = Port rl \<Longrightarrow> c' = c \<and> rl' = rl"
    and p: "pk_l4proto p = proto_byte (Proto rl)" "dst_port p = Some (Port rl)" "guard_ok m fam p"
  shows "hook_verdict ''prerouting'' k' fam p
    = Some (Dnat (fam_addr fam a) (if BackendPort rl = Port rl then None else Some (be16 (BackendPort rl))))"
proof -
  let ?ins = "inspectNetworkSettings inspect" and ?net = "chosen pk'"
  note st = snapshot_state [OF assms(1-4) snap list(1)]
  have "kernel_shows m k' (snapshot_backends rng ?net ?ins cs)"
    using kernel_shows_apply [OF rec] unfolding st(1) .
  then have fwd: "forwards_exposed m k' ?ins ?net cs" by (rule shows_forwards [OF _ st(3) list(2)])
  have offer: "offers ?ins ?net cs fam c rl a"
    using c a by (cases fam) (auto simp: offers_def family_addr_def)
  have sole: "\<forall>c' rl' a'. offers ?ins ?net cs fam c' rl' a' \<longrightarrow> Proto rl' = Proto rl \<longrightarrow> Port rl' = Port rl \<longrightarrow> c' = c \<and> rl' = rl"
    using only by (auto simp: offers_def)
  have "packet_to m fam (Proto rl) (Port rl) p" using p by (simp add: packet_to_def)
  with fwd offer sole show ?thesis unfolding forwards_exposed_def by blast
qed

lemma exposed_container_reached_witness:
  "\<exists>k'. hook_verdict ''prerouting'' k' V4 (demo_packet 443) = Some (Dnat [172, 18, 0, 5] None)"
proof -
  let ?list = "\<lambda>_. Inr [demo_web] :: string + summary list"
  obtain st pk' where snap: "snapshot Pick (\<lambda>xs. xs) ?list (\<lambda>_. None) [] demo_picker = (Inr st, pk')"
    by (cases "snapshot Pick (\<lambda>xs. xs) ?list (\<lambda>_. None) [] demo_picker")
      (auto simp: snapshot_def Let_def split: prod.splits)
  have "pk' = snd (Pick (countBackendsPerNetwork [demo_web]) demo_picker)"
    using snap by (simp add: snapshot_def Let_def split: prod.splits)
  then have chosen: "chosen pk' = ''app''"
    by (simp add: Pick_def demo_picker_def countBackends_eq attached_def demo_web_def
        containsFold_def to_lower_def lower_char_def has_prefix_def)
  have parse: "Parse (sm_Labels demo_web)
      = Inr (Some \<lparr>Rules = [\<lparr>Proto = ''tcp'', Port = 443, BackendPort = 443\<rparr>], SpecV6 = V6Auto\<rparr>)"
    by (simp add: demo_web_def labels_eval)
  have "v4_string [172, 18, 0, 5] = ''172.18.0.5''"
    by (simp add: v4_string_def show_nat.simps digit_char_def char_of_def bit_Suc_0_iff)
  then have ip: "parseIP ''172.18.0.5'' = v4in6_prefix @ [172, 18, 0, 5]"
    using parse_ip_v4_string [of "[172, 18, 0, 5]"] by (simp add: parseIP_def)
  have empty: "parseIP [] = []" by (simp add: parseIP_def)
  have addrs: "shared_addrs (inspectNetworkSettings (\<lambda>_. None)) ''app'' demo_web = (v4in6_prefix @ [172, 18, 0, 5], [])"
    by (simp add: shared_addrs_def addrs_on_def demo_web_def ip empty)
  then have addr: "v4in6_prefix @ [172, 18, 0, 5]
      = (if V4 = V4 then fst else snd) (shared_addrs (inspectNetworkSettings (\<lambda>_. None)) (chosen pk') demo_web)"
    by (simp add: chosen)
  have fields: "sm_ID demo_web = ''web1''" "trimName (sm_Names demo_web) = ''web''"
    by (simp_all add: demo_web_def trimName_def trim_prefix_def has_prefix_def)
  let ?o = "reconcile_apply (SetMap (nft_flush (\<lambda>_ _. True)) demo_mgr) (\<lambda>xs. xs) rev st reconciler_New demo_kernel"
  have "st = snapshot_backends (\<lambda>xs. xs) ''app'' (inspectNetworkSettings (\<lambda>_. None)) [demo_web]"
    using snapshot_state(1) [OF demo_picker_inv _ _ _ snap] chosen by (simp add: demo_picker_def)
  then have st: "st = [(''web1'', \<lparr>bk_ID = ''web1'', bk_Name = ''web'', bk_IPv4 = v4in6_prefix @ [172, 18, 0, 5], bk_IPv6 = [],
      bk_Spec = \<lparr>Rules = [\<lparr>Proto = ''tcp'', Port = 443, BackendPort = 443\<rparr>], SpecV6 = V6Auto\<rparr>\<rparr>)]"
    by (simp add: snapshot_backends_def snapshot_entry_def resolve_addrs addrs parse fields gm_put_def)
  have "fst ?o = None"
    using push_maps_succeeds [OF demo_inv, of "\<lambda>_ _. True" map_order rev "desiredFromState (\<lambda>xs. xs) st"]
    by (auto simp: reconcile_apply_def Let_def map_order_def l4_proto_def entries_for_def desiredFromState_def
        desired_rule_def st gm_put_def valid_entry_def fam_addr_def to4_def split: prod.splits option.splits)
  then obtain k' r' fl where run: "?o = (None, k', r', fl)" by (cases ?o) simp
  let ?rl = "\<lparr>Proto = ''tcp'', Port = 443, BackendPort = 443\<rparr>"
  have "hook_verdict ''prerouting'' k' V4 (demo_packet 443)
      = Some (Dnat (fam_addr V4 (v4in6_prefix @ [172, 18, 0, 5])) (if BackendPort ?rl = Port ?rl then None else Some (be16 (BackendPort ?rl))))"
    by (rule exposed_container_reached [OF demo_picker_inv _ _ _ snap _ _ demo_inv _ _ run _ parse _ addr, where cs = "[demo_web]"])
      (use parse in \<open>auto simp: demo_picker_def dst_port_eq demo_packet_def proto_byte_def guard_ok_def ipproto_tcp_def\<close>)
  then show ?thesis by (auto simp: fam_addr_def to4_def)
qed

end
